(* ===== verification/IPC_Prelude.thy ===== *)
theory IPC_Prelude
  imports Main "HOL-Library.Word" "HOL-Library.Monad_Syntax"
begin

unbundle bit_operations_syntax

section \<open>Prelude: C integers, bytes in memory and cyclic buffers\<close>

text \<open>
  The vocabulary every component shares. The program is C on x86-64 Linux (System V ABI,
  little-endian): \<open>uint8_t\<close>, \<open>uint32_t\<close>, \<open>uint64_t\<close>/\<open>size_t\<close> are \<open>8 word\<close>, \<open>32 word\<close> and
  \<open>64 word\<close>; a block of memory (a \<open>malloc\<close>ed buffer, the \<open>buffer[0]\<close> of a mapped ring) is the list
  of its bytes. A read or write outside a block is undefined behaviour in C; here it is the value
  \<open>None\<close>, so a theorem that an operation returns \<open>Some\<close> is a memory-safety theorem.

  The named collections: \<open>mem_simps\<close> (in-range reads and writes), \<open>u64_arith\<close>
  (word arithmetic as arithmetic of \<open>nat\<close> where nothing wraps) and \<open>slice_simps\<close> (the
  bytes of a cyclic buffer).
\<close>

named_theorems mem_simps \<open>reads and writes inside a block\<close>
named_theorems u64_arith \<open>word operations on values that do not wrap\<close>
named_theorems slice_simps \<open>bytes of a cyclic buffer\<close>

type_synonym u8 = "8 word"
type_synonym u32 = "32 word"
type_synonym u64 = "64 word"
type_synonym bytes = "u8 list"

subsection \<open>Blocks of memory\<close>

definition mem_read :: "bytes \<Rightarrow> nat \<Rightarrow> nat \<Rightarrow> bytes option" where
  "mem_read blk off n =
     (if off + n \<le> length blk then Some (take n (drop off blk)) else None)"

definition mem_write :: "bytes \<Rightarrow> nat \<Rightarrow> bytes \<Rightarrow> bytes option" where
  "mem_write blk off src =
     (if off + length src \<le> length blk
      then Some (take off blk @ src @ drop (off + length src) blk) else None)"

lemma mem_read_in [mem_simps]:
  "off + n \<le> length blk \<Longrightarrow> mem_read blk off n = Some (take n (drop off blk))"
  by (simp add: mem_read_def)

lemma mem_write_in [mem_simps]:
  "off + length src \<le> length blk \<Longrightarrow>
     mem_write blk off src = Some (take off blk @ src @ drop (off + length src) blk)"
  by (simp add: mem_write_def)

lemma mem_read_SomeD:
  "mem_read blk off n = Some bs \<Longrightarrow> off + n \<le> length blk \<and> bs = take n (drop off blk) \<and> length bs = n"
  by (auto simp: mem_read_def split: if_splits)

lemma mem_write_SomeD:
  "mem_write blk off src = Some blk' \<Longrightarrow>
     off + length src \<le> length blk \<and> length blk' = length blk"
  by (auto simp: mem_write_def split: if_splits)

lemma mem_write_length:
  "mem_write blk off src = Some blk' \<Longrightarrow> length blk' = length blk"
  by (drule mem_write_SomeD) simp

text \<open>A read of a range that a write just filled returns what was written; a read of a range
  disjoint from it returns what was there before.\<close>

lemma mem_read_write_same:
  "mem_write blk off src = Some blk' \<Longrightarrow> mem_read blk' off (length src) = Some src"
  by (auto simp: mem_write_def mem_read_def split: if_splits)

lemma mem_read_write_before:
  assumes w: "mem_write blk off src = Some blk'" and le: "o2 + n \<le> off"
  shows "mem_read blk' o2 n = mem_read blk o2 n"
proof -
  from w have b: "off + length src \<le> length blk"
    and blk': "blk' = take off blk @ src @ drop (off + length src) blk"
    by (auto simp: mem_write_def split: if_splits)
  have "take n (drop o2 blk') = take n (drop o2 (take off blk))"
    using le b by (simp add: blk')
  also have "\<dots> = take n (drop o2 blk)"
    using le by (simp add: drop_take min_def)
  finally show ?thesis
    using b le by (simp add: mem_read_def blk')
qed

lemma mem_read_write_after:
  assumes w: "mem_write blk off src = Some blk'" and ge: "off + length src \<le> o2"
  shows "mem_read blk' o2 n = mem_read blk o2 n"
proof -
  from w have b: "off + length src \<le> length blk"
    and blk': "blk' = take off blk @ src @ drop (off + length src) blk"
    by (auto simp: mem_write_def split: if_splits)
  obtain d where d: "o2 = off + length src + d"
    using ge le_Suc_ex by blast
  have "drop o2 blk' = drop o2 blk"
    using b by (simp add: blk' d add.commute add.left_commute)
  then show ?thesis
    using b by (simp add: mem_read_def blk')
qed

lemma mem_write_cong_prefix:
  assumes "mem_write blk off src = Some blk'" and "k \<le> off"
  shows "take k blk' = take k blk"
  using assms by (auto simp: mem_write_def min_def split: if_splits)

subsection \<open>Little-endian fields\<close>

text \<open>\<open>le_bytes n w\<close> is the object representation of an \<open>n\<close>-byte unsigned integer, lowest byte
  first; \<open>of_le_bytes\<close> reads one back.\<close>

definition le_bytes :: "nat \<Rightarrow> 'a::len word \<Rightarrow> bytes" where
  "le_bytes n w = map (\<lambda>i. ucast (drop_bit (8 * i) w)) [0..<n]"

fun of_le_bytes :: "bytes \<Rightarrow> 'a::len word" where
  "of_le_bytes [] = 0"
| "of_le_bytes (b # bs) = ucast b OR push_bit 8 (of_le_bytes bs)"

lemma length_le_bytes [simp]: "length (le_bytes n w) = n"
  by (simp add: le_bytes_def)

lemma bit_of_le_bytes:
  "bit (of_le_bytes bs :: 'a::len word) k \<longleftrightarrow>
     k < LENGTH('a) \<and> k div 8 < length bs \<and> bit (bs ! (k div 8)) (k mod 8)"
proof (induction bs arbitrary: k)
  case Nil
  then show ?case by simp
next
  case (Cons b bs)
  show ?case
  proof (cases "k < 8")
    case True
    then show ?thesis by (auto simp: bit_or_iff bit_ucast_iff bit_push_bit_iff)
  next
    case False
    have b: "\<not> bit b k"
      using False bit_imp_le_length [of b k] by auto
    define j where "j = k - 8"
    from False have k: "k = j + 8" by (simp add: j_def)
    have "k div 8 = Suc (j div 8)" "k mod 8 = j mod 8"
      by (simp_all add: k)
    then show ?thesis
      using b Cons.IH [of j] by (auto simp: k bit_or_iff bit_ucast_iff bit_push_bit_iff)
  qed
qed

lemma of_le_bytes_le_bytes:
  fixes w :: "'a::len word"
  assumes "LENGTH('a) \<le> 8 * n"
  shows "of_le_bytes (le_bytes n w) = w"
proof (rule bit_word_eqI)
  fix k assume k: "k < LENGTH('a)"
  then have "k div 8 < n" using assms by linarith
  then show "bit (of_le_bytes (le_bytes n w) :: 'a word) k \<longleftrightarrow> bit w k"
    using k by (simp add: bit_of_le_bytes le_bytes_def bit_ucast_iff bit_drop_bit_eq)
qed

lemma of_le_bytes_u32 [simp]: "of_le_bytes (le_bytes 4 (w :: u32)) = w"
  by (rule of_le_bytes_le_bytes) simp

lemma of_le_bytes_u64 [simp]: "of_le_bytes (le_bytes 8 (w :: u64)) = w"
  by (rule of_le_bytes_le_bytes) simp

text \<open>The low four bytes of a \<open>size_t\<close> are the bytes of its truncation to \<open>uint32_t\<close>.\<close>

lemma le_bytes_ucast32: "le_bytes 4 (w :: u64) = le_bytes 4 (ucast w :: u32)"
proof (rule nth_equalityI)
  show "length (le_bytes 4 w) = length (le_bytes 4 (ucast w :: u32))" by simp
next
  fix i assume "i < length (le_bytes 4 w)"
  then have i: "i < 4" by simp
  show "le_bytes 4 w ! i = le_bytes 4 (ucast w :: u32) ! i"
  proof (rule bit_word_eqI)
    fix k assume "k < LENGTH(8)"
    then have "8 * i + k < 32" using i by simp
    then show "bit (le_bytes 4 w ! i) k \<longleftrightarrow> bit (le_bytes 4 (ucast w :: u32) ! i) k"
      using i by (simp add: le_bytes_def bit_ucast_iff bit_drop_bit_eq)
  qed
qed

definition load32 :: "bytes \<Rightarrow> nat \<Rightarrow> u32 option" where
  "load32 blk off = map_option of_le_bytes (mem_read blk off 4)"

definition load64 :: "bytes \<Rightarrow> nat \<Rightarrow> u64 option" where
  "load64 blk off = map_option of_le_bytes (mem_read blk off 8)"

definition store32 :: "bytes \<Rightarrow> nat \<Rightarrow> u32 \<Rightarrow> bytes option" where
  "store32 blk off w = mem_write blk off (le_bytes 4 w)"

definition store64 :: "bytes \<Rightarrow> nat \<Rightarrow> u64 \<Rightarrow> bytes option" where
  "store64 blk off w = mem_write blk off (le_bytes 8 w)"

lemmas field_defs = load32_def load64_def store32_def store64_def

lemma store32_in [mem_simps]: "off + 4 \<le> length blk \<Longrightarrow> \<exists>blk'. store32 blk off w = Some blk'"
  by (simp add: store32_def mem_write_def)

lemma store64_in [mem_simps]: "off + 8 \<le> length blk \<Longrightarrow> \<exists>blk'. store64 blk off w = Some blk'"
  by (simp add: store64_def mem_write_def)

lemma store_length:
  "store32 blk off w = Some blk' \<Longrightarrow> length blk' = length blk"
  "store64 blk off v = Some blk' \<Longrightarrow> length blk' = length blk"
  by (auto simp: store32_def store64_def dest: mem_write_length)

lemma load_store_same:
  "store32 blk off w = Some blk' \<Longrightarrow> load32 blk' off = Some w"
  "store64 blk off v = Some blk' \<Longrightarrow> load64 blk' off = Some v"
  by (auto simp: field_defs dest: mem_read_write_same)

text \<open>A read of a range disjoint from the one written is the read before the write.\<close>

lemma mem_read_frame:
  assumes "mem_write blk off src = Some blk'" "o2 + n \<le> off \<or> off + length src \<le> o2"
  shows "mem_read blk' o2 n = mem_read blk o2 n"
  using assms mem_read_write_before mem_read_write_after by blast

lemma mem_read_store_frame:
  "store32 blk off w = Some blk' \<Longrightarrow> o2 + n \<le> off \<or> off + 4 \<le> o2 \<Longrightarrow>
     mem_read blk' o2 n = mem_read blk o2 n"
  "store64 blk off v = Some blk' \<Longrightarrow> o2 + n \<le> off \<or> off + 8 \<le> o2 \<Longrightarrow>
     mem_read blk' o2 n = mem_read blk o2 n"
  by (auto simp: store32_def store64_def intro: mem_read_frame)

lemma load_store_frame:
  "store32 blk off w = Some blk' \<Longrightarrow> o2 + 4 \<le> off \<or> off + 4 \<le> o2 \<Longrightarrow>
     load32 blk' o2 = load32 blk o2"
  "store64 blk off v = Some blk' \<Longrightarrow> o2 + 4 \<le> off \<or> off + 8 \<le> o2 \<Longrightarrow>
     load32 blk' o2 = load32 blk o2"
  "store32 blk off w = Some blk' \<Longrightarrow> o2 + 8 \<le> off \<or> off + 4 \<le> o2 \<Longrightarrow>
     load64 blk' o2 = load64 blk o2"
  by (simp_all add: load32_def load64_def mem_read_store_frame)

text \<open>Reads see only the bytes they cover.\<close>

lemma mem_read_prefix:
  assumes "take k a = take k b" "off + n \<le> k" "k \<le> length a" "k \<le> length b"
  shows "mem_read a off n = mem_read b off n"
proof -
  have "take n (drop off a) = take n (drop off (take k a))"
    using assms(2) by (simp add: drop_take min_def)
  also have "\<dots> = take n (drop off b)"
    unfolding assms(1) using assms(2) by (simp add: drop_take min_def)
  finally show ?thesis
    using assms by (simp add: mem_read_def)
qed

subsection \<open>Cyclic buffers\<close>

text \<open>
  \<open>ring_slice buf p n\<close> lists the \<open>n\<close> bytes of the cyclic buffer \<open>buf\<close> that start at position \<open>p\<close>;
  \<open>ring_put buf p d\<close> is \<open>buf\<close> with \<open>d\<close> stored from position \<open>p\<close> on, wrapping at the end. They are the
  reference definitions the copying code of the ring buffers is compared with.
\<close>

definition ring_slice :: "bytes \<Rightarrow> nat \<Rightarrow> nat \<Rightarrow> bytes" where
  "ring_slice buf p n = map (\<lambda>i. buf ! ((p + i) mod length buf)) [0..<n]"

definition ring_put :: "bytes \<Rightarrow> nat \<Rightarrow> bytes \<Rightarrow> bytes" where
  "ring_put buf p d =
     map (\<lambda>j. let k = (if p \<le> j then j - p else j + length buf - p)
              in if k < length d then d ! k else buf ! j) [0..<length buf]"

lemma length_ring_slice [simp]: "length (ring_slice buf p n) = n"
  by (simp add: ring_slice_def)

lemma length_ring_put [simp]: "length (ring_put buf p d) = length buf"
  by (simp add: ring_put_def)

lemma ring_slice_0 [simp]: "ring_slice buf p 0 = []"
  by (simp add: ring_slice_def)

lemma ring_slice_append [slice_simps]:
  "ring_slice buf p (n + m) = ring_slice buf p n @ ring_slice buf ((p + n) mod length buf) m"
proof (rule nth_equalityI)
  fix i assume "i < length (ring_slice buf p (n + m))"
  then have i: "i < n + m" by simp
  show "ring_slice buf p (n + m) ! i
        = (ring_slice buf p n @ ring_slice buf ((p + n) mod length buf) m) ! i"
  proof (cases "i < n")
    case True
    then show ?thesis using i by (simp add: ring_slice_def nth_append)
  next
    case False
    then obtain j where "i = n + j" by (metis le_Suc_ex not_less)
    then show ?thesis
      using i by (simp add: ring_slice_def nth_append mod_simps add.assoc)
  qed
qed simp

lemma ring_slice_straight:
  assumes "p + n \<le> length buf"
  shows "ring_slice buf p n = take n (drop p buf)"
  using assms by (intro nth_equalityI) (simp_all add: ring_slice_def)

lemma ring_slice_wrap:
  assumes "p \<le> length buf" and "n \<le> length buf" and "length buf < p + n"
  shows "ring_slice buf p n = drop p buf @ take (n - (length buf - p)) buf"
proof (rule nth_equalityI)
  fix i assume "i < length (ring_slice buf p n)"
  then have i: "i < n" by simp
  show "ring_slice buf p n ! i = (drop p buf @ take (n - (length buf - p)) buf) ! i"
  proof (cases "p + i < length buf")
    case True
    then have "i < length buf - p" by linarith
    then show ?thesis using i True by (simp add: ring_slice_def nth_append)
  next
    case False
    then have "(p + i) mod length buf = i - (length buf - p)"
      using assms i by (auto simp: mod_if add.commute)
    moreover have "\<not> i < length buf - p" using False by linarith
    ultimately show ?thesis using assms i by (simp add: ring_slice_def nth_append)
  qed
qed (use assms in simp)

lemma ring_put_straight:
  assumes "p + length d \<le> length buf"
  shows "ring_put buf p d = take p buf @ d @ drop (p + length d) buf"
  using assms by (intro nth_equalityI) (auto simp: ring_put_def nth_append Let_def)

lemma ring_put_wrap:
  assumes "p \<le> length buf" and "length d \<le> length buf" and "length buf < p + length d"
  shows "ring_put buf p d
         = drop (length buf - p) d
           @ drop (length d - (length buf - p)) (take p buf @ take (length buf - p) d)"
proof (rule nth_equalityI)
  fix i assume "i < length (ring_put buf p d)"
  then have i: "i < length buf" by simp
  consider "p \<le> i" | "i < p" "i < length d - (length buf - p)"
    | "i < p" "length d - (length buf - p) \<le> i" by linarith
  then show "ring_put buf p d ! i
        = (drop (length buf - p) d
           @ drop (length d - (length buf - p)) (take p buf @ take (length buf - p) d)) ! i"
    using i assms
    by cases (auto simp: ring_put_def nth_append Let_def add.commute min_def)
qed (use assms in \<open>auto simp: min_def\<close>)

lemma ring_slice_put_same [slice_simps]:
  assumes "p < length buf" and "length d \<le> length buf"
  shows "ring_slice (ring_put buf p d) p (length d) = d"
proof (rule nth_equalityI)
  fix i assume "i < length (ring_slice (ring_put buf p d) p (length d))"
  then have i: "i < length d" by simp
  have j: "(p + i) mod length buf = (if p + i < length buf then p + i else p + i - length buf)"
    using assms i by (simp add: mod_if)
  show "ring_slice (ring_put buf p d) p (length d) ! i = d ! i"
    using assms i j by (auto simp: ring_slice_def ring_put_def Let_def)
qed simp

lemma ring_slice_put_other [slice_simps]:
  assumes "q < length buf" and "n + length d \<le> length buf" and p: "p = (q + n) mod length buf"
  shows "ring_slice (ring_put buf p d) q n = ring_slice buf q n"
proof (rule nth_equalityI)
  fix i assume "i < length (ring_slice (ring_put buf p d) q n)"
  then have i: "i < n" by simp
  have j: "(q + i) mod length buf = (if q + i < length buf then q + i else q + i - length buf)"
    using assms i by (simp add: mod_if)
  have p': "p = (if q + n < length buf then q + n else q + n - length buf)"
    using assms i by (auto simp: p mod_if)
  show "ring_slice (ring_put buf p d) q n ! i = ring_slice buf q n ! i"
    using assms(1,2) i j p' by (auto simp: ring_slice_def ring_put_def Let_def)
qed simp

lemma ring_put_append [slice_simps]:
  assumes "p < length buf" and "length a + length b \<le> length buf"
  shows "ring_put (ring_put buf p a) ((p + length a) mod length buf) b = ring_put buf p (a @ b)"
proof (rule nth_equalityI)
  fix i assume "i < length (ring_put (ring_put buf p a) ((p + length a) mod length buf) b)"
  then have i: "i < length buf" by simp
  have q: "(p + length a) mod length buf
           = (if p + length a < length buf then p + length a else p + length a - length buf)"
    using assms by (simp add: mod_if)
  show "ring_put (ring_put buf p a) ((p + length a) mod length buf) b ! i
        = ring_put buf p (a @ b) ! i"
    using assms i unfolding q by (auto simp: ring_put_def nth_append Let_def)
qed simp

lemma ring_slice_put_extend [slice_simps]:
  assumes "q < length buf" and "n + length d \<le> length buf"
  shows "ring_slice (ring_put buf ((q + n) mod length buf) d) q (n + length d)
         = ring_slice buf q n @ d"
proof -
  have "0 < length buf" using assms by linarith
  then have p: "(q + n) mod length buf < length buf" by simp
  show ?thesis
    using assms ring_slice_put_other [OF assms refl] ring_slice_put_same [OF p, of d]
    by (simp add: ring_slice_append)
qed

text \<open>The number of bytes from position \<open>r\<close> forward to position \<open>w\<close>.\<close>

definition cyc_dist :: "nat \<Rightarrow> nat \<Rightarrow> nat \<Rightarrow> nat" where
  "cyc_dist S r w = (if r \<le> w then w - r else S - (r - w))"

lemma add_mod_cases: "(p::nat) < S \<Longrightarrow> n \<le> S \<Longrightarrow> (p + n) mod S = (if p + n < S then p + n else p + n - S)"
  by (auto simp: mod_if)

lemma cyc_dist_less: "r < S \<Longrightarrow> w < S \<Longrightarrow> cyc_dist S r w < S"
  by (auto simp: cyc_dist_def)

lemma cyc_dist_end: "r < S \<Longrightarrow> w < S \<Longrightarrow> (r + cyc_dist S r w) mod S = w"
  by (auto simp: cyc_dist_def mod_if)

lemma cyc_dist_forward:
  assumes "r < S" "w < S" "cyc_dist S r w + n < S"
  shows "cyc_dist S r ((w + n) mod S) = cyc_dist S r w + n"
proof -
  have "n \<le> S" using assms by simp
  then show ?thesis
    using assms unfolding add_mod_cases [OF assms(2) \<open>n \<le> S\<close>]
    by (auto simp: cyc_dist_def split: if_splits)
qed

lemma cyc_dist_shrink:
  assumes "r < S" "w < S" "n \<le> cyc_dist S r w"
  shows "cyc_dist S ((r + n) mod S) w = cyc_dist S r w - n"
proof -
  have "n \<le> S" using assms cyc_dist_less [of r S w] by simp
  then show ?thesis
    using assms unfolding add_mod_cases [OF assms(1) \<open>n \<le> S\<close>]
    by (auto simp: cyc_dist_def split: if_splits)
qed

subsection \<open>Word arithmetic that does not wrap\<close>

lemma unat_lt_32: "unat (w :: u32) < 2 ^ 32"
  using unsigned_less [of w] by simp

lemma unat_lt_64: "unat (w :: u64) < 2 ^ 64"
  using unsigned_less [of w] by simp

lemma unat_lt_32_64: "unat (w :: u32) < 2 ^ 64"
  using unat_lt_32 [of w] by simp

lemma unat_add_u64 [u64_arith]:
  "unat a + unat b < 2 ^ 64 \<Longrightarrow> unat (a + b :: u64) = unat a + unat b"
  by (simp add: unat_word_ariths)

lemma unat_sub_u64 [u64_arith]:
  "unat b \<le> unat a \<Longrightarrow> unat (a - b :: u64) = unat a - unat b"
  by (simp add: unat_sub word_le_nat_alt)

lemma unat_add_u32 [u64_arith]:
  "unat a + unat b < 2 ^ 32 \<Longrightarrow> unat (a + b :: u32) = unat a + unat b"
  by (simp add: unat_word_ariths)

lemma unat_sub_u32 [u64_arith]:
  "unat b \<le> unat a \<Longrightarrow> unat (a - b :: u32) = unat a - unat b"
  by (simp add: unat_sub word_le_nat_alt)

lemma unat_ucast_32_64 [u64_arith, simp]: "unat (ucast (w :: u32) :: u64) = unat w"
  by (simp add: unsigned_ucast_eq take_bit_nat_eq_self [OF unat_lt_32_64])

lemma unat_ucast_64_32 [u64_arith]:
  "unat w < 2 ^ 32 \<Longrightarrow> unat (ucast (w :: u64) :: u32) = unat w"
  by (simp add: take_bit_nat_eq_self unsigned_ucast_eq)

lemma unat_of_nat_u64 [u64_arith]: "n < 2 ^ 64 \<Longrightarrow> unat (word_of_nat n :: u64) = n"
  by (simp add: unat_of_nat)

lemma unat_of_nat_u32 [u64_arith]: "n < 2 ^ 32 \<Longrightarrow> unat (word_of_nat n :: u32) = n"
  by (simp add: unat_of_nat)

lemma unat_div2_u64 [u64_arith]: "unat (w div 2 :: u64) = unat w div 2"
  by (simp add: unat_div)

lemma word_eq_unat: "(a :: 'a::len word) = b \<longleftrightarrow> unat a = unat b"
  by (simp add: word_unat_eq_iff)

lemmas word_order_unat = word_less_nat_alt word_le_nat_alt word_eq_unat


subsection \<open>Sums over a history\<close>

lemma sum_list_snoc: "xs \<noteq> [] \<Longrightarrow> sum_list (map f xs) = sum_list (map f (butlast xs)) + (f (last xs) :: nat)"
  by (subst append_butlast_last_id [symmetric], assumption, subst map_append) simp

end
