(* ===== verification/Message_Queue.thy ===== *)
theory Message_Queue
  imports IPC_Prelude
begin

section \<open>The message-queue interface\<close>

text \<open>
  What the handlers rely on when they call \<open>ring_buffer_write\<close> and \<open>ring_buffer_read\<close>, whatever
  struct the ring lives in: a bounded first-in first-out queue of byte strings. A write takes the
  first \<open>len\<close> bytes of a caller's block; a read copies the oldest message to the front of a caller's
  block and reports its length. Every operation also promises not to leave its blocks (it
  returns \<open>Some\<close>).
\<close>

locale message_queue =
  fixes rd :: "'r \<Rightarrow> bytes \<Rightarrow> u64 \<Rightarrow> (bool \<times> 'r \<times> bytes \<times> u64) option"
    and wr :: "'r \<Rightarrow> bytes \<Rightarrow> u64 \<Rightarrow> (bool \<times> 'r) option"
    and holds :: "'r \<Rightarrow> bytes list \<Rightarrow> bool"
    and room :: "'r \<Rightarrow> nat \<Rightarrow> bool"
  assumes write_ok: "holds r ms \<Longrightarrow> room r (unat len) \<Longrightarrow> unat len \<le> length data \<Longrightarrow>
      unat len < 2 ^ 32 \<Longrightarrow>
      \<exists>r'. wr r data len = Some (True, r') \<and> holds r' (ms @ [take (unat len) data])"
    and write_full: "holds r ms \<Longrightarrow> \<not> room r (unat len) \<Longrightarrow> unat len \<le> length data \<Longrightarrow>
      wr r data len = Some (False, r)"
    and read_empty: "holds r [] \<Longrightarrow> rd r data max_len = Some (False, r, data, 0)"
    and read_ok: "holds r (m # ms) \<Longrightarrow> length m \<le> unat max_len \<Longrightarrow> length m \<le> length data \<Longrightarrow>
      \<exists>r'. rd r data max_len = Some (True, r', m @ drop (length m) data, word_of_nat (length m))
           \<and> holds r' ms"
    and read_big: "holds r (m # ms) \<Longrightarrow> unat max_len < length m \<Longrightarrow>
      rd r data max_len = Some (False, r, data, 0)"

text \<open>Runs of writes and of reads, stopping where one fails, as the callers' loops do.\<close>

fun write_all ::
  "('r \<Rightarrow> bytes \<Rightarrow> u64 \<Rightarrow> (bool \<times> 'r) option) \<Rightarrow> 'r \<Rightarrow> bytes list \<Rightarrow> 'r option" where
  "write_all wr r [] = Some r"
| "write_all wr r (m # ms) =
     (case wr r m (word_of_nat (length m)) of
        Some (True, r') \<Rightarrow> write_all wr r' ms
      | _ \<Rightarrow> None)"

fun read_all ::
  "('r \<Rightarrow> bytes \<Rightarrow> u64 \<Rightarrow> (bool \<times> 'r \<times> bytes \<times> u64) option) \<Rightarrow> u64 \<Rightarrow> bytes \<Rightarrow> nat \<Rightarrow> 'r
     \<Rightarrow> (bytes list \<times> 'r) option" where
  "read_all rd max_len blk 0 r = Some ([], r)"
| "read_all rd max_len blk (Suc n) r =
     (case rd r blk max_len of
        Some (True, r', blk', len) \<Rightarrow>
          map_option (apfst ((#) (take (unat len) blk'))) (read_all rd max_len blk' n r')
      | _ \<Rightarrow> None)"

context message_queue
begin

lemma write_fails_iff:
  assumes "holds r ms" "unat len \<le> length data" "unat len < 2 ^ 32"
  shows "wr r data len = Some (False, r) \<longleftrightarrow> \<not> room r (unat len)"
  using assms write_ok [of r ms len data] write_full [of r ms len data] by fastforce

lemma write_holds:
  assumes "holds r ms" "wr r m (word_of_nat (length m)) = Some (True, r')" "length m < 2 ^ 32"
  shows "holds r' (ms @ [m])"
proof -
  have n: "unat (word_of_nat (length m) :: u64) = length m"
    using assms(3) by (simp add: unat_of_nat_u64)
  have "room r (length m)"
    using write_full [OF assms(1), of "word_of_nat (length m)" m] assms(2) by (auto simp: n)
  then show ?thesis
    using write_ok [OF assms(1), of "word_of_nat (length m)" m] assms(2,3) by (auto simp: n)
qed

lemma write_all_holds:
  assumes "holds r ms" "write_all wr r ns = Some r'" "\<forall>m \<in> set ns. length m < 2 ^ 32"
  shows "holds r' (ms @ ns)"
  using assms
proof (induction ns arbitrary: r ms)
  case Nil
  then show ?case by simp
next
  case (Cons m ns)
  then obtain r1 where w: "wr r m (word_of_nat (length m)) = Some (True, r1)"
    and ws: "write_all wr r1 ns = Some r'"
    by (auto split: option.splits bool.splits)
  have "holds r1 (ms @ [m])"
    using write_holds [OF Cons.prems(1) w] Cons.prems(3) by simp
  then show ?case
    using Cons.IH [OF _ ws, of "ms @ [m]"] Cons.prems(3) by simp
qed

lemma read_all_holds:
  assumes "holds r (ns @ ms)" "\<forall>m \<in> set ns. length m \<le> unat max_len \<and> length m \<le> length blk"
  shows "\<exists>r'. read_all rd max_len blk (length ns) r = Some (ns, r') \<and> holds r' ms"
  using assms
proof (induction ns arbitrary: r blk)
  case Nil
  then show ?case by simp
next
  case (Cons m ns)
  let ?blk = "m @ drop (length m) blk"
  have m: "length m \<le> unat max_len" "length m \<le> length blk"
    using Cons.prems(2) by simp_all
  obtain r1 where r1: "rd r blk max_len = Some (True, r1, ?blk, word_of_nat (length m))"
    and h: "holds r1 (ns @ ms)"
    using read_ok [OF _ m] Cons.prems(1) by fastforce
  have "length m < 2 ^ 64"
    using m(1) unat_lt_64 [of max_len] by linarith
  then have n: "unat (word_of_nat (length m) :: u64) = length m"
    by (rule unat_of_nat_u64)
  have "\<forall>m' \<in> set ns. length m' \<le> unat max_len \<and> length m' \<le> length ?blk"
    using Cons.prems(2) m(2) by simp
  then obtain r' where "read_all rd max_len ?blk (length ns) r1 = Some (ns, r')" "holds r' ms"
    using Cons.IH [OF h] by blast
  then show ?case by (simp add: r1 n)
qed

text \<open>What was written comes out, once, in order, and unchanged.\<close>

lemma fifo:
  assumes "holds r []" "write_all wr r ns = Some r'"
    and "\<forall>m \<in> set ns. length m < 2 ^ 32 \<and> length m \<le> unat max_len \<and> length m \<le> length blk"
  shows "\<exists>r''. read_all rd max_len blk (length ns) r' = Some (ns, r'') \<and> holds r'' []"
  using read_all_holds [of r' ns "[]" max_len blk] write_all_holds [of r "[]" ns r'] assms by simp

text \<open>A message longer than the reader's limit is never consumed: it blocks the queue.\<close>

lemma read_big_blocks:
  assumes "holds r (m # ms)" "unat max_len < length m"
  shows "read_all rd max_len blk (Suc n) r = None"
  using read_big [OF assms] by simp

end

end
