(* ===== verification/Ring_Buffer.thy ===== *)
theory Ring_Buffer
  imports IPC_Prelude Message_Queue
begin

section \<open>The ring buffer of framed messages\<close>

text \<open>
  All four shared-memory backends move messages through one byte ring: a four-byte length, then
  the payload, both wrapping at the end of \<open>buffer\<close>. The sources hold the code four times, in two
  shapes: \<open>shm_blocking.c\<close> and \<open>shm_nonblocking.c\<close> keep positions in \<open>size_t\<close> (the \<open>ring64_\<close>
  functions), \<open>lfshm_blocking.c\<close> and \<open>lfshm_nonblocking.c\<close> keep them in \<open>uint32_t\<close> beside a
  \<open>size_t\<close> capacity (the \<open>ring32_\<close> functions). Each shape is translated once here, on the fields it
  touches; the component theories apply it to their own structs.

  \<open>put\<close> and \<open>get\<close> are the copy-with-wrap fragment, which the source writes out twice in each
  function: once for the length (four bytes) and once for the payload. \<open>None\<close> is a \<open>memcpy\<close> that
  leaves its block.
\<close>

subsection \<open>Positions in \<open>size_t\<close>\<close>

definition ring64_put :: "bytes \<Rightarrow> u64 \<Rightarrow> u64 \<Rightarrow> bytes \<Rightarrow> u64 \<Rightarrow> (bytes \<times> u64) option" where
  "ring64_put buf sz pos src n =
     (if pos + n > sz then do {
        let first_chunk = sz - pos;
        a \<leftarrow> mem_read src 0 (unat first_chunk);
        buf1 \<leftarrow> mem_write buf (unat pos) a;
        b \<leftarrow> mem_read src (unat first_chunk) (unat (n - first_chunk));
        buf2 \<leftarrow> mem_write buf1 0 b;
        Some (buf2, n - first_chunk)
      } else do {
        a \<leftarrow> mem_read src 0 (unat n);
        buf1 \<leftarrow> mem_write buf (unat pos) a;
        let pos' = pos + n;
        Some (buf1, if pos' = sz then 0 else pos')
      })"

definition ring64_get :: "bytes \<Rightarrow> u64 \<Rightarrow> u64 \<Rightarrow> bytes \<Rightarrow> u64 \<Rightarrow> (bytes \<times> u64) option" where
  "ring64_get buf sz pos dst n =
     (if pos + n > sz then do {
        let first_chunk = sz - pos;
        a \<leftarrow> mem_read buf (unat pos) (unat first_chunk);
        dst1 \<leftarrow> mem_write dst 0 a;
        b \<leftarrow> mem_read buf 0 (unat (n - first_chunk));
        dst2 \<leftarrow> mem_write dst1 (unat first_chunk) b;
        Some (dst2, n - first_chunk)
      } else do {
        a \<leftarrow> mem_read buf (unat pos) (unat n);
        dst1 \<leftarrow> mem_write dst 0 a;
        let pos' = pos + n;
        Some (dst1, if pos' = sz then 0 else pos')
      })"

text \<open>The results are: success, the new \<open>read_pos\<close>, the caller's block and \<open>*bytes_read\<close>. The
  local \<open>msg_len\<close> is uninitialised before the copy fills it.\<close>

definition ring64_read ::
  "bytes \<Rightarrow> u64 \<Rightarrow> u64 \<Rightarrow> u64 \<Rightarrow> bytes \<Rightarrow> u64 \<Rightarrow> (bool \<times> u64 \<times> bytes \<times> u64) option" where
  "ring64_read buf sz rp wp data max_len =
     (if rp = wp then Some (False, rp, data, 0)
      else do {
        (lenb, read_pos) \<leftarrow> ring64_get buf sz rp (replicate 4 0) 4;
        let msg_len = (of_le_bytes lenb :: u32);
        if ucast msg_len > max_len then Some (False, rp, data, 0)
        else do {
          (data', read_pos') \<leftarrow> ring64_get buf sz read_pos data (ucast msg_len);
          Some (True, read_pos', data', ucast msg_len)
        }
      })"

text \<open>The source copies the first four bytes of the object \<open>len\<close> itself, a \<open>size_t\<close>. The results
  are: success, the buffer and the new \<open>write_pos\<close>.\<close>

definition ring64_write ::
  "bytes \<Rightarrow> u64 \<Rightarrow> u64 \<Rightarrow> u64 \<Rightarrow> bytes \<Rightarrow> u64 \<Rightarrow> (bool \<times> bytes \<times> u64) option" where
  "ring64_write buf sz rp wp data len =
     (if len > sz div 2 then Some (False, buf, wp)
      else let available = (if wp \<ge> rp then sz - (wp - rp) else rp - wp)
      in if available \<le> len + 4 + 1 then Some (False, buf, wp)
      else do {
        (buf1, wp1) \<leftarrow> ring64_put buf sz wp (le_bytes 8 len) 4;
        (buf2, wp2) \<leftarrow> ring64_put buf1 sz wp1 data len;
        Some (True, buf2, wp2)
      })"

subsection \<open>Positions in \<open>uint32_t\<close>\<close>

text \<open>\<open>write_pos + n\<close> is computed in \<open>size_t\<close>, because \<open>n\<close> is one; every assignment to the position
  truncates to 32 bits.\<close>

definition ring32_put :: "bytes \<Rightarrow> u64 \<Rightarrow> u32 \<Rightarrow> bytes \<Rightarrow> u64 \<Rightarrow> (bytes \<times> u32) option" where
  "ring32_put buf sz pos src n =
     (if ucast pos + n > sz then do {
        let first_chunk = sz - ucast pos;
        a \<leftarrow> mem_read src 0 (unat first_chunk);
        buf1 \<leftarrow> mem_write buf (unat pos) a;
        b \<leftarrow> mem_read src (unat first_chunk) (unat (n - first_chunk));
        buf2 \<leftarrow> mem_write buf1 0 b;
        Some (buf2, ucast (n - first_chunk))
      } else do {
        a \<leftarrow> mem_read src 0 (unat n);
        buf1 \<leftarrow> mem_write buf (unat pos) a;
        let pos' = ucast (ucast pos + n :: u64);
        Some (buf1, if ucast pos' = sz then 0 else pos')
      })"

text \<open>\<open>endp\<close> is the value of \<open>read_pos + n\<close> in the comparison with the capacity: the length field
  computes it in \<open>size_t\<close> (\<open>n\<close> is \<open>sizeof\<close>), the payload in \<open>uint32_t\<close> (\<open>n\<close> is \<open>msg_len\<close>), where it
  can wrap.\<close>

definition ring32_get ::
  "bytes \<Rightarrow> u64 \<Rightarrow> u32 \<Rightarrow> u64 \<Rightarrow> bytes \<Rightarrow> u64 \<Rightarrow> (bytes \<times> u32) option" where
  "ring32_get buf sz pos endp dst n =
     (if endp > sz then do {
        let first_chunk = sz - ucast pos;
        a \<leftarrow> mem_read buf (unat pos) (unat first_chunk);
        dst1 \<leftarrow> mem_write dst 0 a;
        b \<leftarrow> mem_read buf 0 (unat (n - first_chunk));
        dst2 \<leftarrow> mem_write dst1 (unat first_chunk) b;
        Some (dst2, ucast (n - first_chunk))
      } else do {
        a \<leftarrow> mem_read buf (unat pos) (unat n);
        dst1 \<leftarrow> mem_write dst 0 a;
        let pos' = ucast (ucast pos + n :: u64);
        Some (dst1, if ucast pos' = sz then 0 else pos')
      })"

definition ring32_read ::
  "bytes \<Rightarrow> u64 \<Rightarrow> u32 \<Rightarrow> u32 \<Rightarrow> bytes \<Rightarrow> u64 \<Rightarrow> (bool \<times> u32 \<times> bytes \<times> u64) option" where
  "ring32_read buf sz rp wp data max_len =
     (if rp = wp then Some (False, rp, data, 0)
      else do {
        (lenb, read_pos) \<leftarrow> ring32_get buf sz rp (ucast rp + 4) (replicate 4 0) 4;
        let msg_len = (of_le_bytes lenb :: u32);
        if ucast msg_len > max_len then Some (False, rp, data, 0)
        else do {
          (data', read_pos') \<leftarrow>
             ring32_get buf sz read_pos (ucast (read_pos + msg_len)) data (ucast msg_len);
          Some (True, read_pos', data', ucast msg_len)
        }
      })"

definition ring32_write ::
  "bytes \<Rightarrow> u64 \<Rightarrow> u32 \<Rightarrow> u32 \<Rightarrow> bytes \<Rightarrow> u64 \<Rightarrow> (bool \<times> bytes \<times> u32) option" where
  "ring32_write buf sz rp wp data len =
     (if len > sz div 2 then Some (False, buf, wp)
      else let available = (if wp \<ge> rp then sz - ucast (wp - rp) else ucast (rp - wp))
      in if available \<le> len + 4 + 1 then Some (False, buf, wp)
      else do {
        let msg_len = (ucast len :: u32);
        (buf1, wp1) \<leftarrow> ring32_put buf sz wp (le_bytes 4 msg_len) 4;
        (buf2, wp2) \<leftarrow> ring32_put buf1 sz wp1 data len;
        Some (True, buf2, wp2)
      })"

subsection \<open>The fragments are cyclic copies\<close>

text \<open>The four block operations of the wrapping branch, one by one.\<close>

lemma put_wrap_steps:
  assumes "length buf = S" "p < S" "n \<le> S" "n \<le> length src" "S < p + n" and f: "f = S - p"
  shows "mem_read src 0 f = Some (take f src)"
    and "mem_write buf p (take f src) = Some (take p buf @ take f src)"
    and "mem_read src f (n - f) = Some (take (n - f) (drop f src))"
    and "mem_write (take p buf @ take f src) 0 (take (n - f) (drop f src))
         = Some (ring_put buf p (take n src))"
proof -
  have fn: "f \<le> n" "p + f = S" using assms by simp_all
  then have fl: "f \<le> length src" using assms by simp
  show "mem_read src 0 f = Some (take f src)"
    using fl by (simp add: mem_simps)
  have "length (take f src) = f" using fl by simp
  then show "mem_write buf p (take f src) = Some (take p buf @ take f src)"
    using fn assms by (simp add: mem_simps)
  show "mem_read src f (n - f) = Some (take (n - f) (drop f src))"
    using fn assms by (simp add: mem_simps)
  have len: "length (take (n - f) (drop f src)) = n - f"
    using fn assms by simp
  have "ring_put buf p (take n src)
        = take (n - f) (drop f src) @ drop (n - f) (take p buf @ take f src)"
    using ring_put_wrap [of p buf "take n src"] assms fn by (simp add: drop_take min_def)
  then show "mem_write (take p buf @ take f src) 0 (take (n - f) (drop f src))
         = Some (ring_put buf p (take n src))"
    using len fl fn assms by (simp add: mem_write_def)
qed

lemma get_wrap_steps:
  assumes "length buf = S" "p < S" "n \<le> S" "n \<le> length dst" "S < p + n" and f: "f = S - p"
  shows "mem_read buf p f = Some (drop p buf)"
    and "mem_write dst 0 (drop p buf) = Some (drop p buf @ drop f dst)"
    and "mem_read buf 0 (n - f) = Some (take (n - f) buf)"
    and "mem_write (drop p buf @ drop f dst) f (take (n - f) buf)
         = Some (ring_slice buf p n @ drop n dst)"
proof -
  have fn: "f \<le> n" "p + f = S" using assms by simp_all
  show "mem_read buf p f = Some (drop p buf)"
    using fn assms by (simp add: mem_simps)
  have len: "length (drop p buf) = f" using assms by simp
  then show "mem_write dst 0 (drop p buf) = Some (drop p buf @ drop f dst)"
    using fn assms by (simp add: mem_write_def)
  show "mem_read buf 0 (n - f) = Some (take (n - f) buf)"
    using fn assms by (simp add: mem_simps)
  have len2: "length (take (n - f) buf) = n - f" using assms fn by simp
  have "ring_slice buf p n = drop p buf @ take (n - f) buf"
    using ring_slice_wrap [of p buf n] assms by simp
  then show "mem_write (drop p buf @ drop f dst) f (take (n - f) buf)
         = Some (ring_slice buf p n @ drop n dst)"
    using len len2 fn assms by (simp add: mem_write_def)
qed

text \<open>Where the copy ends: the remainder of the second chunk, or the advanced position set back
  to zero when it reaches the capacity.\<close>

lemma cyclic_end64:
  fixes sz pos n :: u64
  assumes "unat sz < 2 ^ 62" "unat pos < unat sz" "unat n \<le> unat sz"
  shows "(pos + n > sz) = (unat pos + unat n > unat sz)"
    and "unat (sz - pos) = unat sz - unat pos"
    and "unat pos + unat n > unat sz \<Longrightarrow>
           unat (n - (sz - pos)) = unat n - (unat sz - unat pos)"
    and "unat pos + unat n > unat sz \<Longrightarrow>
           n - (sz - pos) = word_of_nat ((unat pos + unat n) mod unat sz)"
    and "\<not> unat pos + unat n > unat sz \<Longrightarrow>
           (if pos + n = sz then 0 else pos + n) = word_of_nat ((unat pos + unat n) mod unat sz)"
proof -
  have s: "unat (pos + n) = unat pos + unat n"
    using assms by (simp add: u64_arith)
  then show "(pos + n > sz) = (unat pos + unat n > unat sz)"
    by (simp add: word_order_unat)
  show fc: "unat (sz - pos) = unat sz - unat pos"
    using assms by (simp add: u64_arith)
  show rest: "unat (n - (sz - pos)) = unat n - (unat sz - unat pos)"
    if "unat pos + unat n > unat sz"
    using assms that by (simp add: u64_arith fc)
  show "n - (sz - pos) = word_of_nat ((unat pos + unat n) mod unat sz)"
    if "unat pos + unat n > unat sz"
    using assms that by (auto simp: word_eq_unat rest u64_arith mod_if)
  show "(if pos + n = sz then 0 else pos + n) = word_of_nat ((unat pos + unat n) mod unat sz)"
    if "\<not> unat pos + unat n > unat sz"
    using assms that by (auto simp: word_eq_unat s u64_arith)
qed

lemma ring64_put_eq:
  assumes len: "length buf = unat sz" and sz: "unat sz < 2 ^ 62" and pos: "unat pos < unat sz"
    and n: "unat n \<le> unat sz" "unat n \<le> length src"
  shows "ring64_put buf sz pos src n
         = Some (ring_put buf (unat pos) (take (unat n) src),
                 word_of_nat ((unat pos + unat n) mod unat sz))"
proof (cases "unat pos + unat n > unat sz")
  case True
  note c = cyclic_end64 [OF sz pos n(1)]
  from True show ?thesis
    by (simp add: ring64_put_def c(1-3) c(4) [symmetric] put_wrap_steps [OF len pos n True refl])
next
  case False
  note c = cyclic_end64 [OF sz pos n(1)]
  from False show ?thesis
    using assms
    by (simp add: ring64_put_def c(1) c(5) [symmetric] mem_simps ring_put_straight Let_def)
qed

lemma ring64_get_eq:
  assumes len: "length buf = unat sz" and sz: "unat sz < 2 ^ 62" and pos: "unat pos < unat sz"
    and n: "unat n \<le> unat sz" "unat n \<le> length dst"
  shows "ring64_get buf sz pos dst n
         = Some (ring_slice buf (unat pos) (unat n) @ drop (unat n) dst,
                 word_of_nat ((unat pos + unat n) mod unat sz))"
proof (cases "unat pos + unat n > unat sz")
  case True
  note c = cyclic_end64 [OF sz pos n(1)]
  from True show ?thesis
    by (simp add: ring64_get_def c(1-3) c(4) [symmetric] get_wrap_steps [OF len pos n True refl])
next
  case False
  note c = cyclic_end64 [OF sz pos n(1)]
  from False show ?thesis
    using assms
    by (simp add: ring64_get_def c(1) c(5) [symmetric] mem_simps ring_slice_straight Let_def)
qed

subsection \<open>What a ring holds\<close>

text \<open>
  A message is framed by its four-byte little-endian length; a ring in a well-formed state
  (capacity as allocated, positions inside it) \<open>holds\<close> the messages whose frames fill the used part,
  oldest first. The capacity is bounded by \<open>2 ^ 62\<close>, far above any mapping the kernel grants.
\<close>

definition frame :: "bytes \<Rightarrow> bytes" where
  "frame m = le_bytes 4 (word_of_nat (length m) :: u32) @ m"

definition frames :: "bytes list \<Rightarrow> bytes" where
  "frames ms = concat (map frame ms)"

definition ring_wf :: "bytes \<Rightarrow> u64 \<Rightarrow> u64 \<Rightarrow> u64 \<Rightarrow> bool" where
  "ring_wf buf sz rp wp \<longleftrightarrow>
     length buf = unat sz \<and> unat sz < 2 ^ 62 \<and> unat rp < unat sz \<and> unat wp < unat sz"

definition ring_used :: "u64 \<Rightarrow> u64 \<Rightarrow> u64 \<Rightarrow> nat" where
  "ring_used sz rp wp = cyc_dist (unat sz) (unat rp) (unat wp)"

definition ring_holds :: "bytes \<Rightarrow> u64 \<Rightarrow> u64 \<Rightarrow> u64 \<Rightarrow> bytes list \<Rightarrow> bool" where
  "ring_holds buf sz rp wp ms \<longleftrightarrow>
     ring_wf buf sz rp wp \<and> (\<forall>m \<in> set ms. length m < 2 ^ 32) \<and>
     ring_used sz rp wp = length (frames ms) \<and>
     ring_slice buf (unat rp) (ring_used sz rp wp) = frames ms"

text \<open>The guard of the write: at most half the ring, and more than one byte left free.\<close>

definition ring_fits :: "u64 \<Rightarrow> nat \<Rightarrow> nat \<Rightarrow> bool" where
  "ring_fits sz used n \<longleftrightarrow> n \<le> unat sz div 2 \<and> used + n + 4 + 1 < unat sz"

lemma length_frame [simp]: "length (frame m) = 4 + length m"
  by (simp add: frame_def)

lemma frames_simps [simp]:
  "frames [] = []" "frames (m # ms) = frame m @ frames ms" "frames (ms @ ns) = frames ms @ frames ns"
  by (simp_all add: frames_def)

lemma ring_used_less: "ring_wf buf sz rp wp \<Longrightarrow> ring_used sz rp wp < unat sz"
  by (simp add: ring_wf_def ring_used_def cyc_dist_less)

lemma ring_wp_eq:
  "ring_wf buf sz rp wp \<Longrightarrow> (unat rp + ring_used sz rp wp) mod unat sz = unat wp"
  by (simp add: ring_wf_def ring_used_def cyc_dist_end)

lemma unat_cyc_pos:
  fixes sz :: u64
  assumes "unat sz < 2 ^ 62" "0 < unat sz"
  shows "unat (word_of_nat (n mod unat sz) :: u64) = n mod unat sz"
    and "n mod unat sz < unat sz"
proof -
  show "n mod unat sz < unat sz" using assms by simp
  then have "n mod unat sz < 2 ^ 64"
    using unat_lt_64 [of sz] by (rule order.strict_trans)
  then show "unat (word_of_nat (n mod unat sz) :: u64) = n mod unat sz"
    by (rule unat_of_nat_u64)
qed

lemma ring_used_advance_write:
  assumes "ring_wf buf sz rp wp" and "ring_used sz rp wp + n < unat sz"
  shows "ring_used sz rp (word_of_nat ((unat wp + n) mod unat sz)) = ring_used sz rp wp + n"
  using assms by (simp add: ring_wf_def ring_used_def unat_cyc_pos cyc_dist_forward)

lemma ring_used_advance_read:
  assumes "ring_wf buf sz rp wp" and "n \<le> ring_used sz rp wp"
  shows "ring_used sz (word_of_nat ((unat rp + n) mod unat sz)) wp = ring_used sz rp wp - n"
  using assms by (simp add: ring_wf_def ring_used_def unat_cyc_pos cyc_dist_shrink)

lemma le_bytes_8_4: "take 4 (le_bytes 8 (w :: u64)) = le_bytes 4 (ucast w :: u32)"
proof -
  have "take 4 (le_bytes 8 w) = le_bytes 4 w"
    by (simp add: le_bytes_def take_map)
  then show ?thesis by (simp add: le_bytes_ucast32)
qed

lemma available_eq:
  assumes "ring_wf buf sz rp wp"
  shows "unat (if wp \<ge> rp then sz - (wp - rp) else rp - wp) = unat sz - ring_used sz rp wp"
  using assms by (auto simp: ring_wf_def ring_used_def cyc_dist_def u64_arith word_order_unat)

text \<open>The write as a whole: the guard, then the frame of the first \<open>len\<close> bytes of \<open>data\<close> at
  \<open>write_pos\<close>.\<close>

lemma ring64_write_eq:
  assumes wf: "ring_wf buf sz rp wp" and len: "unat len \<le> length data"
  shows "ring64_write buf sz rp wp data len =
     (if ring_fits sz (ring_used sz rp wp) (unat len)
      then Some (True, ring_put buf (unat wp) (frame (take (unat len) data)),
                 word_of_nat ((unat wp + (4 + unat len)) mod unat sz))
      else Some (False, buf, wp))"
proof -
  let ?av = "if wp \<ge> rp then sz - (wp - rp) else rp - wp"
  have S: "length buf = unat sz" "unat sz < 2 ^ 62" "unat wp < unat sz"
    using wf by (auto simp: ring_wf_def)
  have half: "(len > sz div 2) = (unat len > unat sz div 2)"
    by (simp add: word_order_unat u64_arith)
  show ?thesis
  proof (cases "unat len > unat sz div 2")
    case True
    then show ?thesis by (simp add: ring64_write_def half ring_fits_def)
  next
    case False
    have sum: "unat (len + 4 + 1) = unat len + 4 + 1"
      using False S(2) by (simp add: u64_arith)
    have full: "(?av \<le> len + 4 + 1) = (unat sz - ring_used sz rp wp \<le> unat len + 4 + 1)"
      by (subst word_le_nat_alt) (simp only: available_eq [OF wf] sum)
    have w: "ring64_write buf sz rp wp data len =
        (if unat len > unat sz div 2 then Some (False, buf, wp)
         else if unat sz - ring_used sz rp wp \<le> unat len + 4 + 1 then Some (False, buf, wp)
         else do {
           (buf1, wp1) \<leftarrow> ring64_put buf sz wp (le_bytes 8 len) 4;
           (buf2, wp2) \<leftarrow> ring64_put buf1 sz wp1 data len;
           Some (True, buf2, wp2)
         })"
      unfolding ring64_write_def Let_def half full ..
    show ?thesis
    proof (cases "unat sz - ring_used sz rp wp \<le> unat len + 4 + 1")
      case True
      then have "\<not> ring_fits sz (ring_used sz rp wp) (unat len)"
        by (auto simp: ring_fits_def)
      with True show ?thesis by (simp add: w)
    next
      case fits: False
      have fit: "ring_fits sz (ring_used sz rp wp) (unat len)"
        using fits False by (simp add: ring_fits_def)
      let ?lenb = "le_bytes 4 (ucast len :: u32)"
      let ?wp1 = "word_of_nat ((unat wp + 4) mod unat sz) :: u64"
      have wp1: "unat ?wp1 = (unat wp + 4) mod unat sz" "unat ?wp1 < unat sz"
        using S by (simp_all add: unat_cyc_pos)
      have len32: "(word_of_nat (unat len) :: u32) = ucast len"
        by simp
      have put1: "ring64_put buf sz wp (le_bytes 8 len) 4
            = Some (ring_put buf (unat wp) ?lenb, ?wp1)"
        using fit S by (subst ring64_put_eq) (simp_all add: le_bytes_8_4 ring_fits_def)
      have put2: "ring64_put (ring_put buf (unat wp) ?lenb) sz ?wp1 data len
            = Some (ring_put (ring_put buf (unat wp) ?lenb) (unat ?wp1) (take (unat len) data),
                    word_of_nat ((unat ?wp1 + unat len) mod unat sz))"
        using fit S len wp1(2) by (intro ring64_put_eq) (simp_all add: ring_fits_def)
      have room: "length ?lenb + length (take (unat len) data) \<le> length buf"
        using fit len by (simp add: S ring_fits_def)
      have "ring_put (ring_put buf (unat wp) ?lenb)
              ((unat wp + length ?lenb) mod length buf) (take (unat len) data)
            = ring_put buf (unat wp) (?lenb @ take (unat len) data)"
        by (rule ring_put_append [OF _ room]) (simp add: S)
      then have "ring_put (ring_put buf (unat wp) ?lenb) (unat ?wp1) (take (unat len) data)
            = ring_put buf (unat wp) (?lenb @ take (unat len) data)"
        by (simp only: wp1(1) S(1) length_le_bytes)
      moreover have "(unat ?wp1 + unat len) mod unat sz = (unat wp + (4 + unat len)) mod unat sz"
        unfolding wp1(1) by (simp add: mod_add_left_eq add.assoc)
      moreover have "?lenb @ take (unat len) data = frame (take (unat len) data)"
        using len by (simp add: frame_def min_def len32)
      ultimately show ?thesis
        using fits False fit by (simp add: w put1 put2)
    qed
  qed
qed

text \<open>The read as a whole, for whatever the four length bytes say. The caller's block is the length
  of at least \<open>max_len\<close>, and \<open>max_len\<close> at most the capacity.\<close>

definition ring_len :: "bytes \<Rightarrow> nat \<Rightarrow> nat" where
  "ring_len buf rp = unat (of_le_bytes (ring_slice buf rp 4) :: u32)"

lemma ring64_read_eq:
  assumes wf: "ring_wf buf sz rp wp" and ne: "rp \<noteq> wp" and sz: "4 \<le> unat sz"
    and n: "n = ring_len buf (unat rp)"
    and max: "n \<le> unat max_len \<Longrightarrow> n \<le> unat sz \<and> n \<le> length data"
  shows "ring64_read buf sz rp wp data max_len =
     (if n > unat max_len then Some (False, rp, data, 0)
      else Some (True, word_of_nat ((unat rp + (4 + n)) mod unat sz),
                 ring_slice buf ((unat rp + 4) mod unat sz) n @ drop n data, word_of_nat n))"
proof -
  have S: "length buf = unat sz" "unat sz < 2 ^ 62" "unat rp < unat sz"
    using wf by (auto simp: ring_wf_def)
  let ?lenb = "ring_slice buf (unat rp) 4"
  let ?rp1 = "word_of_nat ((unat rp + 4) mod unat sz) :: u64"
  let ?len = "of_le_bytes ?lenb :: u32"
  have rp1: "unat ?rp1 = (unat rp + 4) mod unat sz" "unat ?rp1 < unat sz"
    using S by (simp_all add: unat_cyc_pos)
  have get1: "ring64_get buf sz rp (replicate 4 0) 4 = Some (?lenb, ?rp1)"
    using S sz by (subst ring64_get_eq) simp_all
  have un: "unat (ucast ?len :: u64) = n"
    by (simp add: n ring_len_def)
  have gt: "(ucast ?len > max_len) = (n > unat max_len)"
    by (simp only: word_less_nat_alt un)
  have wn: "(ucast ?len :: u64) = word_of_nat n"
    using un by (simp add: word_eq_unat unat_of_nat_u64 n ring_len_def unat_lt_32_64)
  have get2: "ring64_get buf sz ?rp1 data (ucast ?len)
        = Some (ring_slice buf (unat ?rp1) n @ drop n data,
                word_of_nat ((unat ?rp1 + n) mod unat sz))" if "n \<le> unat max_len"
    using S rp1(2) max [OF that] un by (subst ring64_get_eq) simp_all
  have pos: "((unat rp + 4) mod unat sz + n) mod unat sz = (unat rp + (4 + n)) mod unat sz"
    by (simp add: mod_add_left_eq add.assoc)
  have r: "ring64_read buf sz rp wp data max_len =
      (if n > unat max_len then Some (False, rp, data, 0)
       else ring64_get buf sz ?rp1 data (ucast ?len) \<bind>
            (\<lambda>(data', read_pos'). Some (True, read_pos', data', ucast ?len)))"
    using ne gt by (simp add: ring64_read_def get1 Let_def)
  show ?thesis
  proof (cases "n > unat max_len")
    case True
    then show ?thesis by (simp add: r)
  next
    case False
    have "ring64_get buf sz ?rp1 data (ucast ?len)
        = Some (ring_slice buf ((unat rp + 4) mod unat sz) n @ drop n data,
                word_of_nat ((unat rp + (4 + n)) mod unat sz))"
      using get2 False by (simp only: rp1(1) pos not_less)
    then show ?thesis using False by (simp add: r wn)
  qed
qed

text \<open>The laws of the message queue: what a write and a read do to the messages held.\<close>

lemma ring_holds_wf: "ring_holds buf sz rp wp ms \<Longrightarrow> ring_wf buf sz rp wp"
  by (simp add: ring_holds_def)

lemma ring_holds_used: "ring_holds buf sz rp wp ms \<Longrightarrow> ring_used sz rp wp = length (frames ms)"
  by (simp add: ring_holds_def)

lemma ring_used_0_iff:
  "ring_wf buf sz rp wp \<Longrightarrow> ring_used sz rp wp = 0 \<longleftrightarrow> rp = wp"
  by (auto simp: ring_wf_def ring_used_def cyc_dist_def word_eq_unat split: if_splits)

lemma ring_holds_Nil_iff:
  assumes "ring_holds buf sz rp wp ms" shows "ms = [] \<longleftrightarrow> rp = wp"
proof -
  have "ms = [] \<longleftrightarrow> length (frames ms) = 0"
    by (cases ms) simp_all
  then show ?thesis
    using ring_used_0_iff [OF ring_holds_wf [OF assms]] ring_holds_used [OF assms] by simp
qed

lemma ring_holds_empty: "ring_wf buf sz rp rp \<Longrightarrow> ring_holds buf sz rp rp []"
  by (simp add: ring_holds_def ring_used_def cyc_dist_def)

lemma ring_holds_put:
  assumes h: "ring_holds buf sz rp wp ms" and fit: "ring_fits sz (length (frames ms)) (length m)"
    and m: "length m < 2 ^ 32"
  shows "ring_holds (ring_put buf (unat wp) (frame m)) sz rp
           (word_of_nat ((unat wp + (4 + length m)) mod unat sz)) (ms @ [m])"
proof -
  note wf = ring_holds_wf [OF h]
  have S: "length buf = unat sz" "unat sz < 2 ^ 62" "unat rp < unat sz" "unat wp < unat sz"
    using wf by (auto simp: ring_wf_def)
  have used: "ring_used sz rp wp = length (frames ms)"
    and sl: "ring_slice buf (unat rp) (length (frames ms)) = frames ms"
    using h by (auto simp: ring_holds_def)
  have room: "ring_used sz rp wp + (4 + length m) < unat sz"
    using fit by (simp add: ring_fits_def used)
  have wp: "unat wp = (unat rp + length (frames ms)) mod length buf"
    using ring_wp_eq [OF wf] by (simp add: S used)
  have "ring_slice (ring_put buf (unat wp) (frame m)) (unat rp) (length (frames ms) + length (frame m))
        = frames ms @ frame m"
    unfolding wp using S room by (subst ring_slice_put_extend) (simp_all add: used sl)
  then show ?thesis
    using h m S ring_used_advance_write [OF wf room]
    by (simp add: ring_holds_def ring_wf_def used unat_cyc_pos)
qed

lemma frame_len: "length m < 2 ^ 32 \<Longrightarrow> unat (of_le_bytes (take 4 (frame m)) :: u32) = length m"
  by (simp add: frame_def unat_of_nat_u32)

lemma ring_holds_get:
  assumes h: "ring_holds buf sz rp wp (m # ms)"
  shows "ring_len buf (unat rp) = length m"
    and "ring_slice buf ((unat rp + 4) mod unat sz) (length m) = m"
    and "ring_holds buf sz (word_of_nat ((unat rp + (4 + length m)) mod unat sz)) wp ms"
    and "4 + length m < unat sz"
proof -
  note wf = ring_holds_wf [OF h]
  have S: "length buf = unat sz" "unat sz < 2 ^ 62" "unat rp < unat sz" "unat wp < unat sz"
    using wf by (auto simp: ring_wf_def)
  have used: "ring_used sz rp wp = 4 + length m + length (frames ms)"
    and m: "length m < 2 ^ 32"
    and sl: "ring_slice buf (unat rp) (4 + length m + length (frames ms)) = frame m @ frames ms"
    using h by (auto simp: ring_holds_def)
  have parts: "ring_slice buf (unat rp) 4 @ ring_slice buf ((unat rp + 4) mod unat sz) (length m)
        @ ring_slice buf ((unat rp + (4 + length m)) mod unat sz) (length (frames ms))
        = le_bytes 4 (word_of_nat (length m) :: u32) @ m @ frames ms"
    using sl by (simp add: ring_slice_append S frame_def mod_simps add.assoc)
  then have p4: "ring_slice buf (unat rp) 4 = le_bytes 4 (word_of_nat (length m) :: u32)"
    and rest: "ring_slice buf ((unat rp + 4) mod unat sz) (length m)
        @ ring_slice buf ((unat rp + (4 + length m)) mod unat sz) (length (frames ms))
        = m @ frames ms"
    by (metis append_eq_append_conv length_le_bytes length_ring_slice)+
  show "ring_len buf (unat rp) = length m"
    using m by (simp add: ring_len_def p4 unat_of_nat_u32)
  from rest show "ring_slice buf ((unat rp + 4) mod unat sz) (length m) = m"
    by (metis append_eq_append_conv length_ring_slice)
  from rest have "ring_slice buf ((unat rp + (4 + length m)) mod unat sz) (length (frames ms))
        = frames ms"
    by (metis append_eq_append_conv length_ring_slice)
  then show "ring_holds buf sz (word_of_nat ((unat rp + (4 + length m)) mod unat sz)) wp ms"
    using h S ring_used_advance_read [OF wf, of "4 + length m"]
    by (simp add: ring_holds_def ring_wf_def used unat_cyc_pos)
  show "4 + length m < unat sz"
    using ring_used_less [OF wf] by (simp add: used)
qed

lemma ring64_write_ok:
  assumes h: "ring_holds buf sz rp wp ms" and fit: "ring_fits sz (ring_used sz rp wp) (unat len)"
    and len: "unat len \<le> length data" "unat len < 2 ^ 32"
  shows "\<exists>buf' wp'. ring64_write buf sz rp wp data len = Some (True, buf', wp') \<and>
           ring_holds buf' sz rp wp' (ms @ [take (unat len) data])"
  using ring64_write_eq [OF ring_holds_wf [OF h] len(1)] fit len
    ring_holds_put [OF h, of "take (unat len) data"] ring_holds_used [OF h]
  by simp

lemma ring64_write_full:
  assumes "ring_holds buf sz rp wp ms" "\<not> ring_fits sz (ring_used sz rp wp) (unat len)"
    and "unat len \<le> length data"
  shows "ring64_write buf sz rp wp data len = Some (False, buf, wp)"
  using ring64_write_eq [OF ring_holds_wf [OF assms(1)] assms(3)] assms(2) by simp

lemma ring64_read_empty:
  assumes "ring_holds buf sz rp wp []"
  shows "ring64_read buf sz rp wp data max_len = Some (False, rp, data, 0)"
  using ring_holds_Nil_iff [OF assms] by (simp add: ring64_read_def)

lemma ring64_read_cons:
  assumes h: "ring_holds buf sz rp wp (m # ms)"
    and fit: "length m \<le> unat max_len \<Longrightarrow> length m \<le> length data"
  shows "ring64_read buf sz rp wp data max_len =
     (if unat max_len < length m then Some (False, rp, data, 0)
      else Some (True, word_of_nat ((unat rp + (4 + length m)) mod unat sz),
                 m @ drop (length m) data, word_of_nat (length m)))"
proof -
  note g = ring_holds_get [OF h]
  have "rp \<noteq> wp" using ring_holds_Nil_iff [OF h] by simp
  then show ?thesis
    using ring64_read_eq [OF ring_holds_wf [OF h], of "length m" max_len data] g fit by simp
qed

lemma ring64_read_ok:
  assumes h: "ring_holds buf sz rp wp (m # ms)"
    and "length m \<le> unat max_len" "length m \<le> length data"
  shows "\<exists>rp'. ring64_read buf sz rp wp data max_len
             = Some (True, rp', m @ drop (length m) data, word_of_nat (length m)) \<and>
           ring_holds buf sz rp' wp ms"
  using ring64_read_cons [OF h] ring_holds_get(3) [OF h] assms by simp

lemma ring64_read_big:
  assumes "ring_holds buf sz rp wp (m # ms)" "unat max_len < length m"
  shows "ring64_read buf sz rp wp data max_len = Some (False, rp, data, 0)"
  using ring64_read_cons [OF assms(1)] assms(2) by simp

text \<open>Memory safety needs less than a well-framed content: only positions inside the buffer. Even
  when the length field is arbitrary bytes, a read whose limit fits the buffer and the caller's
  block stays inside both.\<close>

lemma ring_wf_pos:
  assumes "ring_wf buf sz rp wp" and "length buf' = length buf"
  shows "ring_wf buf' sz rp (word_of_nat (n mod unat sz))"
    and "ring_wf buf' sz (word_of_nat (n mod unat sz)) wp"
  using assms by (auto simp: ring_wf_def unat_cyc_pos)

lemma ring64_read_safe:
  assumes wf: "ring_wf buf sz rp wp" and "4 \<le> unat sz" "unat max_len \<le> unat sz"
    and "unat max_len \<le> length data"
  shows "\<exists>ok rp' data' n. ring64_read buf sz rp wp data max_len = Some (ok, rp', data', n) \<and>
           ring_wf buf sz rp' wp \<and> length data' = length data \<and> unat n \<le> unat max_len"
proof (cases "rp = wp")
  case True
  then have "ring64_read buf sz rp wp data max_len = Some (False, rp, data, 0)"
    by (simp add: ring64_read_def)
  then show ?thesis using wf by auto
next
  case False
  have lt: "ring_len buf (unat rp) < 2 ^ 64"
    using unat_lt_32_64 by (simp only: ring_len_def)
  show ?thesis
    using ring64_read_eq [OF wf False assms(2) refl, of max_len data] assms lt
    by (auto simp: ring_wf_pos [OF wf] unat_of_nat_u64)
qed

lemma ring64_write_safe:
  assumes "ring_wf buf sz rp wp" "unat len \<le> length data"
  shows "\<exists>ok buf' wp'. ring64_write buf sz rp wp data len = Some (ok, buf', wp') \<and>
           ring_wf buf' sz rp wp'"
  using ring64_write_eq [OF assms] assms(1) by (auto simp: ring_wf_pos(1) [OF assms(1)])

subsection \<open>The 32-bit positions compute the same\<close>

text \<open>On a ring of fewer than \<open>2 ^ 32\<close> bytes no position is truncated: the fragments with 32-bit
  positions are those with 64-bit positions.\<close>

lemma ucast_64_32_64:
  "unat (w :: u64) < 2 ^ 32 \<Longrightarrow> ucast (ucast w :: u32) = w"
  by (simp add: word_eq_unat u64_arith)

lemma ucast_32_64_32 [simp]: "(ucast (ucast (w :: u32) :: u64) :: u32) = w"
  unfolding word_eq_unat using unat_lt_32 [of w] by (subst unat_ucast_64_32) simp_all

lemma ring32_put_eq64:
  assumes "unat sz < 2 ^ 32"
  shows "ring32_put buf sz pos src n = map_option (apsnd ucast) (ring64_put buf sz (ucast pos) src n)"
proof (cases "ucast pos + n > sz")
  case True
  then show ?thesis
    by (simp add: ring32_put_def ring64_put_def Let_def map_option_bind comp_def)
next
  case False
  then have "unat (ucast pos + n) < 2 ^ 32"
    using assms by (simp add: word_order_unat)
  then have "(ucast (ucast (ucast pos + n :: u64) :: u32) :: u64) = ucast pos + n"
    by (rule ucast_64_32_64)
  then show ?thesis
    using False by (simp add: ring32_put_def ring64_put_def Let_def map_option_bind comp_def)
qed

lemma ring32_get_eq64:
  assumes "unat sz < 2 ^ 32" and e: "endp = ucast pos + n"
  shows "ring32_get buf sz pos endp dst n
         = map_option (apsnd ucast) (ring64_get buf sz (ucast pos) dst n)"
proof (cases "ucast pos + n > sz")
  case True
  then show ?thesis
    by (simp add: e ring32_get_def ring64_get_def Let_def map_option_bind comp_def)
next
  case False
  then have "unat (ucast pos + n) < 2 ^ 32"
    using assms by (simp add: word_order_unat)
  then have "(ucast (ucast (ucast pos + n :: u64) :: u32) :: u64) = ucast pos + n"
    by (rule ucast_64_32_64)
  then show ?thesis
    using False by (simp add: e ring32_get_def ring64_get_def Let_def map_option_bind comp_def)
qed

lemma ring32_write_eq64:
  assumes wf: "ring_wf buf sz (ucast rp) (ucast wp)" and sz: "unat sz < 2 ^ 32"
    and len: "unat len \<le> length data"
  shows "ring32_write buf sz rp wp data len =
     map_option (apsnd (apsnd ucast)) (ring64_write buf sz (ucast rp) (ucast wp) data len)"
proof -
  have S: "length buf = unat sz" "unat rp < unat sz" "unat wp < unat sz"
    using wf by (auto simp: ring_wf_def)
  have av: "(if wp \<ge> rp then sz - ucast (wp - rp) else ucast (rp - wp))
      = (if (ucast wp :: u64) \<ge> ucast rp then sz - (ucast wp - ucast rp) else ucast rp - ucast wp)"
    using S by (auto simp: word_order_unat u64_arith)
  show ?thesis
  proof (cases "len > sz div 2 \<or>
      (if wp \<ge> rp then sz - ucast (wp - rp) else ucast (rp - wp)) \<le> len + 4 + 1")
    case True
    then show ?thesis
      unfolding ring32_write_def ring64_write_def Let_def av by auto
  next
    case False
    then have half: "unat len \<le> unat sz div 2"
      by (simp add: word_order_unat u64_arith)
    then have sum: "unat (len + 4 + 1) = unat len + 4 + 1"
      using sz by (simp add: u64_arith)
    have "unat (if (ucast wp :: u64) \<ge> ucast rp then sz - (ucast wp - ucast rp)
        else ucast rp - ucast wp) > unat len + 4 + 1"
      using False unfolding av by (simp only: word_le_nat_alt sum not_le de_Morgan_disj)
    then have s4: "4 \<le> unat sz"
      unfolding available_eq [OF wf] by simp
    then obtain b1 w1 where
        p64: "ring64_put buf sz (ucast wp) (le_bytes 8 len) 4 = Some (b1, w1)"
      and p4: "ring64_put buf sz (ucast wp) (le_bytes 4 (ucast len :: u32)) 4 = Some (b1, w1)"
      and w1: "unat w1 < unat sz"
      using S sz by (simp add: ring64_put_eq le_bytes_8_4 unat_cyc_pos)
    have "(ucast (ucast w1 :: u32) :: u64) = w1"
      using w1 sz by (intro ucast_64_32_64) simp
    then show ?thesis
      using False unfolding ring32_write_def ring64_write_def Let_def av
      by (simp add: ring32_put_eq64 [OF sz] p64 p4 map_option_bind bind_map_option comp_def
          split_def)
  qed
qed

lemma ring32_read_eq64:
  assumes wf: "ring_wf buf sz (ucast rp) (ucast wp)" and s4: "4 \<le> unat sz"
    and sz: "unat sz \<le> 2 ^ 31"
    and max: "ring_len buf (unat rp) \<le> unat max_len \<Longrightarrow> ring_len buf (unat rp) \<le> unat sz"
  shows "ring32_read buf sz rp wp data max_len =
     map_option (apsnd (apfst ucast)) (ring64_read buf sz (ucast rp) (ucast wp) data max_len)"
proof -
  have S: "length buf = unat sz" "unat rp < unat sz" "unat wp < unat sz" "unat sz < 2 ^ 32"
    using wf sz by (auto simp: ring_wf_def)
  obtain lenb w1 where
      g: "ring64_get buf sz (ucast rp) (replicate 4 0) 4 = Some (lenb, w1)"
    and w1: "unat w1 < unat sz" and lenb: "lenb = ring_slice buf (unat rp) 4"
    using S s4 by (simp add: ring64_get_eq unat_cyc_pos)
  let ?n = "of_le_bytes lenb :: u32"
  have r: "(ucast (ucast w1 :: u32) :: u64) = w1"
    using w1 S by (simp add: ucast_64_32_64)
  have eq: "(ucast rp = (ucast wp :: u64)) = (rp = wp)"
    by (simp add: word_eq_unat)
  have "(ucast (ucast w1 + ?n) :: u64) = w1 + ucast ?n" if "\<not> ucast ?n > max_len"
  proof -
    have "unat ?n \<le> unat max_len"
      using that by (simp add: word_order_unat)
    then have n: "unat ?n \<le> unat sz"
      using max by (simp add: lenb ring_len_def)
    have "unat (ucast w1 :: u32) = unat w1"
      using w1 S by (simp add: u64_arith)
    then show ?thesis
      using n w1 sz by (simp add: word_eq_unat u64_arith)
  qed
  then show ?thesis
    by (auto simp: ring32_read_def ring64_read_def ring32_get_eq64 [OF S(4)] g r eq Let_def
        map_option_bind bind_map_option comp_def split_def)
qed

subsection \<open>Properties\<close>

text \<open>C7: memory safety of the read, whatever bytes the ring holds: with positions inside the buffer and
  a limit that fits the ring and the caller's block, no copy leaves either block, the positions stay
  inside, and at most \<open>max_len\<close> bytes are reported.\<close>

theorem ring64_read_memory_safe:
  assumes "ring_wf buf sz rp wp" "4 \<le> unat sz" "unat max_len \<le> unat sz" "unat max_len \<le> length data"
  shows "\<exists>ok rp' data' n. ring64_read buf sz rp wp data max_len = Some (ok, rp', data', n) \<and>
           ring_wf buf sz rp' wp \<and> length data' = length data \<and> unat n \<le> unat max_len"
  by (rule ring64_read_safe [OF assms])

theorem ring64_read_memory_safe_witness:
  "\<exists>ok rp' data' n. ring64_read (replicate 8 255) 8 3 5 (replicate 8 0) 8 = Some (ok, rp', data', n) \<and> unat n \<le> 8"
  using ring64_read_memory_safe [of "replicate 8 255" 8 3 5 8 "replicate 8 0"] by (auto simp: ring_wf_def)

text \<open>C8: the guard of the write. A write succeeds exactly when the message is at most half the ring
  and more than one byte stays free; a refused write changes nothing, a successful one keeps the
  ring well formed, and no write leaves the blocks.\<close>

theorem ring64_write_guard:
  assumes "ring_wf buf sz rp wp" "unat len \<le> length data"
  shows "if unat len \<le> unat sz div 2 \<and> ring_used sz rp wp + unat len + 4 + 1 < unat sz
    then \<exists>buf' wp'. ring64_write buf sz rp wp data len = Some (True, buf', wp') \<and>
           ring_wf buf' sz rp wp' \<and> ring_used sz rp wp' = ring_used sz rp wp + 4 + unat len
    else ring64_write buf sz rp wp data len = Some (False, buf, wp)"
  using ring64_write_eq [OF assms] ring_wf_pos(1) [OF assms(1)] assms(1)
    ring_used_advance_write [OF assms(1), of "4 + unat len"]
  by (auto simp: ring_fits_def)

theorem ring64_write_guard_witness:
  "ring64_write (replicate 8 0) 8 5 5 [7, 7] 2 \<noteq> Some (False, replicate 8 0, 5) \<and>
   ring64_write (replicate 8 0) 8 5 5 [7, 7, 7] 3 = Some (False, replicate 8 0, 5)"
  using ring64_write_guard [of "replicate 8 0" 8 5 5 2 "[7, 7]"]
    ring64_write_guard [of "replicate 8 0" 8 5 5 3 "[7, 7, 7]"]
  by (auto simp: ring_wf_def ring_used_def cyc_dist_def)

text \<open>C6: the ring with 32-bit positions computes what the ring with 64-bit positions computes, up to
  \<open>2 ^ 31\<close> bytes of capacity: no position, no length and no sum of them is truncated.\<close>

theorem ring32_matches_ring64:
  assumes wf: "ring_wf buf sz (ucast rp) (ucast wp)" and sz: "4 \<le> unat sz" "unat sz \<le> 2 ^ 31"
    and "unat len \<le> length src" and "unat max_len \<le> unat sz"
  shows "ring32_write buf sz rp wp src len =
      map_option (apsnd (apsnd ucast)) (ring64_write buf sz (ucast rp) (ucast wp) src len) \<and>
    ring32_read buf sz rp wp dst max_len =
      map_option (apsnd (apfst ucast)) (ring64_read buf sz (ucast rp) (ucast wp) dst max_len)"
  using assms by (auto intro!: ring32_write_eq64 ring32_read_eq64 [OF wf sz] elim: order_trans)

theorem ring32_matches_ring64_witness:
  "ring32_write (replicate 8 0) 8 6 6 [1, 2] 2 =
     map_option (apsnd (apsnd ucast)) (ring64_write (replicate 8 0) 8 6 6 [1, 2] 2)"
  using ring32_matches_ring64 [of "replicate 8 0" 8 6 6 2 "[1, 2]" 8] by (simp add: ring_wf_def)

end
