(* ===== verification/Messages.thy ===== *)
theory Messages
  imports IPC_Prelude
begin

section \<open>Messages: layout, checksum, validation, generation (benchmark.h, benchmark.c)\<close>

text \<open>
  A message lives in a block of memory (the \<open>MAX_MSG_SIZE\<close> bytes the handlers \<open>malloc\<close>); its
  fields are read and written at the offsets the x86-64 ABI gives \<open>Message\<close>. The checksum is the
  rotate-and-add loop of \<open>calculate_checksum\<close>; \<open>rand()\<close> and \<open>get_timestamp_us()\<close> are values the
  environment supplies.
\<close>

subsection \<open>Constants and layout\<close>

definition MAX_MSG_SIZE :: u64 where "MAX_MSG_SIZE = 128 * 1024"
definition BUFFER_SIZE :: u64 where "BUFFER_SIZE = 4 * 1024 * 1024"
definition RUN_DURATION :: int where "RUN_DURATION = 10"
definition MAX_LATENCIES :: nat where "MAX_LATENCIES = 1000000"
definition MAGIC_START :: u32 where "MAGIC_START = 0xDEADBEEF"
definition MAGIC_END :: u32 where "MAGIC_END = 0xCAFEBABE"

text \<open>The System V layout of a struct whose fields have the given sizes and alignments: each field
  at the next multiple of its alignment, the whole rounded up to the strictest one.\<close>

definition round_up :: "nat \<Rightarrow> nat \<Rightarrow> nat" where
  "round_up n a = (n + a - 1) div a * a"

fun struct_layout :: "(nat \<times> nat) list \<Rightarrow> nat \<Rightarrow> nat \<Rightarrow> nat list \<times> nat" where
  "struct_layout [] off al = ([], round_up off al)"
| "struct_layout ((sz, a) # fs) off al =
     (let at = round_up off a; (ats, total) = struct_layout fs (at + sz) (max al a)
      in (at # ats, total))"

text \<open>\<open>magic_start\<close>, \<open>size\<close>, \<open>seq\<close>, \<open>timestamp\<close>, \<open>checksum\<close> and the flexible array \<open>data[0]\<close>.\<close>

definition Message_fields :: "(nat \<times> nat) list" where
  "Message_fields = [(4, 4), (4, 4), (4, 4), (8, 8), (4, 4), (0, 1)]"

abbreviation (input) off_magic_start :: nat where "off_magic_start \<equiv> 0"
abbreviation (input) off_size :: nat where "off_size \<equiv> 4"
abbreviation (input) off_seq :: nat where "off_seq \<equiv> 8"
abbreviation (input) off_timestamp :: nat where "off_timestamp \<equiv> 16"
abbreviation (input) off_checksum :: nat where "off_checksum \<equiv> 24"
abbreviation (input) off_data :: nat where "off_data \<equiv> 28"
abbreviation (input) sizeof_Message :: u64 where "sizeof_Message \<equiv> 32"

lemma Message_layout:
  "struct_layout Message_fields 0 1 =
     ([off_magic_start, off_size, off_seq, off_timestamp, off_checksum, off_data],
      unat sizeof_Message)"
  by (simp add: Message_fields_def round_up_def)

subsection \<open>The checksum\<close>

definition checksum_step :: "u32 \<Rightarrow> u8 \<Rightarrow> u32" where
  "checksum_step s b = (push_bit 1 s OR drop_bit 31 s) + ucast b"

fun checksum_loop :: "u32 \<Rightarrow> bytes \<Rightarrow> u32" where
  "checksum_loop s [] = s"
| "checksum_loop s (b # bs) = checksum_loop (checksum_step s b) bs"

definition calculate_checksum :: "bytes \<Rightarrow> nat \<Rightarrow> u64 \<Rightarrow> u32 option" where
  "calculate_checksum blk off len = map_option (checksum_loop 0) (mem_read blk off (unat len))"

subsection \<open>Validation\<close>

text \<open>The payload length \<open>total_size - sizeof(Message) - sizeof(uint32_t)\<close> is computed in \<open>size_t\<close> and
  wraps when \<open>total_size\<close> is below 36; the read of \<open>magic_end\<close> then leaves the block.\<close>

definition validate_message :: "bytes \<Rightarrow> u64 \<Rightarrow> bool option" where
  "validate_message msg total_size = do {
     magic_start \<leftarrow> load32 msg off_magic_start;
     if magic_start \<noteq> MAGIC_START then Some False else do {
       sz \<leftarrow> load32 msg off_size;
       if ucast sz \<noteq> total_size then Some False else do {
         let len = total_size - sizeof_Message - 4;
         magic_end \<leftarrow> load32 msg (off_data + unat len);
         if magic_end \<noteq> MAGIC_END then Some False else do {
           calc_checksum \<leftarrow> calculate_checksum msg off_data len;
           checksum \<leftarrow> load32 msg off_checksum;
           Some (calc_checksum = checksum)
         }
       }
     }
   }"

subsection \<open>Generation\<close>

text \<open>The payload bytes: bits 16 to 23 of a linear congruential generator seeded with \<open>seq\<close>.\<close>

definition lcg_next :: "u32 \<Rightarrow> u32" where
  "lcg_next s = s * 1103515245 + 12345"

fun lcg_bytes :: "u32 \<Rightarrow> nat \<Rightarrow> bytes" where
  "lcg_bytes s 0 = []"
| "lcg_bytes s (Suc n) =
     (let s' = lcg_next s in ucast (drop_bit 16 s' AND 0xFF) # lcg_bytes s' n)"

text \<open>\<open>rnd\<close> is the value of \<open>rand()\<close>, \<open>now\<close> that of \<open>get_timestamp_us()\<close>. A negative payload size makes
  the checksum loop run over \<open>2 ^ 64\<close> bytes less its size: out of the block.\<close>

definition payload_size :: "int \<Rightarrow> int \<Rightarrow> int \<Rightarrow> int" where
  "payload_size rnd min_size max_size =
     (let range = max_size - min_size
      in if range > 0 then min_size + rnd mod range else min_size)"

definition random_message :: "int \<Rightarrow> u64 \<Rightarrow> bytes \<Rightarrow> int \<Rightarrow> int \<Rightarrow> bytes option" where
  "random_message rnd now msg min_size max_size = do {
     let payload = payload_size rnd min_size max_size;
     let plen = (word_of_int payload :: u64);
     msg1 \<leftarrow> store32 msg off_magic_start MAGIC_START;
     msg2 \<leftarrow> store32 msg1 off_size (ucast (sizeof_Message + plen + 4));
     seq0 \<leftarrow> load32 msg2 off_seq;
     msg3 \<leftarrow> store32 msg2 off_seq (seq0 + 1);
     msg4 \<leftarrow> store64 msg3 off_timestamp now;
     rand_state \<leftarrow> load32 msg4 off_seq;
     msg5 \<leftarrow> mem_write msg4 off_data (lcg_bytes rand_state (nat payload));
     csum \<leftarrow> calculate_checksum msg5 off_data plen;
     msg6 \<leftarrow> store32 msg5 off_checksum csum;
     store32 msg6 (off_data + nat payload) MAGIC_END
   }"

subsection \<open>The checksum detects a changed byte\<close>

lemma rotate_inj:
  assumes "push_bit 1 a OR drop_bit 31 a = push_bit 1 b OR drop_bit 31 (b :: u32)"
  shows "a = b"
proof (rule bit_word_eqI)
  fix k assume k: "k < LENGTH(32)"
  have rot: "bit (push_bit 1 s OR drop_bit 31 s) (if k = 31 then 0 else Suc k) = bit s k"
    for s :: u32
    using k bit_imp_le_length [of s "Suc k + 31"]
    unfolding bit_or_iff bit_push_bit_iff bit_drop_bit_eq by auto
  show "bit a k \<longleftrightarrow> bit b k"
    using rot [of a] rot [of b] assms by simp
qed

lemma ucast_u8_u32_inj: "(ucast (a :: u8) :: u32) = ucast b \<Longrightarrow> a = b"
proof (rule bit_word_eqI)
  fix k assume eq: "(ucast a :: u32) = ucast b" and k: "k < LENGTH(8)"
  then have "bit (ucast a :: u32) k = bit (ucast b :: u32) k" by simp
  then show "bit a k = bit b k" using k by (simp add: bit_ucast_iff)
qed

lemma checksum_step_inj_sum: "checksum_step s b = checksum_step t b \<Longrightarrow> s = t"
  by (rule rotate_inj) (simp add: checksum_step_def)

lemma checksum_step_inj_byte: "checksum_step s a = checksum_step s b \<Longrightarrow> a = b"
  by (rule ucast_u8_u32_inj) (simp add: checksum_step_def)

lemma checksum_loop_append: "checksum_loop s (as @ bs) = checksum_loop (checksum_loop s as) bs"
  by (induction as arbitrary: s) simp_all

lemma checksum_loop_inj_start: "checksum_loop s bs = checksum_loop t bs \<Longrightarrow> s = t"
  by (induction bs arbitrary: s t) (auto dest: checksum_step_inj_sum)

lemma checksum_loop_update:
  assumes "i < length bs" "b \<noteq> bs ! i"
  shows "checksum_loop s (bs[i := b]) \<noteq> checksum_loop s bs"
proof
  assume eq: "checksum_loop s (bs[i := b]) = checksum_loop s bs"
  let ?t = "checksum_loop s (take i bs)"
  have "bs = take i bs @ bs ! i # drop (Suc i) bs"
    using assms(1) by (rule id_take_nth_drop)
  then have l: "checksum_loop s bs = checksum_loop (checksum_step ?t (bs ! i)) (drop (Suc i) bs)"
    by (metis checksum_loop.simps(2) checksum_loop_append)
  have r: "checksum_loop s (bs[i := b]) = checksum_loop (checksum_step ?t b) (drop (Suc i) bs)"
    by (simp add: upd_conv_take_nth_drop assms(1) checksum_loop_append)
  have "checksum_step ?t b = checksum_step ?t (bs ! i)"
    using eq unfolding l r by (rule checksum_loop_inj_start)
  then show False using assms(2) checksum_step_inj_byte by blast
qed

subsection \<open>What validation accepts\<close>

lemma load32_Some: "off + 4 \<le> length blk \<Longrightarrow> \<exists>w. load32 blk off = Some w"
  by (simp add: load32_def mem_simps)

lemma payload_len: "36 \<le> unat n \<Longrightarrow> unat (n - 36 :: u64) = unat n - 36"
  by (simp add: u64_arith)

lemma validate_message_eq:
  assumes "36 \<le> unat n" "unat n \<le> length msg + 4"
  shows "validate_message msg n = Some (
     load32 msg off_magic_start = Some MAGIC_START \<and>
     map_option unat (load32 msg off_size) = Some (unat n) \<and>
     load32 msg (unat n - 8) = Some MAGIC_END \<and>
     load32 msg off_checksum = Some (checksum_loop 0 (take (unat n - 36) (drop off_data msg))))"
proof -
  have len: "off_data + unat (n - sizeof_Message - 4) = unat n - 8"
    using assms by (simp add: payload_len)
  obtain a where a: "load32 msg off_magic_start = Some a"
    using load32_Some [of off_magic_start msg] assms by auto
  obtain b where b: "load32 msg off_size = Some b"
    using load32_Some [of off_size msg] assms by auto
  obtain c where c: "load32 msg (unat n - 8) = Some c"
    using load32_Some [of "unat n - 8" msg] assms by fastforce
  obtain d where d: "load32 msg off_checksum = Some d"
    using load32_Some [of off_checksum msg] assms by auto
  have e: "calculate_checksum msg off_data (n - sizeof_Message - 4)
      = Some (checksum_loop 0 (take (unat n - 36) (drop off_data msg)))"
    using assms by (simp add: calculate_checksum_def payload_len mem_simps)
  have sz: "(ucast b = n) = (unat b = unat n)"
    by (simp add: word_eq_unat)
  show ?thesis
    unfolding validate_message_def Let_def len a b c d e by (auto simp: sz)
qed

text \<open>Validation looks at the first \<open>total_size - 4\<close> bytes only.\<close>

lemma validate_message_prefix:
  assumes n: "36 \<le> unat n" and t: "take (unat n - 4) a = take (unat n - 4) b"
    and la: "unat n - 4 \<le> length a" and lb: "unat n - 4 \<le> length b"
  shows "validate_message a n = validate_message b n"
proof -
  have ld: "load32 a off = load32 b off" if "off + 4 \<le> unat n - 4" for off
    using mem_read_prefix [OF t that la lb] by (simp add: load32_def)
  have "take (unat n - 36) (drop off_data a) = take (unat n - 36) (drop off_data b)"
    using mem_read_prefix [OF t _ la lb, of off_data "unat n - 36"] n la lb
    by (simp add: mem_read_def)
  then show ?thesis
    using n la lb by (simp add: validate_message_eq ld)
qed

lemma validate_message_copy:
  assumes "36 \<le> unat n" "unat n \<le> length a" "take (unat n) b = take (unat n) a"
    and "unat n \<le> length b"
  shows "validate_message b n = validate_message a n"
  using assms by (intro validate_message_prefix) (auto simp: min_def dest: arg_cong [of _ _ "take (unat n - 4)"])

subsection \<open>Generated messages are valid\<close>

lemma length_lcg_bytes [simp]: "length (lcg_bytes s n) = n"
  by (induction n arbitrary: s) (simp_all add: Let_def)

lemma payload_size_bounds:
  assumes "min_size < max_size"
  shows "min_size \<le> payload_size rnd min_size max_size \<and> payload_size rnd min_size max_size < max_size"
proof -
  have "0 \<le> rnd mod (max_size - min_size)" "rnd mod (max_size - min_size) < max_size - min_size"
    using assms by simp_all
  moreover have "payload_size rnd min_size max_size = min_size + rnd mod (max_size - min_size)"
    using assms by (simp add: payload_size_def)
  ultimately show ?thesis by linarith
qed

lemma payload_size_fixed: "max_size \<le> min_size \<Longrightarrow> payload_size rnd min_size max_size = min_size"
  by (simp add: payload_size_def)

text \<open>The whole effect of \<open>random_message\<close> on a block that can take it.\<close>

lemma random_message_effect:
  assumes p: "payload_size rnd min_size max_size = int p" and len: "p + 32 \<le> length msg"
    and small: "unat n < 2 ^ 32" and n: "unat (n :: u64) = p + 36"
  shows "\<exists>msg' seq0. random_message rnd now msg min_size max_size = Some msg' \<and>
     load32 msg off_seq = Some seq0 \<and> length msg' = length msg \<and>
     load32 msg' off_size = Some (ucast n) \<and>
     load32 msg' off_seq = Some (seq0 + 1) \<and> load64 msg' off_timestamp = Some now \<and>
     take p (drop off_data msg') = lcg_bytes (seq0 + 1) p \<and>
     validate_message msg' n = Some True"
proof -
  obtain m1 where m1: "store32 msg off_magic_start MAGIC_START = Some m1"
    using store32_in [of off_magic_start msg] len by auto
  let ?size = "ucast (sizeof_Message + word_of_nat p + 4 :: u64) :: u32"
  obtain m2 where m2: "store32 m1 off_size ?size = Some m2"
    using store32_in [of off_size m1] len by (auto simp: store_length(1) [OF m1])
  obtain seq0 where seq0: "load32 m2 off_seq = Some seq0"
    using load32_Some [of off_seq m2] len by (auto simp: store_length(1) [OF m1] store_length(1) [OF m2])
  have seq: "load32 msg off_seq = Some seq0"
    using seq0 by (simp add: load_store_frame(1) [OF m1] load_store_frame(1) [OF m2])
  obtain m3 where m3: "store32 m2 off_seq (seq0 + 1) = Some m3"
    using store32_in [of off_seq m2] len by (auto simp: store_length(1) [OF m1] store_length(1) [OF m2])
  obtain m4 where m4: "store64 m3 off_timestamp now = Some m4"
    using store64_in [of off_timestamp m3] len
    by (auto simp: store_length(1) [OF m1] store_length(1) [OF m2] store_length(1) [OF m3])
  have l4: "length m4 = length msg"
    by (simp add: store_length(1) [OF m1] store_length(1) [OF m2] store_length(1) [OF m3] store_length(2) [OF m4])
  have st: "load32 m4 off_seq = Some (seq0 + 1)"
    by (simp add: load_store_frame(2) [OF m4] load_store_same(1) [OF m3])
  let ?pay = "lcg_bytes (seq0 + 1) p"
  obtain m5 where m5: "mem_write m4 off_data ?pay = Some m5"
    using len by (simp add: mem_write_def l4)
  have l5: "length m5 = length msg" using mem_write_length [OF m5] l4 by simp
  have f5: "mem_read m5 o2 n = mem_read m4 o2 n" if "o2 + n \<le> off_data" for o2 n
    using mem_read_frame [OF m5, of o2 n] that by simp
  have pl: "unat (word_of_nat p :: u64) = p"
    using small n by (simp add: u64_arith)
  have cs: "calculate_checksum m5 off_data (word_of_nat p) = Some (checksum_loop 0 ?pay)"
    using mem_read_write_same [OF m5] by (simp add: calculate_checksum_def pl)
  obtain m6 where m6: "store32 m5 off_checksum (checksum_loop 0 ?pay) = Some m6"
    using store32_in [of off_checksum m5] len by (auto simp: l5)
  have l6: "length m6 = length msg" using store_length(1) [OF m6] l5 by simp
  obtain m7 where m7: "store32 m6 (off_data + p) MAGIC_END = Some m7"
    using store32_in [of "off_data + p" m6] len by (auto simp: l6)
  have l7: "length m7 = length msg" using store_length(1) [OF m7] l6 by simp
  have res: "random_message rnd now msg min_size max_size = Some m7"
    by (simp only: random_message_def Let_def p of_int_of_nat_eq nat_int Option.bind.simps
        m1 m2 seq0 m3 m4 st m5 cs m6 m7)
  have "sizeof_Message + word_of_nat p + 4 = n"
    using small n by (simp add: word_eq_unat u64_arith)
  then have size: "?size = ucast n" by simp
  have f67: "mem_read m7 o2 n = mem_read m5 o2 n" if "o2 + n \<le> off_checksum" for o2 n
    using mem_read_store_frame(1) [OF m7, of o2 n] mem_read_store_frame(1) [OF m6, of o2 n] that
    by simp
  have r_size: "load32 m7 off_size = Some (ucast n)"
    using load_store_same(1) [OF m2 [unfolded size]] f67 [of off_size 4] f5 [of off_size 4]
      load_store_frame(2) [OF m4, of off_size] load_store_frame(1) [OF m3, of off_size]
    by (simp add: load32_def)
  have r_seq: "load32 m7 off_seq = Some (seq0 + 1)"
    using st f67 [of off_seq 4] f5 [of off_seq 4] by (simp add: load32_def)
  have r_time: "load64 m7 off_timestamp = Some now"
    using load_store_same(2) [OF m4] f67 [of off_timestamp 8] f5 [of off_timestamp 8]
    by (simp add: load64_def)
  have r_magic: "load32 m7 off_magic_start = Some MAGIC_START"
    using load_store_same(1) [OF m1] f67 [of off_magic_start 4] f5 [of off_magic_start 4]
      load_store_frame(2) [OF m4, of off_magic_start] load_store_frame(1) [OF m3, of off_magic_start]
      load_store_frame(1) [OF m2, of off_magic_start]
    by (simp add: load32_def)
  have r_pay: "mem_read m7 off_data p = Some ?pay"
    using mem_read_write_same [OF m5] mem_read_store_frame(1) [OF m7, of off_data p]
      mem_read_store_frame(1) [OF m6, of off_data p]
    by simp
  then have pay: "take p (drop off_data m7) = ?pay"
    using len l7 by (simp add: mem_read_def)
  have r_check: "load32 m7 off_checksum = Some (checksum_loop 0 ?pay)"
    using load_store_same(1) [OF m6] load_store_frame(1) [OF m7, of off_checksum] by simp
  have n32: "unat (ucast n :: u32) = p + 36"
    using small by (simp add: u64_arith n)
  have "validate_message m7 n = Some True"
    using len l7 r_magic r_size load_store_same(1) [OF m7] r_check pay
    by (subst validate_message_eq) (simp_all add: n n32 add.commute)
  then show ?thesis
    using res seq l7 r_size r_seq r_time pay by blast
qed

subsection \<open>The requests of the benchmark\<close>

text \<open>Every client builds a request with \<open>random_message (msg, 2048, 4096)\<close> and stamps it with the
  time again.\<close>

definition next_request :: "int \<Rightarrow> u64 \<Rightarrow> bytes \<Rightarrow> bytes option" where
  "next_request rnd now buf =
     random_message rnd now buf 2048 4096 \<bind> (\<lambda>buf'. store64 buf' off_timestamp now)"

text \<open>The bytes of such a request; the upper bound is the largest payload, the header and the end
  mark.\<close>

definition request :: "bytes \<Rightarrow> bool" where
  "request m \<longleftrightarrow> 2084 \<le> length m \<and> length m < 4132 \<and>
     validate_message m (word_of_nat (length m)) = Some True"

lemma request_lengths:
  assumes "request m"
  shows "2084 \<le> length m" "length m < 4132" "unat (word_of_nat (length m) :: u64) = length m"
    "unat (word_of_nat (length m) :: u32) = length m"
  using assms by (simp_all add: request_def u64_arith)

lemma request_validates:
  assumes "request m" "take (length m) blk = m"
  shows "validate_message blk (word_of_nat (length m)) = Some True"
proof -
  have "length m \<le> length blk"
    using assms(2) by (metis length_take min.cobounded1)
  then show ?thesis
    using assms request_lengths [OF assms(1)]
    by (subst validate_message_copy [of _ m]) (simp_all add: request_def)
qed

lemma request_timestamp:
  assumes "request m" "take (length m) blk = m"
  shows "load64 blk off_timestamp = load64 m off_timestamp"
proof -
  have "length m \<le> length blk"
    using assms(2) by (metis length_take min.cobounded1)
  then show ?thesis
    using mem_read_prefix [of "length m" blk m off_timestamp 8] assms request_lengths [OF assms(1)]
    by (simp add: load64_def)
qed

lemma validate_stamp:
  assumes "store64 msg off_timestamp t = Some msg'" "36 \<le> unat n" "unat n \<le> length msg + 4"
  shows "validate_message msg' n = validate_message msg n"
proof -
  have "mem_read msg' off_data (unat n - 36) = mem_read msg off_data (unat n - 36)"
    using mem_read_frame [of msg off_timestamp "le_bytes 8 t" msg' off_data "unat n - 36"] assms(1)
    by (simp add: store64_def)
  moreover have "unat n - 8 \<le> length msg" using assms(3) by simp
  ultimately have d: "take (unat n - 36) (drop off_data msg') = take (unat n - 36) (drop off_data msg)"
    using assms(2,3) store_length(2) [OF assms(1)]
    by (simp add: mem_read_def)
  have "load32 msg' off = load32 msg off" if "off + 4 \<le> 16 \<or> 24 \<le> off" for off
    using load_store_frame(2) [OF assms(1)] that by simp
  moreover have "load32 msg' (unat n - 8) = load32 msg (unat n - 8)"
    using assms(2) by (intro load_store_frame(2) [OF assms(1)]) arith
  ultimately show ?thesis
    using assms(2,3) store_length(2) [OF assms(1)] by (simp add: validate_message_eq d)
qed

lemma next_request_effect:
  assumes len: "length buf = unat MAX_MSG_SIZE"
  shows "\<exists>buf' n. next_request rnd now buf = Some buf' \<and> length buf' = length buf \<and>
     load32 buf' off_size = Some n \<and> request (take (unat n) buf') \<and> unat n < 4132 \<and>
     load64 buf' off_timestamp = Some now"
proof -
  define p where "p = nat (payload_size rnd 2048 4096)"
  have "2048 \<le> payload_size rnd 2048 4096" "payload_size rnd 2048 4096 < 4096"
    using payload_size_bounds [of 2048 4096 rnd] by simp_all
  then have p: "payload_size rnd 2048 4096 = int p" "2048 \<le> p" "p < 4096"
    unfolding p_def by linarith+
  define n where "n = (word_of_nat (p + 36) :: u64)"
  have n: "unat n = p + 36" unfolding n_def using p by (simp add: u64_arith)
  have blk: "p + 32 \<le> length buf"
    using p len by (simp add: MAX_MSG_SIZE_def)
  have small: "unat n < 2 ^ 32" using n p by simp
  obtain b1 where b1: "random_message rnd now buf 2048 4096 = Some b1" "length b1 = length buf"
      "load32 b1 off_size = Some (ucast n)" "validate_message b1 n = Some True"
    using random_message_effect [OF p(1) blk small n, of now] by blast
  obtain b2 where b2: "store64 b1 off_timestamp now = Some b2"
    using store64_in [of off_timestamp b1] b1(2) blk p by auto
  have l2: "length b2 = length buf" using store_length(2) [OF b2] b1(2) by simp
  have "load32 b2 off_size = Some (ucast n)"
    using load_store_frame(2) [OF b2, of off_size] b1(3) by simp
  moreover have n32: "unat (ucast n :: u32) = p + 36" using small n by (simp add: u64_arith)
  moreover have v: "validate_message b2 n = Some True"
    using validate_stamp [OF b2, of n] b1 n blk by simp
  have "request (take (p + 36) b2)"
  proof -
    have le: "p + 36 \<le> length b2" using l2 len p by (simp add: MAX_MSG_SIZE_def)
    then have "validate_message (take (p + 36) b2) n = validate_message b2 n"
      using n by (intro validate_message_copy) simp_all
    then show ?thesis using v p le by (simp add: request_def n_def min_def)
  qed
  ultimately show ?thesis
    using b1(1) b2 l2 load_store_same(2) [OF b2] p by (auto simp: next_request_def)
qed

subsection \<open>Properties\<close>

text \<open>C9: generation. \<open>random_message\<close> on a block that can hold the message writes a message of its
  payload size plus 36 bytes with the next sequence number, the time and the pseudo-random payload,
  and \<open>validate_message\<close> accepts it.\<close>

theorem random_message_valid:
  assumes "payload_size rnd min_size max_size = int p" "p + 32 \<le> length msg"
    and "unat n = p + 36" "unat n < 2 ^ 32"
  shows "\<exists>msg' seq0. random_message rnd now msg min_size max_size = Some msg' \<and>
     length msg' = length msg \<and> load32 msg off_seq = Some seq0 \<and>
     load32 msg' off_size = Some (ucast n) \<and> load32 msg' off_seq = Some (seq0 + 1) \<and>
     load64 msg' off_timestamp = Some now \<and>
     take p (drop off_data msg') = lcg_bytes (seq0 + 1) p \<and>
     validate_message msg' n = Some True"
  using random_message_effect [OF assms(1,2,4,3), of now] by blast

theorem random_message_valid_witness:
  "\<exists>msg'. random_message 7 5 (replicate 40 0) 4 4 = Some msg' \<and> validate_message msg' 40 = Some True"
  using random_message_valid [of 7 4 4 4 "replicate 40 0" 40 5] by (auto simp: payload_size_def)

text \<open>C10: corruption. A validated message whose payload is changed in any one byte is rejected.\<close>

theorem validate_message_detects:
  assumes v: "validate_message msg n = Some True" and n: "36 \<le> unat n" "unat n \<le> length msg + 4"
    and i: "off_data \<le> i" "i < unat n - 8" and b: "b \<noteq> msg ! i"
  shows "validate_message (msg[i := b]) n = Some False"
proof -
  have eq: "load32 (msg[i := b]) off = load32 msg off" if "off + 4 \<le> off_data \<or> off = unat n - 8" for off
  proof -
    have "take 4 (drop off (msg[i := b])) = take 4 (drop off msg)"
      using that i by (intro nth_equalityI) auto
    then show ?thesis by (simp add: load32_def mem_read_def)
  qed
  have pay: "take (unat n - 36) (drop off_data (msg[i := b]))
      = (take (unat n - 36) (drop off_data msg))[i - off_data := b]"
    using i n by (simp add: drop_update_swap take_update_swap)
  have "checksum_loop 0 ((take (unat n - 36) (drop off_data msg))[i - off_data := b])
      \<noteq> checksum_loop 0 (take (unat n - 36) (drop off_data msg))"
    using i n b by (intro checksum_loop_update) auto
  then show ?thesis
    using v n by (auto simp: validate_message_eq eq pay)
qed

theorem validate_message_detects_witness:
  "\<exists>msg. validate_message msg 40 = Some True \<and> validate_message (msg[28 := msg ! 28 + 1]) 40 = Some False"
proof -
  obtain msg where "validate_message msg 40 = Some True" "length msg = 40"
    using random_message_effect [of 7 4 4 4 "replicate 40 0" 40 5] by (auto simp: payload_size_def)
  then show ?thesis using validate_message_detects [of msg 40 28 "msg ! 28 + 1"] by auto
qed

text \<open>A declared size below 36 makes the payload length wrap around: the end mark is then looked for
  outside the block, which is undefined behaviour. Nothing but the caller's own data keeps \<open>total_size\<close>
  at 36 or more.\<close>

theorem validate_message_short:
  assumes "load32 msg off_magic_start = Some MAGIC_START" "load32 msg off_size = Some sz"
    and "unat sz < 36" "length msg < 2 ^ 63"
  shows "validate_message msg (ucast sz) = None"
proof -
  have "unat (ucast sz - sizeof_Message - 4 :: u64) = 2 ^ 64 + unat sz - 36"
    using assms(3) by (simp add: unat_sub_if')
  then have "load32 msg (off_data + unat (ucast sz - sizeof_Message - 4 :: u64)) = None"
    using assms(4) by (simp add: load32_def mem_read_def)
  then show ?thesis
    using assms(1,2) by (simp add: validate_message_def Let_def)
qed

theorem validate_message_short_witness:
  "validate_message (le_bytes 4 MAGIC_START @ le_bytes 4 (8 :: u32)) 8 = None"
  using validate_message_short [of "le_bytes 4 MAGIC_START @ le_bytes 4 (8 :: u32)" 8]
  by (simp add: load32_def mem_read_def of_le_bytes_le_bytes)

end
