(* ===== verification/Futex.thy ===== *)
theory Futex
  imports IPC_Prelude
begin

section \<open>Waiting on and signalling an atomic flag with a futex\<close>

text \<open>
  \<open>futex_wait_for_atomic_bool\<close> and \<open>futex_signal_atomic_bool\<close>, one step per atomic access or system
  call, so that the other thread can run in between. Threads interleave sequentially
  consistently; the weaker orders the C11 accesses ask for are not modelled.

  \<open>FUTEX_WAIT\<close> compares the futex word with the expected value and, in the same atomic step,
  goes to sleep or returns \<open>EAGAIN\<close>; both callers ignore its result. A sleeper runs again when
  \<open>FUTEX_WAKE\<close> wakes it or spuriously (a signal). At most one thread waits on each word, so waking
  one and waking all are the same.
\<close>

subsection \<open>Waiting\<close>

datatype wait_pc =
    W_cond              \<comment> \<open>at the test of the loop\<close>
  | W_load              \<comment> \<open>about to load the futex word\<close>
  | W_recheck u32       \<comment> \<open>word loaded, about to test the condition again\<close>
  | W_call u32          \<comment> \<open>about to call \<open>futex_wait\<close> with the loaded value\<close>
  | W_asleep            \<comment> \<open>sleeping in the kernel\<close>

datatype wait_next = Continue wait_pc | Return | Blocked

fun futex_wait :: "u32 \<Rightarrow> u32 \<Rightarrow> wait_pc" where
  "futex_wait futex_word val = (if futex_word = val then W_asleep else W_cond)"

fun futex_wait_step :: "bool \<Rightarrow> u32 \<Rightarrow> wait_pc \<Rightarrow> wait_next" where
  "futex_wait_step condition futex_word W_cond =
     (if condition then Return else Continue W_load)"
| "futex_wait_step condition futex_word W_load = Continue (W_recheck futex_word)"
| "futex_wait_step condition futex_word (W_recheck val) =
     (if \<not> condition then Continue (W_call val) else Continue W_cond)"
| "futex_wait_step condition futex_word (W_call val) = Continue (futex_wait futex_word val)"
| "futex_wait_step condition futex_word W_asleep = Blocked"

text \<open>What \<open>FUTEX_WAKE\<close> with a positive count (or a spurious return) does to the waiter.\<close>

fun futex_wake :: "wait_pc \<Rightarrow> wait_pc" where
  "futex_wake W_asleep = W_cond"
| "futex_wake w = w"

subsection \<open>Signalling\<close>

datatype signal_pc =
    G_store             \<comment> \<open>about to set the condition\<close>
  | G_add               \<comment> \<open>about to increment the futex word\<close>
  | G_wake              \<comment> \<open>about to wake the waiter\<close>

text \<open>One step of the signaller: the condition, the futex word, the waiter's place and the
  signaller's next place (\<open>None\<close> when the function returns).\<close>

fun futex_signal_step ::
  "bool \<Rightarrow> u32 \<Rightarrow> wait_pc option \<Rightarrow> signal_pc
     \<Rightarrow> bool \<times> u32 \<times> wait_pc option \<times> signal_pc option" where
  "futex_signal_step condition futex_word waiter G_store = (True, futex_word, waiter, Some G_add)"
| "futex_signal_step condition futex_word waiter G_add =
     (condition, futex_word + 1, waiter, Some G_wake)"
| "futex_signal_step condition futex_word waiter G_wake =
     (condition, futex_word, map_option futex_wake waiter, None)"

subsection \<open>No wake-up is lost\<close>

text \<open>
  The invariant between one waiter and one signaller. A waiter that sleeps although its condition
  holds has a wake-up coming. A waiter about to call \<open>futex_wait\<close> with the value \<open>v\<close> it loaded has
  seen at most two increments since: one of a signal that was under way when it loaded, one of the
  signal it waits for; if its condition holds and the increment is no longer to come, the word has
  moved away from \<open>v\<close>.
\<close>

definition adds_since :: "u32 \<Rightarrow> u32 \<Rightarrow> nat \<Rightarrow> bool" where
  "adds_since futex_word v n \<longleftrightarrow> futex_word = v + word_of_nat n"

fun wake_inv :: "bool \<Rightarrow> u32 \<Rightarrow> wait_pc option \<Rightarrow> signal_pc option \<Rightarrow> bool" where
  "wake_inv cond word (Some W_asleep) g = (cond \<longrightarrow> g = Some G_add \<or> g = Some G_wake)"
| "wake_inv cond word (Some (W_recheck v)) g =
     (cond \<or> adds_since word v 0 \<or> g \<noteq> Some G_add \<and> adds_since word v 1)"
| "wake_inv cond word (Some (W_call v)) g =
     (if cond then
        (if g = Some G_add then adds_since word v 0 \<or> adds_since word v 1
         else adds_since word v 1 \<or> adds_since word v 2)
      else adds_since word v 0 \<or> g \<noteq> Some G_add \<and> adds_since word v 1)"
| "wake_inv cond word w g = True"

lemma adds_since_Suc: "adds_since word v n \<Longrightarrow> adds_since (word + 1) v (Suc n)"
  by (simp add: adds_since_def)

lemma adds_since_moved: "adds_since word v 1 \<or> adds_since word v 2 \<Longrightarrow> word \<noteq> v"
  by (auto simp: adds_since_def)

lemma wake_inv_wait:
  assumes "wake_inv cond word (Some w) g" "futex_wait_step cond word w = Continue w'"
  shows "wake_inv cond word (Some w') g"
proof (cases w)
  case (W_call v)
  then show ?thesis
    using assms adds_since_moved [of word v]
    by (cases "word = v") (auto simp: adds_since_def split: if_splits)
qed (use assms in \<open>auto simp: adds_since_def split: if_splits\<close>)

lemma wake_inv_signal:
  assumes "wake_inv cond word w (Some g)" "g = G_store \<Longrightarrow> \<not> cond"
    and "futex_signal_step cond word w g = (cond', word', w', g')"
  shows "wake_inv cond' word' w' g'"
proof (cases w)
  case None
  then show ?thesis using assms(3) by (cases g) auto
next
  case (Some wp)
  then show ?thesis
    using assms
    by (cases g; cases wp) (auto simp: numeral_2_eq_2 dest: adds_since_Suc split: if_splits)
qed

text \<open>Places of the signaller other than the increment and the wake-up are all alike.\<close>

lemma wake_inv_quiet:
  "wake_inv cond word w g \<Longrightarrow> g \<noteq> Some G_add \<Longrightarrow> g \<noteq> Some G_wake \<Longrightarrow>
   g' \<noteq> Some G_add \<Longrightarrow> g' \<noteq> Some G_wake \<Longrightarrow> wake_inv cond word w g'"
  by (cases "(cond, word, w, g)" rule: wake_inv.cases) (auto split: if_splits)

lemma wake_inv_asleep:
  "wake_inv cond word (Some W_asleep) g \<Longrightarrow> g \<noteq> Some G_add \<Longrightarrow> g \<noteq> Some G_wake \<Longrightarrow> \<not> cond"
  by simp

end
