(* ===== verification/Echo_Protocol.thy ===== *)
theory Echo_Protocol
  imports IPC_Prelude "HOL-Library.Sublist"
begin

section \<open>The abstract echo protocol\<close>

text \<open>
  What every backend of the benchmark promises between one client and one server, until the server
  starts to shut down: the client has at most one request outstanding; the server takes it, and
  answers with the same bytes; the client receives the answer before it sends again. The histories
  \<open>e_sent\<close>, \<open>e_served\<close> and \<open>e_rcvd\<close> are the requests sent, the requests the server took and the
  answers the client received.
\<close>

datatype phase = Idle | Requested | Taken | Responded

record echo =
  e_phase :: phase
  e_sent :: "bytes list"
  e_served :: "bytes list"
  e_rcvd :: "bytes list"

definition echo_init :: echo where
  "echo_init = \<lparr>e_phase = Idle, e_sent = [], e_served = [], e_rcvd = []\<rparr>"

inductive echo_step :: "echo \<Rightarrow> echo \<Rightarrow> bool" where
  request: "e_phase e = Idle \<Longrightarrow>
     echo_step e (e\<lparr>e_phase := Requested, e_sent := e_sent e @ [m]\<rparr>)"
| take: "e_phase e = Requested \<Longrightarrow>
     echo_step e (e\<lparr>e_phase := Taken, e_served := e_served e @ [last (e_sent e)]\<rparr>)"
| respond: "e_phase e = Taken \<Longrightarrow> echo_step e (e\<lparr>e_phase := Responded\<rparr>)"
| receive: "e_phase e = Responded \<Longrightarrow>
     echo_step e (e\<lparr>e_phase := Idle, e_rcvd := e_rcvd e @ [last (e_sent e)]\<rparr>)"

inductive_cases echo_stepE: "echo_step e e'"

text \<open>A step of an implementation is one abstract step or none.\<close>

definition echo_step0 :: "echo \<Rightarrow> echo \<Rightarrow> bool" where
  "echo_step0 e e' \<longleftrightarrow> e' = e \<or> echo_step e e'"

lemma echo_stutter [simp, intro]: "echo_step0 e e"
  by (simp add: echo_step0_def)

lemma echo_step0_intros:
  "e_phase e = Idle \<Longrightarrow> e' = e\<lparr>e_phase := Requested, e_sent := e_sent e @ [m]\<rparr> \<Longrightarrow> echo_step0 e e'"
  "e_phase e = Requested \<Longrightarrow>
     e' = e\<lparr>e_phase := Taken, e_served := e_served e @ [last (e_sent e)]\<rparr> \<Longrightarrow> echo_step0 e e'"
  "e_phase e = Taken \<Longrightarrow> e' = e\<lparr>e_phase := Responded\<rparr> \<Longrightarrow> echo_step0 e e'"
  "e_phase e = Responded \<Longrightarrow>
     e' = e\<lparr>e_phase := Idle, e_rcvd := e_rcvd e @ [last (e_sent e)]\<rparr> \<Longrightarrow> echo_step0 e e'"
  by (auto simp: echo_step0_def intro: echo_step.intros)

text \<open>The invariant of the protocol ties the three histories together.\<close>

definition echo_inv :: "echo \<Rightarrow> bool" where
  "echo_inv e \<longleftrightarrow>
     (case e_phase e of
        Idle \<Rightarrow> e_served e = e_sent e \<and> e_rcvd e = e_sent e
      | Requested \<Rightarrow> e_sent e \<noteq> [] \<and> e_served e = butlast (e_sent e) \<and> e_rcvd e = butlast (e_sent e)
      | _ \<Rightarrow> e_sent e \<noteq> [] \<and> e_served e = e_sent e \<and> e_rcvd e = butlast (e_sent e))"

lemma echo_inv_init: "echo_inv echo_init"
  by (simp add: echo_inv_def echo_init_def)

lemma echo_inv_step: "echo_step e e' \<Longrightarrow> echo_inv e \<Longrightarrow> echo_inv e'"
  by (induction rule: echo_step.induct) (auto simp: echo_inv_def)

lemma echo_inv_step0: "echo_step0 e e' \<Longrightarrow> echo_inv e \<Longrightarrow> echo_inv e'"
  by (auto simp: echo_step0_def dest: echo_inv_step)

lemma echo_inv_prefix:
  assumes "echo_inv e"
  shows "prefix (e_rcvd e) (e_served e) \<and> prefix (e_served e) (e_sent e) \<and>
         length (e_sent e) \<le> Suc (length (e_rcvd e))"
  using assms by (auto simp: echo_inv_def prefixeq_butlast split: phase.splits)

subsection \<open>The interface of an implementation\<close>

text \<open>
  An implementation is a step relation from an initial state; \<open>live\<close> holds until the server begins to
  shut down, which is final; \<open>inv\<close> is the implementation's own invariant while it is live and \<open>abs\<close>
  reads the abstract state off it.
\<close>

inductive reach :: "('s \<Rightarrow> 's \<Rightarrow> bool) \<Rightarrow> 's \<Rightarrow> 's \<Rightarrow> bool" for stp s0 where
  init: "reach stp s0 s0"
| step: "reach stp s0 s \<Longrightarrow> stp s t \<Longrightarrow> reach stp s0 t"

lemma reach_trans: "reach stp b c \<Longrightarrow> reach stp a b \<Longrightarrow> reach stp a c"
  by (induction rule: reach.induct) (auto intro: reach.intros)

locale echo_implementation =
  fixes stp :: "'s \<Rightarrow> 's \<Rightarrow> bool"
    and start :: "'s \<Rightarrow> bool"
    and live :: "'s \<Rightarrow> bool"
    and inv :: "'s \<Rightarrow> bool"
    and abs :: "'s \<Rightarrow> echo"
  assumes start_inv: "start s \<Longrightarrow> inv s"
    and start_abs: "start s \<Longrightarrow> abs s = echo_init"
    and inv_step: "inv s \<Longrightarrow> live s \<Longrightarrow> stp s t \<Longrightarrow> live t \<Longrightarrow> inv t"
    and abs_step: "inv s \<Longrightarrow> live s \<Longrightarrow> stp s t \<Longrightarrow> live t \<Longrightarrow> echo_step0 (abs s) (abs t)"
    and live_back: "stp s t \<Longrightarrow> live t \<Longrightarrow> live s"
begin

lemma reach_inv:
  assumes "reach stp s0 s" "start s0" "live s"
  shows "inv s \<and> echo_inv (abs s)"
  using assms
proof (induction rule: reach.induct)
  case init
  then show ?case by (simp add: start_inv start_abs echo_inv_init)
next
  case (step s t)
  from step.hyps(2) step.prems(2) have "live s" by (rule live_back)
  with step have "inv s" "echo_inv (abs s)" by simp_all
  then show ?case
    using inv_step abs_step step.hyps(2) step.prems(2) \<open>live s\<close> echo_inv_step0 by blast
qed

lemma reach_abs:
  assumes "reach stp s0 s" "start s0" "live s"
  shows "reach echo_step echo_init (abs s)"
  using assms
proof (induction rule: reach.induct)
  case init
  then show ?case by (simp add: start_abs reach.init)
next
  case (step s t)
  from step.hyps(2) step.prems(2) have "live s" by (rule live_back)
  then have "echo_step0 (abs s) (abs t)" and "reach echo_step echo_init (abs s)"
    using abs_step step reach_inv by blast+
  then show ?case
    by (auto simp: echo_step0_def intro: reach.step)
qed

text \<open>The answers received are, in order, the requests sent; at most one is outstanding.\<close>

lemma echoes:
  assumes "reach stp s0 s" "start s0" "live s"
  shows "prefix (e_rcvd (abs s)) (e_sent (abs s)) \<and>
         length (e_sent (abs s)) \<le> Suc (length (e_rcvd (abs s)))"
  using reach_inv [OF assms] by (auto simp: echo_inv_def prefixeq_butlast split: phase.splits)

end

end
