(* ===== verification/Statistics.thy ===== *)
theory Statistics
  imports Complex_Main Messages "HOL-Library.Multiset" "HOL-Library.Signed_Division"
begin

section \<open>Clock and statistics (benchmark.c)\<close>

text \<open>
  The timestamp, the comparator given to \<open>qsort\<close>, the statistics over the collected latencies and the
  numbers that are printed. A \<open>double\<close> is a rational: conversions and quotients are exact here, and so
  they are in the program up to the rounding of IEEE 754. \<open>qsort\<close> is written out as an insertion sort on
  the comparator; the lemma \<open>qsort_unique\<close> shows that any other sort would give the same array.
\<close>

subsection \<open>The clock\<close>

definition get_timestamp_us :: "int \<Rightarrow> int \<Rightarrow> u64" where
  "get_timestamp_us tv_sec tv_nsec = word_of_int tv_sec * 1000000 + word_of_int (tv_nsec sdiv 1000)"

definition get_cpu_usage :: "int \<Rightarrow> int \<Rightarrow> int \<Rightarrow> int \<Rightarrow> rat" where
  "get_cpu_usage utime_sec stime_sec utime_usec stime_usec =
     of_int (utime_sec + stime_sec) * 1000000 + of_int (utime_usec + stime_usec)"

subsection \<open>Sorting\<close>

definition cmp_uint64 :: "u64 \<Rightarrow> u64 \<Rightarrow> int" where
  "cmp_uint64 a b = of_bool (a > b) - of_bool (a < b)"

fun insert_by :: "('a \<Rightarrow> 'a \<Rightarrow> int) \<Rightarrow> 'a \<Rightarrow> 'a list \<Rightarrow> 'a list" where
  "insert_by cmp x [] = [x]"
| "insert_by cmp x (y # ys) = (if cmp x y \<le> 0 then x # y # ys else y # insert_by cmp x ys)"

fun qsort :: "('a \<Rightarrow> 'a \<Rightarrow> int) \<Rightarrow> 'a list \<Rightarrow> 'a list" where
  "qsort cmp [] = []"
| "qsort cmp (x # xs) = insert_by cmp x (qsort cmp xs)"

lemma mset_insert_by: "mset (insert_by cmp x xs) = add_mset x (mset xs)"
  by (induction xs) auto

lemma mset_qsort [simp]: "mset (qsort cmp xs) = mset xs"
  by (induction xs) (auto simp: mset_insert_by)

lemma length_qsort [simp]: "length (qsort cmp xs) = length xs"
  by (metis mset_qsort size_mset)

lemma sorted_insert_by: "sorted xs \<Longrightarrow> sorted (insert_by cmp_uint64 x xs)"
proof (induction xs)
  case (Cons y ys)
  have "set (insert_by cmp_uint64 x ys) = insert x (set ys)"
    by (metis mset_insert_by set_mset_add_mset_insert set_mset_mset)
  moreover have "cmp_uint64 x y \<le> 0 \<longleftrightarrow> x \<le> y" by (auto simp: cmp_uint64_def)
  ultimately show ?case using Cons by auto
qed simp

lemma sorted_qsort: "sorted (qsort cmp_uint64 xs)"
  by (induction xs) (auto simp: sorted_insert_by)

lemma qsort_unique: "sorted ys \<Longrightarrow> mset ys = mset xs \<Longrightarrow> ys = qsort cmp_uint64 xs"
  by (metis mset_qsort properties_for_sort sorted_qsort)

subsection \<open>The statistics\<close>

record BenchmarkStats =
  st_ops :: u64
  st_bytes :: u64
  st_cpu_usage :: rat
  st_avg :: rat
  st_p50 :: rat
  st_p95 :: rat
  st_p99 :: rat

text \<open>The struct \<open>main\<close> passes to the clients, all zero.\<close>

definition no_stats :: BenchmarkStats where
  "no_stats = \<lparr>st_ops = 0, st_bytes = 0, st_cpu_usage = 0, st_avg = 0, st_p50 = 0, st_p95 = 0, st_p99 = 0\<rparr>"

text \<open>An indexed read of the array of latencies; \<open>None\<close> outside of it.\<close>

definition array_at :: "u64 list \<Rightarrow> u64 \<Rightarrow> u64 option" where
  "array_at xs i = (if unat i < length xs then Some (xs ! unat i) else None)"

lemma unat_succ_below: "i < cnt \<Longrightarrow> unat (i + 1 :: u64) = Suc (unat i)"
  using unat_lt_64 [of cnt] by (simp add: unat_add_u64 word_less_nat_alt)

text \<open>The summation loop, with the 64-bit wrap-around of the code.\<close>

function sum_loop :: "u64 list \<Rightarrow> u64 \<Rightarrow> u64 \<Rightarrow> u64 \<Rightarrow> u64 option" where
  "sum_loop xs cnt i acc =
     (if i < cnt then array_at xs i \<bind> (\<lambda>x. sum_loop xs cnt (i + 1) (acc + x)) else Some acc)"
  by pat_completeness auto

termination
  by (relation "measure (\<lambda>(xs, cnt, i, acc). unat cnt - unat i)")
    (simp_all add: unat_succ_below word_less_nat_alt)

declare sum_loop.simps [simp del]

text \<open>A 64-bit count as a \<open>double\<close>.\<close>

definition double :: "u64 \<Rightarrow> rat" where "double w = of_nat (unat w)"

text \<open>\<open>calculate_stats\<close> returns the array, which it sorts in place, and the statistics.\<close>

definition calculate_stats ::
  "u64 list \<Rightarrow> u64 \<Rightarrow> BenchmarkStats \<Rightarrow> (u64 list \<times> BenchmarkStats) option" where
  "calculate_stats latencies cnt stats =
     (if cnt = 0 then Some (latencies, stats)
      else if length latencies < unat cnt then None
      else
        let lat = qsort cmp_uint64 (take (unat cnt) latencies) @ drop (unat cnt) latencies
        in do {
          total \<leftarrow> sum_loop lat cnt 0 0;
          p50 \<leftarrow> array_at lat (cnt * 50 div 100);
          p95 \<leftarrow> array_at lat (cnt * 95 div 100);
          p99 \<leftarrow> array_at lat (cnt * 99 div 100);
          Some (lat, stats\<lparr>st_avg := double total / double cnt, st_p50 := double p50,
                           st_p95 := double p95, st_p99 := double p99\<rparr>)
        })"

text \<open>What a client does when its loop is left: the CPU time of the run as a percentage, then the latencies.\<close>

definition finish_stats ::
  "rat \<Rightarrow> rat \<Rightarrow> int \<Rightarrow> u64 list \<Rightarrow> BenchmarkStats \<Rightarrow> BenchmarkStats option" where
  "finish_stats cpu_start cpu_end duration_secs latencies stats =
     map_option snd (calculate_stats latencies (word_of_nat (length latencies))
       (stats\<lparr>st_cpu_usage := (cpu_end - cpu_start) / (10000 * of_int duration_secs)\<rparr>))"

text \<open>The struct a client leaves to \<open>main\<close>, from its counters and latencies.\<close>

definition run_report :: "rat \<times> rat \<Rightarrow> int \<Rightarrow> u64 list \<Rightarrow> u64 \<Rightarrow> u64 \<Rightarrow> BenchmarkStats option" where
  "run_report cpu duration_secs latencies ops bytes =
     finish_stats (fst cpu) (snd cpu) duration_secs latencies (no_stats\<lparr>st_ops := ops, st_bytes := bytes\<rparr>)"

text \<open>The numbers \<open>print_stats\<close> prints, with their labels.\<close>

definition print_stats :: "BenchmarkStats \<Rightarrow> (string \<times> rat) list" where
  "print_stats stats =
     [(''Operations per second'', double (st_ops stats) / of_int RUN_DURATION),
      (''Throughput'', double (st_bytes stats) / of_int (1024 * 1024 * RUN_DURATION)),
      (''CPU usage'', st_cpu_usage stats),
      (''Average latency'', st_avg stats),
      (''P50 latency'', st_p50 stats),
      (''P95 latency'', st_p95 stats),
      (''P99 latency'', st_p99 stats)]"

subsection \<open>What the statistics mean\<close>

lemma sum_loop_eq:
  assumes "unat cnt \<le> length xs" "i \<le> cnt"
  shows "sum_loop xs cnt i acc = Some (acc + sum_list (take (unat cnt - unat i) (drop (unat i) xs)))"
  using assms
proof (induction xs cnt i acc rule: sum_loop.induct)
  case (1 xs cnt i acc)
  show ?case
  proof (cases "i < cnt")
    case True
    then have i: "unat i < unat cnt" "unat (i + 1) = Suc (unat i)"
      using unat_succ_below by (simp_all add: word_less_nat_alt)
    then have le: "i + 1 \<le> cnt" and x: "array_at xs i = Some (xs ! unat i)"
      using 1(2) by (simp_all add: word_le_nat_alt array_at_def)
    have d: "drop (unat i) xs = xs ! unat i # drop (Suc (unat i)) xs"
      using i(1) 1(2) by (simp add: Cons_nth_drop_Suc)
    have "sum_loop xs cnt i acc = sum_loop xs cnt (i + 1) (acc + xs ! unat i)"
      using True x by (subst sum_loop.simps) simp
    also have "\<dots> = Some (acc + xs ! unat i + sum_list (take (unat cnt - unat (i + 1)) (drop (unat (i + 1)) xs)))"
      by (rule 1(1) [OF True x 1(2) le])
    also have "\<dots> = Some (acc + sum_list (take (unat cnt - unat i) (drop (unat i) xs)))"
      using i(1) by (simp add: i(2) d take_Cons' add.assoc)
    finally show ?thesis .
  next
    case False
    then have "i = cnt" using 1(3) by simp
    then show ?thesis by (subst sum_loop.simps) simp
  qed
qed

lemma unat_sum_list:
  "(sum_list (map unat xs) :: nat) < 2 ^ 64 \<Longrightarrow> unat (sum_list xs :: u64) = sum_list (map unat xs)"
  by (induction xs) (simp_all add: unat_add_u64)

lemma percentile_index:
  assumes "0 < n" "n \<le> MAX_LATENCIES" "q < 100" "unat (cnt :: u64) = n"
  shows "unat (cnt * word_of_nat q div 100) = n * q div 100 \<and> n * q div 100 < n"
proof -
  have "n * q \<le> 1000000 * 100" using assms by (intro mult_le_mono) (simp_all add: MAX_LATENCIES_def)
  then have "n * q < 2 ^ 64" by simp
  moreover have "unat (word_of_nat q :: u64) = q" using assms(3) by (simp add: unat_of_nat_u64)
  ultimately have "unat (cnt * word_of_nat q) = n * q" using assms(4) by (simp add: unat_word_ariths)
  then have "unat (cnt * word_of_nat q div 100) = n * q div 100" by (simp add: unat_div)
  moreover have "n * q div 100 < n" using assms(1,3) by (simp add: less_mult_imp_div_less)
  ultimately show ?thesis by simp
qed

text \<open>The element of rank \<open>length xs * q / 100\<close> in the order of the values.\<close>

definition percentile_of :: "nat \<Rightarrow> u64 list \<Rightarrow> u64 \<Rightarrow> bool" where
  "percentile_of q xs x \<longleftrightarrow> x \<in> set xs \<and>
     length (filter (\<lambda>y. y < x) xs) \<le> length xs * q div 100 \<and>
     length xs * q div 100 < length (filter (\<lambda>y. y \<le> x) xs)"

lemma double_inject [simp]: "double a = double b \<longleftrightarrow> a = b"
  unfolding double_def of_nat_eq_iff by (rule word_unat_eq_iff [symmetric])

lemma double_mono [simp]: "double a \<le> double b \<longleftrightarrow> a \<le> b"
  unfolding double_def of_nat_le_iff by (rule word_le_nat_alt [symmetric])

lemma double_0 [simp]: "double a = 0 \<longleftrightarrow> a = 0"
  unfolding double_def of_nat_eq_0_iff by (rule unat_eq_zero)

lemma length_filter_mset: "mset xs = mset ys \<Longrightarrow> length (filter P xs) = length (filter P ys)"
  by (metis mset_filter size_mset)

lemma sorted_rank:
  fixes ys :: "u64 list"
  assumes "sorted ys" "k < length ys"
  shows "length (filter (\<lambda>y. y < ys ! k) ys) \<le> k \<and> k < length (filter (\<lambda>y. y \<le> ys ! k) ys)"
proof -
  have "\<forall>y \<in> set (drop k ys). ys ! k \<le> y"
    using assms by (auto simp: in_set_conv_nth intro!: sorted_nth_mono)
  then have "filter (\<lambda>y. y < ys ! k) (drop k ys) = []" by (auto simp: filter_empty_conv)
  then have "filter (\<lambda>y. y < ys ! k) ys = filter (\<lambda>y. y < ys ! k) (take k ys)"
    by (metis append.right_neutral append_take_drop_id filter_append)
  then have lt: "length (filter (\<lambda>y. y < ys ! k) ys) \<le> k"
    by (metis length_filter_le length_take min.cobounded2 order_trans)
  have "\<forall>y \<in> set (take (Suc k) ys). y \<le> ys ! k"
    using assms by (auto simp: in_set_conv_nth intro!: sorted_nth_mono)
  then have "filter (\<lambda>y. y \<le> ys ! k) (take (Suc k) ys) = take (Suc k) ys" by (simp add: filter_id_conv)
  then have "Suc k \<le> length (filter (\<lambda>y. y \<le> ys ! k) ys)"
    using assms(2) by (metis Suc_leI append_take_drop_id filter_append le_add1 length_append length_take min.absorb2)
  then show ?thesis using lt by simp
qed

lemma qsort_percentile:
  assumes "xs \<noteq> []" "q < 100"
  shows "percentile_of q xs (qsort cmp_uint64 xs ! (length xs * q div 100))"
proof -
  let ?ys = "qsort cmp_uint64 xs" and ?k = "length xs * q div 100"
  have k: "?k < length ?ys" using assms by (simp add: less_mult_imp_div_less)
  have "mset ?ys = mset xs" by simp
  then have "?ys ! ?k \<in> set xs" using k by (metis mset_eq_setD nth_mem)
  then show ?thesis
    using sorted_rank [OF sorted_qsort k] by (simp add: percentile_of_def length_filter_mset [OF mset_qsort])
qed

lemma calculate_stats_eq:
  assumes n: "0 < unat cnt" "unat cnt \<le> MAX_LATENCIES" "unat cnt \<le> length latencies"
    and ys: "ys = qsort cmp_uint64 (take (unat cnt) latencies)"
  shows "calculate_stats latencies cnt stats = Some (ys @ drop (unat cnt) latencies,
    stats\<lparr>st_avg := double (sum_list ys) / double cnt,
          st_p50 := double (ys ! (unat cnt * 50 div 100)),
          st_p95 := double (ys ! (unat cnt * 95 div 100)),
          st_p99 := double (ys ! (unat cnt * 99 div 100))\<rparr>)"
proof -
  let ?lat = "ys @ drop (unat cnt) latencies"
  have l: "length ys = unat cnt" using n(3) by (simp add: ys)
  have s: "sum_loop ?lat cnt 0 0 = Some (sum_list ys)"
    using sum_loop_eq [of cnt ?lat 0 0] l by simp
  have p: "array_at ?lat (cnt * word_of_nat q div 100) = Some (ys ! (unat cnt * q div 100))" if "q < 100" for q
    using percentile_index [OF n(1,2) that, of cnt] l by (simp add: array_at_def nth_append)
  have c: "cnt \<noteq> 0" using n(1) by auto
  show ?thesis
    using p [of 50] p [of 95] p [of 99] s c n(3) by (simp add: calculate_stats_def Let_def flip: ys)
qed

lemma finish_stats_total:
  assumes "length latencies \<le> MAX_LATENCIES"
  shows "\<exists>stats'. finish_stats cpu_start cpu_end secs latencies stats = Some stats' \<and>
    st_ops stats' = st_ops stats \<and> st_bytes stats' = st_bytes stats"
proof (cases "latencies = []")
  case True
  then show ?thesis by (simp add: finish_stats_def calculate_stats_def)
next
  case False
  have u: "unat (word_of_nat (length latencies) :: u64) = length latencies"
    using assms by (simp add: unat_of_nat_u64 MAX_LATENCIES_def)
  show ?thesis
    using calculate_stats_eq [of "word_of_nat (length latencies)" latencies _
        "stats\<lparr>st_cpu_usage := (cpu_end - cpu_start) / (10000 * of_int secs)\<rparr>", OF _ _ _ HOL.refl]
      False assms u by (simp add: finish_stats_def)
qed

lemma run_report_total:
  assumes "length latencies \<le> MAX_LATENCIES"
  obtains st where "run_report cpu secs latencies ops bytes = Some st" "st_ops st = ops" "st_bytes st = bytes"
proof -
  obtain st where "finish_stats (fst cpu) (snd cpu) secs latencies (no_stats\<lparr>st_ops := ops, st_bytes := bytes\<rparr>) = Some st"
    "st_ops st = ops" "st_bytes st = bytes"
    using finish_stats_total [OF assms, of "fst cpu" "snd cpu" secs "no_stats\<lparr>st_ops := ops, st_bytes := bytes\<rparr>"] by auto
  then show thesis using that by (simp add: run_report_def)
qed

lemma run_report_percentiles:
  assumes "run_report cpu secs latencies ops bytes = Some st" "latencies \<noteq> []" "length latencies \<le> MAX_LATENCIES"
  shows "\<exists>p50 p95 p99. percentile_of 50 latencies p50 \<and> percentile_of 95 latencies p95 \<and> percentile_of 99 latencies p99 \<and>
    st_p50 st = double p50 \<and> st_p95 st = double p95 \<and> st_p99 st = double p99"
proof -
  let ?cnt = "word_of_nat (length latencies) :: u64"
  have u: "unat ?cnt = length latencies" using assms(3) by (simp add: unat_of_nat_u64 MAX_LATENCIES_def)
  define p where "p q = qsort cmp_uint64 latencies ! (length latencies * q div 100)" for q
  have "percentile_of q latencies (p q)" if "q < 100" for q
    using qsort_percentile [OF assms(2) that] by (simp add: p_def)
  moreover have "st_p50 st = double (p 50) \<and> st_p95 st = double (p 95) \<and> st_p99 st = double (p 99)"
    using assms calculate_stats_eq [of ?cnt latencies _ "no_stats\<lparr>st_ops := ops, st_bytes := bytes,
        st_cpu_usage := (snd cpu - fst cpu) / (10000 * of_int secs)\<rparr>", OF _ _ _ HOL.refl] u
    by (auto simp: run_report_def finish_stats_def p_def)
  ultimately show ?thesis by (intro exI [of _ "p 50"] exI [of _ "p 95"] exI [of _ "p 99"]) simp
qed

subsection \<open>Properties\<close>

text \<open>C35: the percentiles. For every number \<open>n\<close> of samples the benchmark can collect, at least one and at most
  \<open>MAX_LATENCIES\<close>, the indexed reads stay in the array; the array is sorted, with the same samples; and the
  percentile \<open>q\<close> is the sample with the index \<open>n * q / 100\<close>, rounded down and counted from 0, of the sorted
  samples: at most that many samples are smaller. That is one sample above the nearest rank when
  \<open>n * q / 100\<close> is an integer: of two samples the larger is reported as the median.\<close>

theorem stats_percentiles:
  assumes "0 < unat cnt" "unat cnt \<le> MAX_LATENCIES" "unat cnt \<le> length latencies"
  shows "\<exists>lat' stats' p50 p95 p99. calculate_stats latencies cnt stats = Some (lat', stats') \<and>
    sorted (take (unat cnt) lat') \<and> mset lat' = mset latencies \<and>
    drop (unat cnt) lat' = drop (unat cnt) latencies \<and>
    percentile_of 50 (take (unat cnt) latencies) p50 \<and> st_p50 stats' = double p50 \<and>
    percentile_of 95 (take (unat cnt) latencies) p95 \<and> st_p95 stats' = double p95 \<and>
    percentile_of 99 (take (unat cnt) latencies) p99 \<and> st_p99 stats' = double p99 \<and>
    p50 = sort (take (unat cnt) latencies) ! (unat cnt * 50 div 100) \<and>
    p95 = sort (take (unat cnt) latencies) ! (unat cnt * 95 div 100) \<and>
    p99 = sort (take (unat cnt) latencies) ! (unat cnt * 99 div 100) \<and>
    p50 \<le> p95 \<and> p95 \<le> p99"
proof -
  let ?n = "unat cnt" and ?xs = "take (unat cnt) latencies"
  define ys where "ys = qsort cmp_uint64 ?xs"
  have l: "length ?xs = ?n" "?xs \<noteq> []" "length ys = ?n" using assms by (auto simp: ys_def)
  have s: "sorted ys" by (simp add: ys_def sorted_qsort)
  define p where "p q = ys ! (?n * q div 100)" for q
  have r: "percentile_of q ?xs (p q)" if "q < 100" for q
    using qsort_percentile [OF l(2) that] l(1) by (simp add: ys_def p_def)
  have o: "p q \<le> p q'" if "q \<le> q'" "q' < 100" for q q'
    unfolding p_def using assms(1) that l(3)
    by (intro sorted_nth_mono [OF s] div_le_mono mult_le_mono) (simp_all add: less_mult_imp_div_less)
  have my: "mset ys = mset ?xs" by (simp add: ys_def)
  have st: "sort ?xs = ys" by (rule properties_for_sort [OF my s])
  from my have m: "mset (ys @ drop ?n latencies) = mset latencies"
    by (metis append_take_drop_id mset_append)
  have e: "calculate_stats latencies cnt stats = Some (ys @ drop ?n latencies,
      stats\<lparr>st_avg := double (sum_list ys) / double cnt, st_p50 := double (p 50),
            st_p95 := double (p 95), st_p99 := double (p 99)\<rparr>)"
    unfolding p_def by (rule calculate_stats_eq [OF assms ys_def])
  have i: "sort ?xs ! (?n * q div 100) = p q" for q by (simp only: st p_def)
  show ?thesis
    unfolding i using s l m by (simp add: e r o)
qed

text \<open>The average is exact when the 64-bit sum of the samples does not wrap around, and then it lies
  between the smallest and the largest sample; without samples nothing is stored.\<close>

theorem stats_average:
  assumes "0 < unat cnt" "unat cnt \<le> MAX_LATENCIES" "xs = take (unat cnt) latencies"
    and "unat cnt \<le> length latencies" "sum_list (map unat xs) < 2 ^ 64"
  shows "\<exists>lat' stats'. calculate_stats latencies cnt stats = Some (lat', stats') \<and>
    st_avg stats' = of_nat (sum_list (map unat xs)) / of_nat (length xs) \<and>
    double (Min (set xs)) \<le> st_avg stats' \<and> st_avg stats' \<le> double (Max (set xs)) \<and>
    calculate_stats latencies 0 stats = Some (latencies, stats)"
proof -
  let ?ys = "qsort cmp_uint64 xs" and ?S = "sum_list (map unat xs)"
  have l: "length xs = unat cnt" "xs \<noteq> []" using assms(1,3,4) by auto
  have "mset (map unat ?ys) = mset (map unat xs)" by simp
  then have "sum_list (map unat ?ys) = ?S" by (metis sum_mset_sum_list)
  then have "unat (sum_list ?ys) = ?S" using assms(5) unat_sum_list [of ?ys] by simp
  moreover have e: "calculate_stats latencies cnt stats = Some (?ys @ drop (unat cnt) latencies,
      stats\<lparr>st_avg := double (sum_list ?ys) / double cnt, st_p50 := double (?ys ! (unat cnt * 50 div 100)),
            st_p95 := double (?ys ! (unat cnt * 95 div 100)), st_p99 := double (?ys ! (unat cnt * 99 div 100))\<rparr>)"
    by (rule calculate_stats_eq [OF assms(1,2,4)]) (simp add: assms(3))
  moreover have "length xs * unat (Min (set xs)) \<le> ?S"
    using sum_list_mono [of xs "\<lambda>x. unat (Min (set xs))" unat]
    by (simp add: sum_list_triv word_le_nat_alt [symmetric])
  then have "of_nat (length xs) * (of_nat (unat (Min (set xs))) :: rat) \<le> of_nat ?S"
    by (metis of_nat_le_iff of_nat_mult)
  moreover have "?S \<le> length xs * unat (Max (set xs))"
    using sum_list_mono [of xs unat "\<lambda>x. unat (Max (set xs))"]
    by (simp add: sum_list_triv word_le_nat_alt [symmetric])
  then have "of_nat ?S \<le> of_nat (length xs) * (of_nat (unat (Max (set xs))) :: rat)"
    by (metis of_nat_le_iff of_nat_mult)
  moreover have "(0 :: rat) < of_nat (length xs)" using l(2) by simp
  ultimately show ?thesis
    using l by (simp add: double_def field_simps calculate_stats_def del: of_nat_unat)
qed

text \<open>The rates. \<open>print_stats\<close> divides by \<open>RUN_DURATION\<close>, not by the duration of the run: after a run of
  \<open>secs\<close> seconds the printed rates are the true ones exactly when \<open>secs\<close> is ten (or nothing was done).\<close>

theorem print_stats_rates:
  assumes "0 < secs"
  shows "(map_of (print_stats stats) ''Operations per second'' = Some (double (st_ops stats) / of_int secs)
      \<longleftrightarrow> secs = 10 \<or> st_ops stats = 0) \<and>
    (map_of (print_stats stats) ''Throughput'' = Some (double (st_bytes stats) / (1048576 * of_int secs))
      \<longleftrightarrow> secs = 10 \<or> st_bytes stats = 0)"
proof -
  have q: "(x / 10 = x / of_int secs) = (secs = 10 \<or> x = 0)" for x :: rat
    using assms by (auto simp: field_simps)
  have "(x / (1048576 * 10) = x / (1048576 * of_int secs)) = (secs = 10 \<or> x = 0)" for x :: rat
    using q [of x] assms by (auto simp: field_simps)
  then show ?thesis using q by (auto simp: print_stats_def RUN_DURATION_def)
qed

text \<open>The clock. As long as the microseconds since boot fit into 64 bits the timestamp is their exact
  number and later readings of the monotonic clock give later timestamps, so that the latency a client
  computes, a 64-bit difference, is the elapsed time.\<close>

theorem timestamp_exact:
  assumes "0 \<le> s1" "0 \<le> n1" "n1 < 1000000000" "0 \<le> n2" "n2 < 1000000000"
    and "s1 < s2 \<or> s1 = s2 \<and> n1 \<le> n2" "s2 < 18446744073709"
  shows "uint (get_timestamp_us s1 n1) = s1 * 1000000 + n1 div 1000 \<and>
    get_timestamp_us s1 n1 \<le> get_timestamp_us s2 n2 \<and>
    uint (get_timestamp_us s2 n2 - get_timestamp_us s1 n1)
      = (s2 * 1000000 + n2 div 1000) - (s1 * 1000000 + n1 div 1000)"
proof -
  have u: "uint (get_timestamp_us s n) = s * 1000000 + n div 1000"
    if "0 \<le> s" "0 \<le> n" "n < 1000000000" "s < 18446744073709" for s n
  proof -
    have "get_timestamp_us s n = word_of_int (s * 1000000 + n div 1000)"
      using that by (cases "n = 0") (simp_all add: get_timestamp_us_def signed_divide_int_def)
    then have "uint (get_timestamp_us s n) = (s * 1000000 + n div 1000) mod 2 ^ 64"
      by (simp only: uint_word_of_int) simp
    moreover have "0 \<le> s * 1000000 + n div 1000" "s * 1000000 + n div 1000 < 2 ^ 64" using that by simp_all
    ultimately show ?thesis by simp
  qed
  have a: "uint (get_timestamp_us s1 n1) = s1 * 1000000 + n1 div 1000" using assms by (intro u) auto
  have b: "uint (get_timestamp_us s2 n2) = s2 * 1000000 + n2 div 1000" using assms by (intro u) auto
  have le: "s1 * 1000000 + n1 div 1000 \<le> s2 * 1000000 + n2 div 1000"
  proof (cases "s1 = s2")
    case True
    then show ?thesis using assms(6) by (simp add: zdiv_mono1)
  next
    case False
    then show ?thesis using assms by (simp add: div_le_dividend) 
  qed
  then have "get_timestamp_us s1 n1 \<le> get_timestamp_us s2 n2" by (simp add: word_le_def a b)
  then show ?thesis using a b by (simp add: uint_minus_simple_alt)
qed

theorem stats_percentiles_witness:
  "\<exists>lat' stats'. calculate_stats [30, 10, 20, 7] 2 no_stats = Some (lat', stats') \<and>
    mset lat' = {#30, 10, 20, 7#} \<and> st_p50 stats' = 30 \<and> st_p99 stats' = 30"
proof -
  have "unat (2 :: u64) = 2" "take 2 [30, 10, 20, 7] = [30, 10 :: u64]" by simp_all
  then show ?thesis
    using stats_percentiles [of 2 "[30, 10, 20, 7]" no_stats] by (auto simp: MAX_LATENCIES_def double_def)
qed

theorem stats_average_witness:
  "\<exists>lat' stats'. calculate_stats [30, 10, 20, 7] 3 no_stats = Some (lat', stats') \<and> st_avg stats' = 20"
proof -
  have "unat (3 :: u64) = 3" "take 3 [30, 10, 20, 7] = [30, 10, 20 :: u64]" by simp_all
  then show ?thesis
    using stats_average [of 3 "[30, 10, 20]" "[30, 10, 20, 7]" no_stats] by (auto simp: MAX_LATENCIES_def)
qed

theorem print_stats_rates_witness:
  "map_of (print_stats (no_stats\<lparr>st_ops := 100\<rparr>)) ''Operations per second'' \<noteq> Some (100 / 20)"
  using print_stats_rates [of 20 "no_stats\<lparr>st_ops := 100\<rparr>"] by (simp add: double_def)

theorem timestamp_exact_witness:
  "uint (get_timestamp_us 7 1500 - get_timestamp_us 6 999999999) = 2"
  using timestamp_exact [of 6 999999999 1500 7] by simp

end
