(* ===== verification/Lfshm_Blocking.thy ===== *)
theory Lfshm_Blocking
  imports Ring_Buffer Messages Futex Echo_Protocol Statistics
begin

section \<open>Lock-free shared memory, blocking (lfshm\_blocking.h, lfshm\_blocking.c)\<close>

text \<open>
  The ring struct and its operations, then the two processes as step functions over one shared
  state: every atomic access, ring operation and futex call of \<open>setup_lfshm_blocking\<close>,
  \<open>run_lfshm_blocking_server\<close>, \<open>run_lfshm_blocking_client\<close> and \<open>free_lfshm_blocking_server\<close> is one step.
  A ring operation takes effect in the step that leaves it; the theorem that the two processes are
  never inside ring operations together (\<open>Lfshm_Blocking_Proofs\<close>) is what allows that.
\<close>

subsection \<open>The ring struct\<close>

record LockFreeBlockingRingBuffer =
  lb_write_pos :: u32
  lb_server_futex :: u32
  lb_read_pos :: u32
  lb_client_futex :: u32
  lb_size :: u64
  lb_ready :: bool
  lb_message_available :: bool
  lb_response_available :: bool
  lb_buffer :: bytes

definition lb_ring_buffer_read ::
  "LockFreeBlockingRingBuffer \<Rightarrow> bytes \<Rightarrow> u64
     \<Rightarrow> (bool \<times> LockFreeBlockingRingBuffer \<times> bytes \<times> u64) option" where
  "lb_ring_buffer_read rb data max_len =
     map_option (\<lambda>(ok, rp, data', n). (ok, rb\<lparr>lb_read_pos := rp\<rparr>, data', n))
       (ring32_read (lb_buffer rb) (lb_size rb) (lb_read_pos rb) (lb_write_pos rb) data max_len)"

definition lb_ring_buffer_write ::
  "LockFreeBlockingRingBuffer \<Rightarrow> bytes \<Rightarrow> u64 \<Rightarrow> (bool \<times> LockFreeBlockingRingBuffer) option" where
  "lb_ring_buffer_write rb data len =
     map_option (\<lambda>(ok, buf, wp). (ok, rb\<lparr>lb_buffer := buf, lb_write_pos := wp\<rparr>))
       (ring32_write (lb_buffer rb) (lb_size rb) (lb_read_pos rb) (lb_write_pos rb) data len)"

text \<open>The messages in the ring. The capacity is at least \<open>MAX_MSG_SIZE\<close>, so that a length below the
  limit is below the capacity, and at most \<open>2 ^ 31\<close>, so that 32-bit positions do not wrap.\<close>

definition lb_capacity_ok :: "LockFreeBlockingRingBuffer \<Rightarrow> bool" where
  "lb_capacity_ok rb \<longleftrightarrow> unat MAX_MSG_SIZE \<le> unat (lb_size rb) \<and> unat (lb_size rb) \<le> 2 ^ 31"

definition lb_holds :: "LockFreeBlockingRingBuffer \<Rightarrow> bytes list \<Rightarrow> bool" where
  "lb_holds rb ms \<longleftrightarrow> lb_capacity_ok rb \<and>
     ring_holds (lb_buffer rb) (lb_size rb) (ucast (lb_read_pos rb)) (ucast (lb_write_pos rb)) ms"

definition lb_room :: "LockFreeBlockingRingBuffer \<Rightarrow> nat \<Rightarrow> bool" where
  "lb_room rb n \<longleftrightarrow>
     ring_fits (lb_size rb) (ring_used (lb_size rb) (ucast (lb_read_pos rb)) (ucast (lb_write_pos rb))) n"

subsection \<open>The processes' states\<close>

text \<open>The server: the stores of \<open>setup_lfshm_blocking\<close> in their order, the benchmark loop, then
  \<open>free_lfshm_blocking_server\<close>. \<open>S_crash\<close> is an access outside a block.\<close>

datatype lb_server_pc =
    SI_size | SI_read_pos | SI_write_pos | SI_server_futex | SI_client_futex
  | SI_ready | SI_message | SI_response
  | S_malloc | S_loop | S_wait wait_pc | S_read | S_clear | S_validate | S_write
  | S_signal signal_pc
  | F_ready | F_client signal_pc | F_server signal_pc | F_unmap | S_done | S_crash

datatype lb_client_pc =
    CI_ready
  | C_malloc | C_loop | C_build | C_write | C_signal signal_pc | C_check | C_wait wait_pc
  | C_read | C_clear | C_account | C_stats | C_done | C_crash

text \<open>\<open>g_sent\<close>, \<open>g_served\<close> and \<open>g_rcvd\<close> are histories no step reads: the messages the client put in
  the ring, those the server took out, and those the client took out.\<close>

record lb_state =
  ring :: LockFreeBlockingRingBuffer
  clock :: u64
  s_pc :: lb_server_pc
  s_end :: u64
  s_buf :: bytes
  s_msg_size :: u64
  c_pc :: lb_client_pc
  c_end :: u64
  c_buf :: bytes
  c_msg_size :: u64
  c_ops :: u64
  c_bytes :: u64
  c_lat :: "u64 list"
  c_report :: "BenchmarkStats option"
  g_sent :: "bytes list"
  g_served :: "bytes list"
  g_rcvd :: "bytes list"

text \<open>What the command line fixes, the capacity asked for and the two durations; and the readings of
  \<open>get_cpu_usage\<close> at the start and the end of the client's run.\<close>

record lb_params =
  p_size :: u64
  p_server_secs :: int
  p_client_secs :: int
  p_cpu :: "rat \<times> rat"

abbreviation (input) duration_us :: "int \<Rightarrow> u64" where
  "duration_us secs \<equiv> word_of_int secs * 1000000"

definition client_waiter :: "lb_state \<Rightarrow> wait_pc option" where
  "client_waiter s = (case c_pc s of C_wait w \<Rightarrow> Some w | _ \<Rightarrow> None)"

definition server_waiter :: "lb_state \<Rightarrow> wait_pc option" where
  "server_waiter s = (case s_pc s of S_wait w \<Rightarrow> Some w | _ \<Rightarrow> None)"

definition set_client_waiter :: "wait_pc option \<Rightarrow> lb_state \<Rightarrow> lb_state" where
  "set_client_waiter w s = (case w of Some w' \<Rightarrow> s\<lparr>c_pc := C_wait w'\<rparr> | None \<Rightarrow> s)"

definition set_server_waiter :: "wait_pc option \<Rightarrow> lb_state \<Rightarrow> lb_state" where
  "set_server_waiter w s = (case w of Some w' \<Rightarrow> s\<lparr>s_pc := S_wait w'\<rparr> | None \<Rightarrow> s)"

text \<open>One step of \<open>futex_signal_atomic_bool\<close> towards the client (\<open>client_futex\<close> and
  \<open>response_available\<close>) and towards the server (\<open>server_futex\<close> and \<open>message_available\<close>), with the place
  the signaller goes to next.\<close>

definition signal_client :: "signal_pc \<Rightarrow> lb_state \<Rightarrow> signal_pc option \<times> lb_state" where
  "signal_client g s =
     (let (cond, word, w, g') = futex_signal_step (lb_response_available (ring s))
            (lb_client_futex (ring s)) (client_waiter s) g
      in (g', set_client_waiter w
            (s\<lparr>ring := (ring s)\<lparr>lb_response_available := cond, lb_client_futex := word\<rparr>\<rparr>)))"

definition signal_server :: "signal_pc \<Rightarrow> lb_state \<Rightarrow> signal_pc option \<times> lb_state" where
  "signal_server g s =
     (let (cond, word, w, g') = futex_signal_step (lb_message_available (ring s))
            (lb_server_futex (ring s)) (server_waiter s) g
      in (g', set_server_waiter w
            (s\<lparr>ring := (ring s)\<lparr>lb_message_available := cond, lb_server_futex := word\<rparr>\<rparr>)))"

subsection \<open>The server process\<close>

text \<open>The initialising stores of \<open>setup_lfshm_blocking\<close>, server side, in program order: \<open>ready\<close> is set
  before the two flags are cleared.\<close>

fun lb_setup_step :: "lb_params \<Rightarrow> lb_server_pc \<Rightarrow> LockFreeBlockingRingBuffer
    \<Rightarrow> LockFreeBlockingRingBuffer \<times> lb_server_pc" where
  "lb_setup_step p SI_size rb = (rb\<lparr>lb_size := p_size p\<rparr>, SI_read_pos)"
| "lb_setup_step p SI_read_pos rb = (rb\<lparr>lb_read_pos := 0\<rparr>, SI_write_pos)"
| "lb_setup_step p SI_write_pos rb = (rb\<lparr>lb_write_pos := 0\<rparr>, SI_server_futex)"
| "lb_setup_step p SI_server_futex rb = (rb\<lparr>lb_server_futex := 0\<rparr>, SI_client_futex)"
| "lb_setup_step p SI_client_futex rb = (rb\<lparr>lb_client_futex := 0\<rparr>, SI_ready)"
| "lb_setup_step p SI_ready rb = (rb\<lparr>lb_ready := True\<rparr>, SI_message)"
| "lb_setup_step p SI_message rb = (rb\<lparr>lb_message_available := False\<rparr>, SI_response)"
| "lb_setup_step p SI_response rb = (rb\<lparr>lb_response_available := False\<rparr>, S_malloc)"
| "lb_setup_step p pc rb = (rb, pc)"

text \<open>\<open>run_lfshm_blocking_server\<close>. \<open>alloc\<close> says whether \<open>malloc\<close> returned a block. A validation failure
  is only reported; simulated work takes time and nothing else. \<open>None\<close>: the process cannot move.\<close>

definition lb_server_step :: "lb_params \<Rightarrow> bool \<Rightarrow> lb_state \<Rightarrow> lb_state option" where
  "lb_server_step p alloc s =
     (case s_pc s of
        S_malloc \<Rightarrow>
          if \<not> alloc then Some (s\<lparr>s_pc := F_ready\<rparr>)
          else Some (s\<lparr>s_pc := S_loop, s_end := clock s + duration_us (p_server_secs p)\<rparr>)
      | S_loop \<Rightarrow>
          Some (s\<lparr>s_pc := if clock s < s_end s then S_wait W_cond else F_ready\<rparr>)
      | S_wait w \<Rightarrow>
          (case futex_wait_step (lb_message_available (ring s)) (lb_server_futex (ring s)) w of
             Continue w' \<Rightarrow> Some (s\<lparr>s_pc := S_wait w'\<rparr>)
           | Return \<Rightarrow> Some (s\<lparr>s_pc := S_read\<rparr>)
           | Blocked \<Rightarrow> None)
      | S_read \<Rightarrow>
          (case lb_ring_buffer_read (ring s) (s_buf s) MAX_MSG_SIZE of
             None \<Rightarrow> Some (s\<lparr>s_pc := S_crash\<rparr>)
           | Some (ok, rb, buf, n) \<Rightarrow>
               let s' = s\<lparr>ring := rb, s_buf := buf, s_msg_size := n\<rparr>
               in Some (if ok
                        then s'\<lparr>s_pc := S_clear, g_served := g_served s @ [take (unat n) buf]\<rparr>
                        else s'\<lparr>s_pc := S_loop\<rparr>))
      | S_clear \<Rightarrow>
          Some (s\<lparr>ring := (ring s)\<lparr>lb_message_available := False\<rparr>, s_pc := S_validate\<rparr>)
      | S_validate \<Rightarrow>
          (case validate_message (s_buf s) (s_msg_size s) of
             None \<Rightarrow> Some (s\<lparr>s_pc := S_crash\<rparr>)
           | Some _ \<Rightarrow> Some (s\<lparr>s_pc := S_write\<rparr>))
      | S_write \<Rightarrow>
          (case lb_ring_buffer_write (ring s) (s_buf s) (s_msg_size s) of
             None \<Rightarrow> Some (s\<lparr>s_pc := S_crash\<rparr>)
           | Some (ok, rb) \<Rightarrow>
               Some (s\<lparr>ring := rb, s_pc := if ok then S_signal G_store else S_loop\<rparr>))
      | S_signal g \<Rightarrow>
          (case signal_client g s of
             (Some g', s') \<Rightarrow> Some (s'\<lparr>s_pc := S_signal g'\<rparr>)
           | (None, s') \<Rightarrow> Some (s'\<lparr>s_pc := S_loop\<rparr>))
      | _ \<Rightarrow> None)"

text \<open>\<open>free_lfshm_blocking_server\<close>: \<open>ready\<close>, the signals to both sides, the unmapping.\<close>

definition lb_free_server_step :: "lb_state \<Rightarrow> lb_state option" where
  "lb_free_server_step s =
     (case s_pc s of
        F_ready \<Rightarrow> Some (s\<lparr>ring := (ring s)\<lparr>lb_ready := False\<rparr>, s_pc := F_client G_store\<rparr>)
      | F_client g \<Rightarrow>
          (case signal_client g s of
             (Some g', s') \<Rightarrow> Some (s'\<lparr>s_pc := F_client g'\<rparr>)
           | (None, s') \<Rightarrow> Some (s'\<lparr>s_pc := F_server G_store\<rparr>))
      | F_server g \<Rightarrow>
          (case signal_server g s of
             (Some g', s') \<Rightarrow> Some (s'\<lparr>s_pc := F_server g'\<rparr>)
           | (None, s') \<Rightarrow> Some (s'\<lparr>s_pc := F_unmap\<rparr>))
      | F_unmap \<Rightarrow> Some (s\<lparr>s_pc := S_done\<rparr>)
      | _ \<Rightarrow> None)"

definition in_setup :: "lb_server_pc \<Rightarrow> bool" where
  "in_setup pc \<longleftrightarrow> pc \<in> {SI_size, SI_read_pos, SI_write_pos, SI_server_futex, SI_client_futex,
                         SI_ready, SI_message, SI_response}"

fun in_free :: "lb_server_pc \<Rightarrow> bool" where
  "in_free F_ready = True"
| "in_free (F_client g) = True"
| "in_free (F_server g) = True"
| "in_free F_unmap = True"
| "in_free pc = False"

text \<open>The server process of \<open>main\<close>: setup, run, free.\<close>

definition lb_server_move :: "lb_params \<Rightarrow> bool \<Rightarrow> lb_state \<Rightarrow> lb_state option" where
  "lb_server_move p alloc s =
     (if in_setup (s_pc s)
      then let (rb, pc) = lb_setup_step p (s_pc s) (ring s) in Some (s\<lparr>ring := rb, s_pc := pc\<rparr>)
      else if in_free (s_pc s) then lb_free_server_step s
      else lb_server_step p alloc s)"

subsection \<open>The client process\<close>

text \<open>\<open>CI_ready\<close> is the polling loop of \<open>setup_lfshm_blocking\<close>, client side.\<close>

definition lb_client_setup_step :: "lb_state \<Rightarrow> lb_state option" where
  "lb_client_setup_step s =
     (case c_pc s of
        CI_ready \<Rightarrow> Some (if lb_ready (ring s) then s\<lparr>c_pc := C_malloc\<rparr> else s)
      | _ \<Rightarrow> None)"

text \<open>\<open>run_lfshm_blocking_client\<close>. \<open>rnd\<close> is the value \<open>rand()\<close> returns; the two clock readings around
  \<open>random_message\<close> are one step, because the second overwrites the first in the message. A failed
  read is only reported: the accounting that follows runs in any case.\<close>

definition lb_client_step :: "lb_params \<Rightarrow> bool \<Rightarrow> int \<Rightarrow> lb_state \<Rightarrow> lb_state option" where
  "lb_client_step p alloc rnd s =
     (case c_pc s of
        C_malloc \<Rightarrow>
          if \<not> alloc then Some (s\<lparr>c_pc := C_done\<rparr>)
          else (case store32 (c_buf s) off_seq 0 of
                  None \<Rightarrow> Some (s\<lparr>c_pc := C_crash\<rparr>)
                | Some buf \<Rightarrow>
                    Some (s\<lparr>c_buf := buf, c_ops := 0, c_bytes := 0, c_lat := [],
                            c_end := clock s + duration_us (p_client_secs p), c_pc := C_loop\<rparr>))
      | C_loop \<Rightarrow> Some (s\<lparr>c_pc := if clock s < c_end s then C_build else C_stats\<rparr>)
      | C_build \<Rightarrow>
          (case next_request rnd (clock s) (c_buf s) of
             None \<Rightarrow> Some (s\<lparr>c_pc := C_crash\<rparr>)
           | Some buf \<Rightarrow> Some (s\<lparr>c_buf := buf, c_pc := C_write\<rparr>))
      | C_write \<Rightarrow>
          (case load32 (c_buf s) off_size \<bind>
                  (\<lambda>n. lb_ring_buffer_write (ring s) (c_buf s) (ucast n) \<bind>
                    (\<lambda>(ok, rb). Some (n, ok, rb))) of
             None \<Rightarrow> Some (s\<lparr>c_pc := C_crash\<rparr>)
           | Some (n, ok, rb) \<Rightarrow>
               Some (if ok
                     then s\<lparr>ring := rb, c_pc := C_signal G_store,
                            g_sent := g_sent s @ [take (unat n) (c_buf s)]\<rparr>
                     else s\<lparr>ring := rb, c_pc := C_stats\<rparr>))
      | C_signal g \<Rightarrow>
          (case signal_server g s of
             (Some g', s') \<Rightarrow> Some (s'\<lparr>c_pc := C_signal g'\<rparr>)
           | (None, s') \<Rightarrow> Some (s'\<lparr>c_pc := C_check\<rparr>))
      | C_check \<Rightarrow> Some (s\<lparr>c_pc := if lb_ready (ring s) then C_wait W_cond else C_stats\<rparr>)
      | C_wait w \<Rightarrow>
          (case futex_wait_step (lb_response_available (ring s)) (lb_client_futex (ring s)) w of
             Continue w' \<Rightarrow> Some (s\<lparr>c_pc := C_wait w'\<rparr>)
           | Return \<Rightarrow> Some (s\<lparr>c_pc := C_read\<rparr>)
           | Blocked \<Rightarrow> None)
      | C_read \<Rightarrow>
          (case lb_ring_buffer_read (ring s) (c_buf s) MAX_MSG_SIZE of
             None \<Rightarrow> Some (s\<lparr>c_pc := C_crash\<rparr>)
           | Some (ok, rb, buf, n) \<Rightarrow>
               let s' = s\<lparr>ring := rb, c_buf := buf, c_msg_size := n, c_pc := C_clear\<rparr>
               in Some (if ok then s'\<lparr>g_rcvd := g_rcvd s @ [take (unat n) buf]\<rparr> else s'))
      | C_clear \<Rightarrow>
          Some (s\<lparr>ring := (ring s)\<lparr>lb_response_available := False\<rparr>, c_pc := C_account\<rparr>)
      | C_account \<Rightarrow>
          (case validate_message (c_buf s) (c_msg_size s) \<bind>
                  (\<lambda>_. load64 (c_buf s) off_timestamp) of
             None \<Rightarrow> Some (s\<lparr>c_pc := C_crash\<rparr>)
           | Some sent_at \<Rightarrow>
               Some (s\<lparr>c_lat := if length (c_lat s) < MAX_LATENCIES
                                 then c_lat s @ [clock s - sent_at] else c_lat s,
                       c_ops := c_ops s + 1, c_bytes := c_bytes s + c_msg_size s,
                       c_pc := C_loop\<rparr>))
      | C_stats \<Rightarrow>
          (case run_report (p_cpu p) (p_client_secs p) (c_lat s) (c_ops s) (c_bytes s) of
             None \<Rightarrow> Some (s\<lparr>c_pc := C_crash\<rparr>)
           | Some st \<Rightarrow> Some (s\<lparr>c_report := Some st, c_pc := C_done\<rparr>))
      | _ \<Rightarrow> None)"

definition lb_client_move :: "lb_params \<Rightarrow> bool \<Rightarrow> int \<Rightarrow> lb_state \<Rightarrow> lb_state option" where
  "lb_client_move p alloc rnd s =
     (if c_pc s = CI_ready then lb_client_setup_step s else lb_client_step p alloc rnd s)"

subsection \<open>The system\<close>

text \<open>One process moves, the clock advances (it never runs backwards), or a sleeper wakes without a
  wake-up call. \<open>rand()\<close> is never negative.\<close>

inductive lb_step :: "lb_params \<Rightarrow> lb_state \<Rightarrow> lb_state \<Rightarrow> bool" for p where
  server: "lb_server_move p alloc s = Some t \<Longrightarrow> lb_step p s t"
| client: "0 \<le> rnd \<Longrightarrow> lb_client_move p alloc rnd s = Some t \<Longrightarrow> lb_step p s t"
| tick: "clock s \<le> now \<Longrightarrow> lb_step p s (s\<lparr>clock := now\<rparr>)"
| spurious_server: "s_pc s = S_wait W_asleep \<Longrightarrow> lb_step p s (s\<lparr>s_pc := S_wait W_cond\<rparr>)"
| spurious_client: "c_pc s = C_wait W_asleep \<Longrightarrow> lb_step p s (s\<lparr>c_pc := C_wait W_cond\<rparr>)"

inductive_cases lb_stepE: "lb_step p s t"

text \<open>The fresh mapping: zero-filled by \<open>ftruncate\<close>, the server about to initialise it, the client
  polling \<open>ready\<close>. The blocks \<open>malloc\<close> will return have their size and arbitrary contents.\<close>

definition lb_zero :: "nat \<Rightarrow> LockFreeBlockingRingBuffer" where
  "lb_zero n = \<lparr>lb_write_pos = 0, lb_server_futex = 0, lb_read_pos = 0, lb_client_futex = 0,
     lb_size = 0, lb_ready = False, lb_message_available = False, lb_response_available = False,
     lb_buffer = replicate n 0\<rparr>"

definition lb_fresh :: "lb_state \<Rightarrow> bool" where
  "lb_fresh s \<longleftrightarrow> length (s_buf s) = unat MAX_MSG_SIZE \<and> length (c_buf s) = unat MAX_MSG_SIZE \<and>
     c_ops s = 0 \<and> c_bytes s = 0 \<and> c_lat s = [] \<and>
     g_sent s = [] \<and> g_served s = [] \<and> g_rcvd s = [] \<and> c_pc s = CI_ready"

definition lb_boot :: "lb_params \<Rightarrow> lb_state \<Rightarrow> bool" where
  "lb_boot p s \<longleftrightarrow> lb_fresh s \<and> s_pc s = SI_size \<and> ring s = lb_zero (unat (p_size p))"

text \<open>The state in which the server has finished its setup before the client looks.\<close>

definition lb_up :: "lb_params \<Rightarrow> lb_state \<Rightarrow> bool" where
  "lb_up p s \<longleftrightarrow> lb_fresh s \<and> s_pc s = S_malloc \<and>
     ring s = (lb_zero (unat (p_size p)))\<lparr>lb_size := p_size p, lb_ready := True\<rparr>"

subsection \<open>The ring is a message queue\<close>

text \<open>The ring operations through the equivalence with 64-bit positions.\<close>

lemma ring_wf_small: "ring_wf buf sz rp wp \<Longrightarrow> unat sz \<le> 2 ^ 31 \<Longrightarrow> unat rp < 2 ^ 32 \<and> unat wp < 2 ^ 32"
  by (auto simp: ring_wf_def)

lemma lb_write_ok:
  assumes h: "lb_holds rb ms" and fit: "lb_room rb (unat len)" and len: "unat len \<le> length data"
  shows "\<exists>buf wp. lb_ring_buffer_write rb data len
             = Some (True, rb\<lparr>lb_buffer := buf, lb_write_pos := wp\<rparr>) \<and>
           lb_holds (rb\<lparr>lb_buffer := buf, lb_write_pos := wp\<rparr>) (ms @ [take (unat len) data])"
proof -
  have hh: "ring_holds (lb_buffer rb) (lb_size rb) (ucast (lb_read_pos rb)) (ucast (lb_write_pos rb)) ms"
    and cap: "lb_capacity_ok rb"
    using h by (auto simp: lb_holds_def)
  have sz: "unat (lb_size rb) < 2 ^ 32"
    using cap by (simp add: lb_capacity_ok_def)
  have len32: "unat len < 2 ^ 32"
    using fit sz by (auto simp: lb_room_def ring_fits_def)
  obtain buf wp where w: "ring64_write (lb_buffer rb) (lb_size rb) (ucast (lb_read_pos rb))
        (ucast (lb_write_pos rb)) data len = Some (True, buf, wp)"
    and h': "ring_holds buf (lb_size rb) (ucast (lb_read_pos rb)) wp (ms @ [take (unat len) data])"
    using ring64_write_ok [OF hh fit [unfolded lb_room_def] len len32] by blast
  have "(ucast (ucast wp :: u32) :: u64) = wp"
    using ring_holds_wf [OF h'] sz by (intro ucast_64_32_64) (auto simp: ring_wf_def)
  then show ?thesis
    using h' cap ring32_write_eq64 [OF ring_holds_wf [OF hh] sz len] w
    by (intro exI [of _ buf] exI [of _ "ucast wp"])
      (simp add: lb_ring_buffer_write_def lb_holds_def lb_capacity_ok_def)
qed

lemma lb_write_full:
  assumes h: "lb_holds rb ms" and fit: "\<not> lb_room rb (unat len)" and len: "unat len \<le> length data"
  shows "lb_ring_buffer_write rb data len = Some (False, rb)"
proof -
  have hh: "ring_holds (lb_buffer rb) (lb_size rb) (ucast (lb_read_pos rb)) (ucast (lb_write_pos rb)) ms"
    and sz: "unat (lb_size rb) < 2 ^ 32"
    using h by (auto simp: lb_holds_def lb_capacity_ok_def)
  show ?thesis
    using ring64_write_full [OF hh _ len] fit ring32_write_eq64 [OF ring_holds_wf [OF hh] sz len]
    by (simp add: lb_ring_buffer_write_def lb_room_def)
qed

lemma lb_read_via64:
  assumes "lb_holds rb ms"
  shows "ring32_read (lb_buffer rb) (lb_size rb) (lb_read_pos rb) (lb_write_pos rb) data max_len =
     map_option (apsnd (apfst ucast)) (ring64_read (lb_buffer rb) (lb_size rb)
       (ucast (lb_read_pos rb)) (ucast (lb_write_pos rb)) data max_len)"
proof -
  have hh: "ring_holds (lb_buffer rb) (lb_size rb) (ucast (lb_read_pos rb)) (ucast (lb_write_pos rb)) ms"
    and sz: "4 \<le> unat (lb_size rb)" "unat (lb_size rb) \<le> 2 ^ 31"
    using assms by (auto simp: lb_holds_def lb_capacity_ok_def MAX_MSG_SIZE_def)
  show ?thesis
  proof (cases ms)
    case Nil
    then have "(ucast (lb_read_pos rb) :: u64) = ucast (lb_write_pos rb)"
      using ring_holds_Nil_iff [OF hh] by simp
    then show ?thesis
      by (simp add: ring32_read_def ring64_read_def word_eq_unat)
  next
    case (Cons m ns)
    then show ?thesis
      using ring_holds_get [OF hh [unfolded Cons]] sz
      by (intro ring32_read_eq64 [OF ring_holds_wf [OF hh]]) simp_all
  qed
qed

lemma lb_read_empty:
  assumes "lb_holds rb []"
  shows "lb_ring_buffer_read rb data max_len = Some (False, rb, data, 0)"
  using assms lb_read_via64 [OF assms, of data max_len] ring64_read_empty
  by (simp add: lb_ring_buffer_read_def lb_holds_def)

lemma lb_read_ok:
  assumes h: "lb_holds rb (m # ms)" and "length m \<le> unat max_len" "length m \<le> length data"
  shows "\<exists>rp. lb_ring_buffer_read rb data max_len
             = Some (True, rb\<lparr>lb_read_pos := rp\<rparr>, m @ drop (length m) data, word_of_nat (length m)) \<and>
           lb_holds (rb\<lparr>lb_read_pos := rp\<rparr>) ms"
proof -
  have hh: "ring_holds (lb_buffer rb) (lb_size rb) (ucast (lb_read_pos rb)) (ucast (lb_write_pos rb)) (m # ms)"
    and cap: "lb_capacity_ok rb" "unat (lb_size rb) < 2 ^ 32"
    using h by (auto simp: lb_holds_def lb_capacity_ok_def)
  obtain rp where r: "ring64_read (lb_buffer rb) (lb_size rb) (ucast (lb_read_pos rb))
        (ucast (lb_write_pos rb)) data max_len
        = Some (True, rp, m @ drop (length m) data, word_of_nat (length m))"
    and h': "ring_holds (lb_buffer rb) (lb_size rb) rp (ucast (lb_write_pos rb)) ms"
    using ring64_read_ok [OF hh assms(2,3)] by blast
  have "(ucast (ucast rp :: u32) :: u64) = rp"
    using ring_holds_wf [OF h'] cap(2) by (intro ucast_64_32_64) (auto simp: ring_wf_def)
  then show ?thesis
    using h' cap r lb_read_via64 [OF h, of data max_len]
    by (auto simp: lb_ring_buffer_read_def lb_holds_def lb_capacity_ok_def)
qed

lemma lb_read_big:
  assumes h: "lb_holds rb (m # ms)" and "unat max_len < length m"
  shows "lb_ring_buffer_read rb data max_len = Some (False, rb, data, 0)"
proof -
  have hh: "ring_holds (lb_buffer rb) (lb_size rb) (ucast (lb_read_pos rb)) (ucast (lb_write_pos rb)) (m # ms)"
    using h by (simp add: lb_holds_def)
  show ?thesis
    using lb_read_via64 [OF h, of data max_len] ring64_read_big [OF hh assms(2)]
    by (simp add: lb_ring_buffer_read_def)
qed

interpretation lbq: message_queue lb_ring_buffer_read lb_ring_buffer_write lb_holds lb_room
  by unfold_locales
    (use lb_write_ok lb_write_full lb_read_empty lb_read_ok lb_read_big in \<open>fast+\<close>)

subsection \<open>Properties\<close>

text \<open>C4: first in, first out. Whatever sequence of messages \<open>ring_buffer_write\<close> accepted into an empty
  ring, \<open>ring_buffer_read\<close> returns them unchanged and in order, wherever the frames wrap, and leaves
  the ring empty.\<close>

theorem lb_fifo:
  assumes "lb_holds rb []" "write_all lb_ring_buffer_write rb ns = Some rb'"
    and "\<forall>m \<in> set ns. length m < 2 ^ 32 \<and> length m \<le> unat max_len \<and> length m \<le> length blk"
  shows "\<exists>rb''. read_all lb_ring_buffer_read max_len blk (length ns) rb' = Some (ns, rb'') \<and> lb_holds rb'' []"
  by (rule lbq.fifo [OF assms])

text \<open>A message longer than the reader's limit is never taken out: from then on every run of reads
  fails.\<close>

theorem lb_oversized_blocks:
  assumes "lb_holds rb (m # ms)" "unat max_len < length m"
  shows "read_all lb_ring_buffer_read max_len blk (Suc n) rb = None \<and>
    lb_ring_buffer_read rb blk max_len = Some (False, rb, blk, 0)"
  using lbq.read_big_blocks [OF assms] lbq.read_big [OF assms] by simp

lemma lb_ring_128k:
  defines "rb \<equiv> (lb_zero (2 ^ 17))\<lparr>lb_size := 2 ^ 17\<rparr>"
  shows "lb_holds rb []" "n \<le> 2 ^ 16 \<Longrightarrow> lb_room rb n"
  by (auto simp: rb_def lb_zero_def lb_holds_def lb_capacity_ok_def MAX_MSG_SIZE_def ring_wf_def
      lb_room_def ring_fits_def ring_used_def cyc_dist_def intro!: ring_holds_empty)

theorem lb_fifo_witness:
  "\<exists>rb' rb''. write_all lb_ring_buffer_write ((lb_zero (2 ^ 17))\<lparr>lb_size := 2 ^ 17\<rparr>) [[1, 2, 3]] = Some rb' \<and>
     read_all lb_ring_buffer_read 16 (replicate 16 0) 1 rb' = Some ([[1, 2, 3]], rb'')"
proof -
  obtain rb' where "lb_ring_buffer_write ((lb_zero (2 ^ 17))\<lparr>lb_size := 2 ^ 17\<rparr>) [1, 2, 3] 3 = Some (True, rb')"
    using lb_write_ok [OF lb_ring_128k, of 3 "[1, 2, 3]"] by auto
  then have "write_all lb_ring_buffer_write ((lb_zero (2 ^ 17))\<lparr>lb_size := 2 ^ 17\<rparr>) [[1, 2, 3]] = Some rb'"
    by simp
  then show ?thesis
    using lb_fifo [OF lb_ring_128k(1), of "[[1, 2, 3]]" rb' 16 "replicate 16 0"] by auto
qed

theorem lb_oversized_blocks_witness:
  "\<exists>rb. lb_holds rb [[1, 2, 3]] \<and> read_all lb_ring_buffer_read 2 (replicate 2 0) 1 rb = None"
proof -
  obtain rb where "lb_holds rb [[1, 2, 3]]"
    using lb_write_ok [OF lb_ring_128k, of 3 "[1, 2, 3]"] by auto
  then show ?thesis
    using lb_oversized_blocks [of rb "[1, 2, 3]" "[]" 2 "replicate 2 0" 0] by auto
qed

end
