(* ===== verification/Lfshm_Nonblocking.thy ===== *)
theory Lfshm_Nonblocking
  imports Lfshm_Blocking
begin

section \<open>Lock-free shared memory, io\_uring client (lfshm\_nonblocking.h, lfshm\_nonblocking.c)\<close>

text \<open>
  The server is that of the blocking variant, statement by statement, on a struct of its own. The client
  does not call \<open>FUTEX_WAIT\<close> itself: it submits the wait through an io_uring and waits for its completion.
  What liburing returns to each call is an input of the step that makes the call (\<open>uring_answers\<close>), so
  every answer is possible at every call; the wait itself is the kernel's, \<open>Futex.futex_wait\<close>, at the
  moment of the submission.
\<close>

subsection \<open>The ring struct\<close>

record LockFreeNonBlockingRingBuffer =
  lr_write_pos :: u32
  lr_server_futex :: u32
  lr_read_pos :: u32
  lr_client_futex :: u32
  lr_size :: u64
  lr_ready :: bool
  lr_message_available :: bool
  lr_response_available :: bool
  lr_buffer :: bytes

definition lu_ring_buffer_read ::
  "LockFreeNonBlockingRingBuffer \<Rightarrow> bytes \<Rightarrow> u64
     \<Rightarrow> (bool \<times> LockFreeNonBlockingRingBuffer \<times> bytes \<times> u64) option" where
  "lu_ring_buffer_read rb data max_len =
     map_option (\<lambda>(ok, rp, data', n). (ok, rb\<lparr>lr_read_pos := rp\<rparr>, data', n))
       (ring32_read (lr_buffer rb) (lr_size rb) (lr_read_pos rb) (lr_write_pos rb) data max_len)"

definition lu_ring_buffer_write ::
  "LockFreeNonBlockingRingBuffer \<Rightarrow> bytes \<Rightarrow> u64 \<Rightarrow> (bool \<times> LockFreeNonBlockingRingBuffer) option" where
  "lu_ring_buffer_write rb data len =
     map_option (\<lambda>(ok, buf, wp). (ok, rb\<lparr>lr_buffer := buf, lr_write_pos := wp\<rparr>))
       (ring32_write (lr_buffer rb) (lr_size rb) (lr_read_pos rb) (lr_write_pos rb) data len)"

subsection \<open>Waiting through the io\_uring\<close>

text \<open>Whether \<open>io_uring_get_sqe\<close> has an entry, the results of \<open>io_uring_submit\<close> and \<open>io_uring_wait_cqe\<close>, and
  \<open>res\<close> of the completion.\<close>

record uring_answers =
  ua_sqe :: bool
  ua_submit :: int
  ua_wait :: int
  ua_res :: int

text \<open>\<open>Q_parked\<close> and \<open>Q_completed\<close> are both in \<open>io_uring_wait_cqe\<close>: without and with a completion.\<close>

datatype uring_pc =
    Q_cond | Q_load | Q_recheck u32 | Q_get u32 | Q_submit u32 | Q_parked | Q_completed

datatype uring_next = Q_continue uring_pc | Q_return bool | Q_blocked

definition errno_EAGAIN :: int where "errno_EAGAIN = 11"

text \<open>One step of \<open>futex_wait_for_atomic_bool_uring\<close>.\<close>

fun uring_wait_step :: "bool \<Rightarrow> u32 \<Rightarrow> uring_answers \<Rightarrow> uring_pc \<Rightarrow> uring_next" where
  "uring_wait_step condition futex_word a Q_cond =
     (if condition then Q_return True else Q_continue Q_load)"
| "uring_wait_step condition futex_word a Q_load = Q_continue (Q_recheck futex_word)"
| "uring_wait_step condition futex_word a (Q_recheck val) =
     (if \<not> condition then Q_continue (Q_get val) else Q_continue Q_cond)"
| "uring_wait_step condition futex_word a (Q_get val) =
     (if \<not> ua_sqe a then Q_return False else Q_continue (Q_submit val))"
| "uring_wait_step condition futex_word a (Q_submit val) =
     (if ua_submit a < 0 then Q_return False
      else Q_continue (if futex_wait futex_word val = W_asleep then Q_parked else Q_completed))"
| "uring_wait_step condition futex_word a Q_parked =
     (if ua_wait a < 0 then Q_return False else Q_blocked)"
| "uring_wait_step condition futex_word a Q_completed =
     (if ua_wait a < 0 then Q_return False
      else if ua_res a < 0 then
        (if ua_res a = - errno_EAGAIN then Q_continue Q_cond else Q_return False)
      else Q_continue Q_cond)"

text \<open>\<open>FUTEX_WAKE\<close> completes a parked request.\<close>

fun uring_wake :: "uring_pc \<Rightarrow> uring_pc" where
  "uring_wake Q_parked = Q_completed"
| "uring_wake q = q"

subsection \<open>The state\<close>

datatype lu_client_pc =
    U_ready
  | U_malloc | U_init | U_loop | U_build | U_write | U_signal signal_pc | U_check | U_wait uring_pc
  | U_read | U_clear | U_account | U_stats | U_done | U_crash

text \<open>The last four fields are histories no step reads; \<open>lu_failed\<close>: a wait of the client has returned false.\<close>

record lu_state =
  lu_ring :: LockFreeNonBlockingRingBuffer
  lu_clock :: u64
  ls_pc :: lb_server_pc
  ls_end :: u64
  ls_buf :: bytes
  ls_msg_size :: u64
  lc_pc :: lu_client_pc
  lc_end :: u64
  lc_buf :: bytes
  lc_msg_size :: u64
  lc_ops :: u64
  lc_bytes :: u64
  lc_lat :: "u64 list"
  lc_report :: "BenchmarkStats option"
  lu_sent :: "bytes list"
  lu_served :: "bytes list"
  lu_rcvd :: "bytes list"
  lu_failed :: bool

definition lu_wake_client :: "lu_state \<Rightarrow> lu_state" where
  "lu_wake_client s = (case lc_pc s of U_wait q \<Rightarrow> s\<lparr>lc_pc := U_wait (uring_wake q)\<rparr> | _ \<Rightarrow> s)"

definition lu_wake_server :: "lu_state \<Rightarrow> lu_state" where
  "lu_wake_server s = (case ls_pc s of S_wait w \<Rightarrow> s\<lparr>ls_pc := S_wait (futex_wake w)\<rparr> | _ \<Rightarrow> s)"

text \<open>One step of \<open>futex_signal_atomic_bool\<close> towards either side.\<close>

definition lu_signal_client :: "signal_pc \<Rightarrow> lu_state \<Rightarrow> signal_pc option \<times> lu_state" where
  "lu_signal_client g s =
     (case g of
        G_store \<Rightarrow> (Some G_add, s\<lparr>lu_ring := (lu_ring s)\<lparr>lr_response_available := True\<rparr>\<rparr>)
      | G_add \<Rightarrow> (Some G_wake, s\<lparr>lu_ring := (lu_ring s)\<lparr>lr_client_futex := lr_client_futex (lu_ring s) + 1\<rparr>\<rparr>)
      | G_wake \<Rightarrow> (None, lu_wake_client s))"

definition lu_signal_server :: "signal_pc \<Rightarrow> lu_state \<Rightarrow> signal_pc option \<times> lu_state" where
  "lu_signal_server g s =
     (case g of
        G_store \<Rightarrow> (Some G_add, s\<lparr>lu_ring := (lu_ring s)\<lparr>lr_message_available := True\<rparr>\<rparr>)
      | G_add \<Rightarrow> (Some G_wake, s\<lparr>lu_ring := (lu_ring s)\<lparr>lr_server_futex := lr_server_futex (lu_ring s) + 1\<rparr>\<rparr>)
      | G_wake \<Rightarrow> (None, lu_wake_server s))"

subsection \<open>The server process\<close>

fun lu_setup_step :: "lb_params \<Rightarrow> lb_server_pc \<Rightarrow> LockFreeNonBlockingRingBuffer
    \<Rightarrow> LockFreeNonBlockingRingBuffer \<times> lb_server_pc" where
  "lu_setup_step p SI_size rb = (rb\<lparr>lr_size := p_size p\<rparr>, SI_read_pos)"
| "lu_setup_step p SI_read_pos rb = (rb\<lparr>lr_read_pos := 0\<rparr>, SI_write_pos)"
| "lu_setup_step p SI_write_pos rb = (rb\<lparr>lr_write_pos := 0\<rparr>, SI_server_futex)"
| "lu_setup_step p SI_server_futex rb = (rb\<lparr>lr_server_futex := 0\<rparr>, SI_client_futex)"
| "lu_setup_step p SI_client_futex rb = (rb\<lparr>lr_client_futex := 0\<rparr>, SI_ready)"
| "lu_setup_step p SI_ready rb = (rb\<lparr>lr_ready := True\<rparr>, SI_message)"
| "lu_setup_step p SI_message rb = (rb\<lparr>lr_message_available := False\<rparr>, SI_response)"
| "lu_setup_step p SI_response rb = (rb\<lparr>lr_response_available := False\<rparr>, S_malloc)"
| "lu_setup_step p pc rb = (rb, pc)"

definition lu_server_step :: "lb_params \<Rightarrow> bool \<Rightarrow> lu_state \<Rightarrow> lu_state option" where
  "lu_server_step p alloc s =
     (case ls_pc s of
        S_malloc \<Rightarrow>
          if \<not> alloc then Some (s\<lparr>ls_pc := F_ready\<rparr>)
          else Some (s\<lparr>ls_pc := S_loop, ls_end := lu_clock s + duration_us (p_server_secs p)\<rparr>)
      | S_loop \<Rightarrow>
          Some (s\<lparr>ls_pc := if lu_clock s < ls_end s then S_wait W_cond else F_ready\<rparr>)
      | S_wait w \<Rightarrow>
          (case futex_wait_step (lr_message_available (lu_ring s)) (lr_server_futex (lu_ring s)) w of
             Continue w' \<Rightarrow> Some (s\<lparr>ls_pc := S_wait w'\<rparr>)
           | Return \<Rightarrow> Some (s\<lparr>ls_pc := S_read\<rparr>)
           | Blocked \<Rightarrow> None)
      | S_read \<Rightarrow>
          (case lu_ring_buffer_read (lu_ring s) (ls_buf s) MAX_MSG_SIZE of
             None \<Rightarrow> Some (s\<lparr>ls_pc := S_crash\<rparr>)
           | Some (ok, rb, buf, n) \<Rightarrow>
               let s' = s\<lparr>lu_ring := rb, ls_buf := buf, ls_msg_size := n\<rparr>
               in Some (if ok
                        then s'\<lparr>ls_pc := S_clear, lu_served := lu_served s @ [take (unat n) buf]\<rparr>
                        else s'\<lparr>ls_pc := S_loop\<rparr>))
      | S_clear \<Rightarrow>
          Some (s\<lparr>lu_ring := (lu_ring s)\<lparr>lr_message_available := False\<rparr>, ls_pc := S_validate\<rparr>)
      | S_validate \<Rightarrow>
          (case validate_message (ls_buf s) (ls_msg_size s) of
             None \<Rightarrow> Some (s\<lparr>ls_pc := S_crash\<rparr>)
           | Some _ \<Rightarrow> Some (s\<lparr>ls_pc := S_write\<rparr>))
      | S_write \<Rightarrow>
          (case lu_ring_buffer_write (lu_ring s) (ls_buf s) (ls_msg_size s) of
             None \<Rightarrow> Some (s\<lparr>ls_pc := S_crash\<rparr>)
           | Some (ok, rb) \<Rightarrow>
               Some (s\<lparr>lu_ring := rb, ls_pc := if ok then S_signal G_store else S_loop\<rparr>))
      | S_signal g \<Rightarrow>
          (case lu_signal_client g s of
             (Some g', s') \<Rightarrow> Some (s'\<lparr>ls_pc := S_signal g'\<rparr>)
           | (None, s') \<Rightarrow> Some (s'\<lparr>ls_pc := S_loop\<rparr>))
      | _ \<Rightarrow> None)"

definition lu_free_server_step :: "lu_state \<Rightarrow> lu_state option" where
  "lu_free_server_step s =
     (case ls_pc s of
        F_ready \<Rightarrow> Some (s\<lparr>lu_ring := (lu_ring s)\<lparr>lr_ready := False\<rparr>, ls_pc := F_client G_store\<rparr>)
      | F_client g \<Rightarrow>
          (case lu_signal_client g s of
             (Some g', s') \<Rightarrow> Some (s'\<lparr>ls_pc := F_client g'\<rparr>)
           | (None, s') \<Rightarrow> Some (s'\<lparr>ls_pc := F_server G_store\<rparr>))
      | F_server g \<Rightarrow>
          (case lu_signal_server g s of
             (Some g', s') \<Rightarrow> Some (s'\<lparr>ls_pc := F_server g'\<rparr>)
           | (None, s') \<Rightarrow> Some (s'\<lparr>ls_pc := F_unmap\<rparr>))
      | F_unmap \<Rightarrow> Some (s\<lparr>ls_pc := S_done\<rparr>)
      | _ \<Rightarrow> None)"

definition lu_server_move :: "lb_params \<Rightarrow> bool \<Rightarrow> lu_state \<Rightarrow> lu_state option" where
  "lu_server_move p alloc s =
     (if in_setup (ls_pc s)
      then let (rb, pc) = lu_setup_step p (ls_pc s) (lu_ring s) in Some (s\<lparr>lu_ring := rb, ls_pc := pc\<rparr>)
      else if in_free (ls_pc s) then lu_free_server_step s
      else lu_server_step p alloc s)"

subsection \<open>The client process\<close>

definition lu_client_setup_step :: "lu_state \<Rightarrow> lu_state option" where
  "lu_client_setup_step s =
     (case lc_pc s of
        U_ready \<Rightarrow> Some (if lr_ready (lu_ring s) then s\<lparr>lc_pc := U_malloc\<rparr> else s)
      | _ \<Rightarrow> None)"

text \<open>\<open>run_lfshm_nonblocking_client\<close>; \<open>ok\<close>: the allocations (\<open>U_malloc\<close>) or \<open>io_uring_queue_init\<close> (\<open>U_init\<close>)
  succeed. The result of the wait is not looked at: after a failed one the client reads all the same.\<close>

definition lu_client_step :: "lb_params \<Rightarrow> bool \<Rightarrow> int \<Rightarrow> uring_answers \<Rightarrow> lu_state \<Rightarrow> lu_state option" where
  "lu_client_step p ok rnd a s =
     (case lc_pc s of
        U_malloc \<Rightarrow> Some (s\<lparr>lc_pc := if ok then U_init else U_done\<rparr>)
      | U_init \<Rightarrow>
          if \<not> ok then Some (s\<lparr>lc_pc := U_done\<rparr>)
          else (case store32 (lc_buf s) off_seq 0 of
                  None \<Rightarrow> Some (s\<lparr>lc_pc := U_crash\<rparr>)
                | Some buf \<Rightarrow>
                    Some (s\<lparr>lc_buf := buf, lc_ops := 0, lc_bytes := 0, lc_lat := [],
                            lc_end := lu_clock s + duration_us (p_client_secs p), lc_pc := U_loop\<rparr>))
      | U_loop \<Rightarrow> Some (s\<lparr>lc_pc := if lu_clock s < lc_end s then U_build else U_stats\<rparr>)
      | U_build \<Rightarrow>
          (case next_request rnd (lu_clock s) (lc_buf s) of
             None \<Rightarrow> Some (s\<lparr>lc_pc := U_crash\<rparr>)
           | Some buf \<Rightarrow> Some (s\<lparr>lc_buf := buf, lc_pc := U_write\<rparr>))
      | U_write \<Rightarrow>
          (case load32 (lc_buf s) off_size \<bind>
                  (\<lambda>n. lu_ring_buffer_write (lu_ring s) (lc_buf s) (ucast n) \<bind>
                    (\<lambda>(ok, rb). Some (n, ok, rb))) of
             None \<Rightarrow> Some (s\<lparr>lc_pc := U_crash\<rparr>)
           | Some (n, ok, rb) \<Rightarrow>
               Some (if ok
                     then s\<lparr>lu_ring := rb, lc_pc := U_signal G_store,
                            lu_sent := lu_sent s @ [take (unat n) (lc_buf s)]\<rparr>
                     else s\<lparr>lu_ring := rb, lc_pc := U_stats\<rparr>))
      | U_signal g \<Rightarrow>
          (case lu_signal_server g s of
             (Some g', s') \<Rightarrow> Some (s'\<lparr>lc_pc := U_signal g'\<rparr>)
           | (None, s') \<Rightarrow> Some (s'\<lparr>lc_pc := U_check\<rparr>))
      | U_check \<Rightarrow> Some (s\<lparr>lc_pc := if lr_ready (lu_ring s) then U_wait Q_cond else U_stats\<rparr>)
      | U_wait q \<Rightarrow>
          (case uring_wait_step (lr_response_available (lu_ring s)) (lr_client_futex (lu_ring s)) a q of
             Q_continue q' \<Rightarrow> Some (s\<lparr>lc_pc := U_wait q'\<rparr>)
           | Q_return met \<Rightarrow> Some (s\<lparr>lc_pc := U_read, lu_failed := lu_failed s \<or> \<not> met\<rparr>)
           | Q_blocked \<Rightarrow> None)
      | U_read \<Rightarrow>
          (case lu_ring_buffer_read (lu_ring s) (lc_buf s) MAX_MSG_SIZE of
             None \<Rightarrow> Some (s\<lparr>lc_pc := U_crash\<rparr>)
           | Some (ok, rb, buf, n) \<Rightarrow>
               let s' = s\<lparr>lu_ring := rb, lc_buf := buf, lc_msg_size := n, lc_pc := U_clear\<rparr>
               in Some (if ok then s'\<lparr>lu_rcvd := lu_rcvd s @ [take (unat n) buf]\<rparr> else s'))
      | U_clear \<Rightarrow>
          Some (s\<lparr>lu_ring := (lu_ring s)\<lparr>lr_response_available := False\<rparr>, lc_pc := U_account\<rparr>)
      | U_account \<Rightarrow>
          (case validate_message (lc_buf s) (lc_msg_size s) \<bind>
                  (\<lambda>_. load64 (lc_buf s) off_timestamp) of
             None \<Rightarrow> Some (s\<lparr>lc_pc := U_crash\<rparr>)
           | Some sent_at \<Rightarrow>
               Some (s\<lparr>lc_lat := if length (lc_lat s) < MAX_LATENCIES
                                 then lc_lat s @ [lu_clock s - sent_at] else lc_lat s,
                       lc_ops := lc_ops s + 1, lc_bytes := lc_bytes s + lc_msg_size s,
                       lc_pc := U_loop\<rparr>))
      | U_stats \<Rightarrow>
          (case run_report (p_cpu p) (p_client_secs p) (lc_lat s) (lc_ops s) (lc_bytes s) of
             None \<Rightarrow> Some (s\<lparr>lc_pc := U_crash\<rparr>)
           | Some st \<Rightarrow> Some (s\<lparr>lc_report := Some st, lc_pc := U_done\<rparr>))
      | _ \<Rightarrow> None)"

definition lu_client_move :: "lb_params \<Rightarrow> bool \<Rightarrow> int \<Rightarrow> uring_answers \<Rightarrow> lu_state \<Rightarrow> lu_state option" where
  "lu_client_move p ok rnd a s =
     (if lc_pc s = U_ready then lu_client_setup_step s else lu_client_step p ok rnd a s)"

subsection \<open>The system\<close>

text \<open>\<open>lu_stale\<close>: the completion of an earlier wait, one whose call failed, ends a later wait as well.\<close>

inductive lu_step :: "lb_params \<Rightarrow> lu_state \<Rightarrow> lu_state \<Rightarrow> bool" for p where
  lu_server: "lu_server_move p alloc s = Some t \<Longrightarrow> lu_step p s t"
| lu_client: "0 \<le> rnd \<Longrightarrow> lu_client_move p ok rnd a s = Some t \<Longrightarrow> lu_step p s t"
| lu_tick: "lu_clock s \<le> now \<Longrightarrow> lu_step p s (s\<lparr>lu_clock := now\<rparr>)"
| lu_spurious_server: "ls_pc s = S_wait W_asleep \<Longrightarrow> lu_step p s (s\<lparr>ls_pc := S_wait W_cond\<rparr>)"
| lu_stale: "lc_pc s = U_wait Q_parked \<Longrightarrow> lu_step p s (s\<lparr>lc_pc := U_wait Q_completed\<rparr>)"

text \<open>The server has finished its set-up before the client looks.\<close>

definition lu_zero :: "nat \<Rightarrow> LockFreeNonBlockingRingBuffer" where
  "lu_zero n = \<lparr>lr_write_pos = 0, lr_server_futex = 0, lr_read_pos = 0, lr_client_futex = 0,
     lr_size = 0, lr_ready = False, lr_message_available = False, lr_response_available = False,
     lr_buffer = replicate n 0\<rparr>"

definition lu_up :: "lb_params \<Rightarrow> lu_state \<Rightarrow> bool" where
  "lu_up p s \<longleftrightarrow> ls_pc s = S_malloc \<and> lc_pc s = U_ready \<and> \<not> lu_failed s \<and>
     lu_ring s = (lu_zero (unat (p_size p)))\<lparr>lr_size := p_size p, lr_ready := True\<rparr> \<and>
     length (ls_buf s) = unat MAX_MSG_SIZE \<and> length (lc_buf s) = unat MAX_MSG_SIZE \<and>
     lc_ops s = 0 \<and> lc_bytes s = 0 \<and> lc_lat s = [] \<and> lu_sent s = [] \<and> lu_served s = [] \<and> lu_rcvd s = []"

end
