(* ===== verification/Lfshm_Blocking_Proofs.thy ===== *)
theory Lfshm_Blocking_Proofs
  imports Lfshm_Blocking
begin

section \<open>Lock-free shared memory, blocking: the protocol is correct while the server runs\<close>

text \<open>
  The invariant of the two processes from the end of the server's setup until it leaves its loop:
  what the ring and the two flags hold in each phase of an exchange, that no wake-up is lost, what
  the two blocks contain, and that the statistics count the answers received. It makes
  \<open>lb_step\<close> an implementation of the echo protocol. Then progress: a bound on the moves the server
  needs to answer, and what happens when the client looks before the setup is complete.
\<close>

subsection \<open>Signals\<close>

definition wake_client :: "lb_state \<Rightarrow> lb_state" where
  "wake_client s = (case c_pc s of C_wait w \<Rightarrow> s\<lparr>c_pc := C_wait (futex_wake w)\<rparr> | _ \<Rightarrow> s)"

definition wake_server :: "lb_state \<Rightarrow> lb_state" where
  "wake_server s = (case s_pc s of S_wait w \<Rightarrow> s\<lparr>s_pc := S_wait (futex_wake w)\<rparr> | _ \<Rightarrow> s)"

lemma signal_client_simps [simp]:
  "signal_client G_store s = (Some G_add, s\<lparr>ring := (ring s)\<lparr>lb_response_available := True\<rparr>\<rparr>)"
  "signal_client G_add s =
     (Some G_wake, s\<lparr>ring := (ring s)\<lparr>lb_client_futex := lb_client_futex (ring s) + 1\<rparr>\<rparr>)"
  "signal_client G_wake s = (None, wake_client s)"
  by (auto simp: signal_client_def set_client_waiter_def client_waiter_def wake_client_def
      split: lb_client_pc.splits)

lemma signal_server_simps [simp]:
  "signal_server G_store s = (Some G_add, s\<lparr>ring := (ring s)\<lparr>lb_message_available := True\<rparr>\<rparr>)"
  "signal_server G_add s =
     (Some G_wake, s\<lparr>ring := (ring s)\<lparr>lb_server_futex := lb_server_futex (ring s) + 1\<rparr>\<rparr>)"
  "signal_server G_wake s = (None, wake_server s)"
  by (auto simp: signal_server_def set_server_waiter_def server_waiter_def wake_server_def
      split: lb_server_pc.splits)

lemma wake_simps [simp]:
  "ring (wake_client s) = ring s" "s_pc (wake_client s) = s_pc s" "s_buf (wake_client s) = s_buf s"
  "s_msg_size (wake_client s) = s_msg_size s" "c_buf (wake_client s) = c_buf s"
  "c_msg_size (wake_client s) = c_msg_size s" "c_ops (wake_client s) = c_ops s"
  "c_bytes (wake_client s) = c_bytes s" "c_lat (wake_client s) = c_lat s"
  "g_sent (wake_client s) = g_sent s" "g_served (wake_client s) = g_served s"
  "g_rcvd (wake_client s) = g_rcvd s" "clock (wake_client s) = clock s"
  "ring (wake_server s) = ring s" "c_pc (wake_server s) = c_pc s" "s_buf (wake_server s) = s_buf s"
  "s_msg_size (wake_server s) = s_msg_size s" "c_buf (wake_server s) = c_buf s"
  "c_msg_size (wake_server s) = c_msg_size s" "c_ops (wake_server s) = c_ops s"
  "c_bytes (wake_server s) = c_bytes s" "c_lat (wake_server s) = c_lat s"
  "g_sent (wake_server s) = g_sent s" "g_served (wake_server s) = g_served s"
  "g_rcvd (wake_server s) = g_rcvd s" "clock (wake_server s) = clock s"
  by (auto simp: wake_client_def wake_server_def split: lb_client_pc.splits lb_server_pc.splits)

lemma futex_wake_changed: "futex_wake w \<noteq> w \<Longrightarrow> w = W_asleep"
  by (cases w) simp_all

lemma wake_inv_woken: "wake_inv c w wp (Some G_wake) \<Longrightarrow> wake_inv c w (map_option futex_wake wp) None"
  using wake_inv_signal [of c w wp G_wake] by simp

lemma wake_client_cases:
  "c_pc (wake_client s) = c_pc s \<or> c_pc s = C_wait W_asleep \<and> c_pc (wake_client s) = C_wait W_cond"
  by (auto simp: wake_client_def dest!: futex_wake_changed split: lb_client_pc.splits)

lemma waiter_wake [simp]:
  "client_waiter (wake_client s) = map_option futex_wake (client_waiter s)"
  "server_waiter (wake_server s) = map_option futex_wake (server_waiter s)"
  "server_waiter (wake_client s) = server_waiter s" "client_waiter (wake_server s) = client_waiter s"
  by (auto simp: wake_client_def wake_server_def client_waiter_def server_waiter_def
      split: lb_client_pc.splits lb_server_pc.splits)

lemma wake_server_cases:
  "s_pc (wake_server s) = s_pc s \<or> s_pc s = S_wait W_asleep \<and> s_pc (wake_server s) = S_wait W_cond"
  by (auto simp: wake_server_def dest!: futex_wake_changed split: lb_server_pc.splits)

lemma lb_holds_flags [simp]:
  "lb_holds (rb\<lparr>lb_message_available := b\<rparr>) ms = lb_holds rb ms"
  "lb_holds (rb\<lparr>lb_response_available := b\<rparr>) ms = lb_holds rb ms"
  "lb_holds (rb\<lparr>lb_ready := b\<rparr>) ms = lb_holds rb ms"
  "lb_holds (rb\<lparr>lb_server_futex := w\<rparr>) ms = lb_holds rb ms"
  "lb_holds (rb\<lparr>lb_client_futex := w\<rparr>) ms = lb_holds rb ms"
  by (simp_all add: lb_holds_def lb_capacity_ok_def)

subsection \<open>The phase and the invariant\<close>

fun client_idle :: "lb_client_pc \<Rightarrow> bool" where
  "client_idle (C_signal g) = False"
| "client_idle C_check = False"
| "client_idle (C_wait w) = False"
| "client_idle C_read = False"
| "client_idle C_crash = False"
| "client_idle pc = True"

text \<open>Places of the server where it neither holds a request nor is about to read or answer one.\<close>

fun server_quiet :: "lb_server_pc \<Rightarrow> bool" where
  "server_quiet S_malloc = True"
| "server_quiet S_loop = True"
| "server_quiet (S_wait w) = True"
| "server_quiet (S_signal g) = (g \<noteq> G_store)"
| "server_quiet pc = False"

fun server_phase :: "lb_server_pc \<Rightarrow> bool \<Rightarrow> phase" where
  "server_phase S_clear r = Taken"
| "server_phase S_validate r = Taken"
| "server_phase S_write r = Taken"
| "server_phase (S_signal g) r = (if g = G_store \<or> r then Responded else Requested)"
| "server_phase pc r = (if r then Responded else Requested)"

definition lb_phase :: "lb_state \<Rightarrow> phase" where
  "lb_phase s = (if client_idle (c_pc s) then Idle
                 else server_phase (s_pc s) (lb_response_available (ring s)))"

definition lb_abs :: "lb_state \<Rightarrow> echo" where
  "lb_abs s = \<lparr>e_phase = lb_phase s, e_sent = g_sent s, e_served = g_served s, e_rcvd = g_rcvd s\<rparr>"

definition server_sig :: "lb_state \<Rightarrow> signal_pc option" where
  "server_sig s = (case s_pc s of S_signal g \<Rightarrow> Some g | _ \<Rightarrow> None)"

definition client_sig :: "lb_state \<Rightarrow> signal_pc option" where
  "client_sig s = (case c_pc s of C_signal g \<Rightarrow> Some g | _ \<Rightarrow> None)"

definition lb_wake_inv :: "lb_state \<Rightarrow> bool" where
  "lb_wake_inv s \<longleftrightarrow>
     wake_inv (lb_response_available (ring s)) (lb_client_futex (ring s)) (client_waiter s) (server_sig s) \<and>
     wake_inv (lb_message_available (ring s)) (lb_server_futex (ring s)) (server_waiter s) (client_sig s)"

text \<open>The request in flight is the last one sent. By phase: what the ring holds, the two flags, and
  where the two processes are.\<close>

definition lb_exchange_inv :: "lb_state \<Rightarrow> bool" where
  "lb_exchange_inv s \<longleftrightarrow>
     (let M = lb_message_available (ring s); R = lb_response_available (ring s); m = last (g_sent s)
      in (lb_phase s \<noteq> Idle \<or> c_pc s \<in> {C_clear, C_account} \<longrightarrow> request m) \<and>
         (c_pc s = C_read \<longrightarrow> R) \<and> (s_pc s = S_read \<longrightarrow> M) \<and>
         (case lb_phase s of
            Idle \<Rightarrow> lb_holds (ring s) [] \<and> \<not> M \<and> R = (c_pc s = C_clear) \<and> server_quiet (s_pc s)
          | Requested \<Rightarrow> lb_holds (ring s) [m] \<and> M = (c_pc s \<noteq> C_signal G_store) \<and> \<not> R \<and>
              (server_quiet (s_pc s) \<or> s_pc s = S_read)
          | Taken \<Rightarrow> lb_holds (ring s) [] \<and> M = (s_pc s = S_clear) \<and> \<not> R \<and>
              c_pc s \<noteq> C_signal G_store \<and>
              take (length m) (s_buf s) = m \<and> s_msg_size s = word_of_nat (length m)
          | Responded \<Rightarrow> lb_holds (ring s) [m] \<and> \<not> M \<and> R = (s_pc s \<noteq> S_signal G_store) \<and>
              c_pc s \<noteq> C_signal G_store \<and> (server_quiet (s_pc s) \<or> s_pc s = S_signal G_store)))"

definition lb_blocks_inv :: "lb_state \<Rightarrow> bool" where
  "lb_blocks_inv s \<longleftrightarrow>
     length (s_buf s) = unat MAX_MSG_SIZE \<and> length (c_buf s) = unat MAX_MSG_SIZE \<and>
     \<not> in_setup (s_pc s) \<and> s_pc s \<noteq> S_crash \<and> c_pc s \<noteq> C_crash \<and> lb_ready (ring s) \<and>
     (\<forall>m \<in> set (g_sent s). request m) \<and>
     (c_pc s = C_write \<longrightarrow> (\<exists>n. load32 (c_buf s) off_size = Some n \<and> unat n < 4132 \<and>
                              request (take (unat n) (c_buf s)))) \<and>
     (c_pc s \<in> {C_clear, C_account} \<longrightarrow>
        take (length (last (g_sent s))) (c_buf s) = last (g_sent s) \<and>
        c_msg_size s = word_of_nat (length (last (g_sent s))))"

definition lb_stats_inv :: "lb_state \<Rightarrow> bool" where
  "lb_stats_inv s \<longleftrightarrow>
     (let pending = (if c_pc s \<in> {C_clear, C_account} then 1 else 0 :: nat);
          counted = take (length (g_rcvd s) - pending) (g_rcvd s)
      in (c_pc s \<in> {CI_ready, C_malloc} \<longrightarrow> g_rcvd s = []) \<and>
         (pending = 1 \<longrightarrow> g_rcvd s \<noteq> [] \<and> last (g_rcvd s) = last (g_sent s)) \<and>
         c_ops s = word_of_nat (length counted) \<and>
         c_bytes s = word_of_nat (sum_list (map length counted)) \<and>
         length (c_lat s) = min MAX_LATENCIES (length counted))"

definition lb_inv :: "lb_state \<Rightarrow> bool" where
  "lb_inv s \<longleftrightarrow> lb_wake_inv s \<and> lb_exchange_inv s \<and> lb_blocks_inv s \<and> lb_stats_inv s"

definition lb_live :: "lb_state \<Rightarrow> bool" where
  "lb_live s \<longleftrightarrow> \<not> in_free (s_pc s) \<and> s_pc s \<noteq> S_done"

lemma lb_room_empty:
  assumes "lb_holds rb []" "n < 4132"
  shows "lb_room rb n"
  using assms by (auto simp: lb_holds_def lb_capacity_ok_def lb_room_def ring_fits_def ring_holds_def
      MAX_MSG_SIZE_def)

lemma lb_inv_start: "lb_up p s \<Longrightarrow> unat MAX_MSG_SIZE \<le> unat (p_size p) \<Longrightarrow> unat (p_size p) \<le> 2 ^ 31 \<Longrightarrow> lb_inv s"
  by (auto simp: lb_up_def lb_fresh_def lb_inv_def lb_wake_inv_def lb_exchange_inv_def lb_blocks_inv_def
      lb_stats_inv_def lb_phase_def Let_def lb_zero_def client_waiter_def server_waiter_def in_setup_def
      lb_holds_def lb_capacity_ok_def
      MAX_MSG_SIZE_def ring_wf_def intro!: ring_holds_empty)


subsection \<open>Steps\<close>

lemma lb_server_wake:
  assumes "lb_inv s" "lb_live s" "lb_server_move p alloc s = Some t"
  shows "lb_wake_inv t"
proof -
  have w: "lb_wake_inv s" and b: "lb_blocks_inv s" and e: "lb_exchange_inv s"
    using assms(1) by (simp_all add: lb_inv_def)
  have move: "lb_server_step p alloc s = Some t"
    using assms(2,3) b by (auto simp: lb_server_move_def lb_live_def lb_blocks_inv_def)
  have store: "\<not> lb_response_available (ring s)" if "s_pc s = S_signal G_store"
    using e that by (auto simp: lb_exchange_inv_def lb_phase_def Let_def split: if_splits)
  show ?thesis
  proof (cases "s_pc s")
    case (S_signal g)
    then show ?thesis
    proof (cases g)
      case G_wake
      then have "t = (wake_client s)\<lparr>s_pc := S_loop\<rparr>"
        using S_signal move by (simp add: lb_server_step_def)
      moreover have "client_waiter ((wake_client s)\<lparr>s_pc := S_loop\<rparr>) = map_option futex_wake (client_waiter s)"
         using waiter_wake(1) [of s] by (simp add: client_waiter_def)
      ultimately show ?thesis
        using w S_signal G_wake wake_inv_woken
        by (simp add: lb_wake_inv_def server_sig_def server_waiter_def)
    qed (use S_signal w move store in \<open>auto simp: lb_server_step_def lb_wake_inv_def server_waiter_def client_waiter_def server_sig_def
          client_sig_def dest: wake_inv_signal\<close>)
  next
    case (S_wait wp)
    then show ?thesis
      using w move
      by (auto simp: lb_server_step_def lb_wake_inv_def server_waiter_def client_waiter_def server_sig_def
          client_sig_def dest: wake_inv_wait split: wait_next.splits)
  qed (use w move in \<open>auto simp: lb_server_step_def lb_wake_inv_def server_waiter_def client_waiter_def
      server_sig_def client_sig_def Let_def lb_ring_buffer_read_def lb_ring_buffer_write_def elim: wake_inv_quiet split: if_splits option.splits\<close>)
qed


lemma lb_client_wake:
  assumes "lb_inv s" "lb_client_move p alloc rnd s = Some t"
  shows "lb_wake_inv t"
proof -
  have w: "lb_wake_inv s" and b: "lb_blocks_inv s" and e: "lb_exchange_inv s"
    using assms(1) by (simp_all add: lb_inv_def)
  have store: "\<not> lb_message_available (ring s)" if "c_pc s = C_signal G_store"
    using e that by (auto simp: lb_exchange_inv_def lb_phase_def Let_def split: phase.splits)
  show ?thesis
  proof (cases "c_pc s")
    case CI_ready
    then show ?thesis
      using w assms(2) by (auto simp: lb_client_move_def lb_client_setup_step_def lb_wake_inv_def
          server_waiter_def client_waiter_def server_sig_def client_sig_def)
  next
    case (C_signal g)
    then have move: "lb_client_step p alloc rnd s = Some t"
      using assms(2) by (simp add: lb_client_move_def)
    show ?thesis
    proof (cases g)
      case G_wake
      then have "t = (wake_server s)\<lparr>c_pc := C_check\<rparr>"
        using C_signal move by (simp add: lb_client_step_def)
      moreover have "server_waiter ((wake_server s)\<lparr>c_pc := C_check\<rparr>) = map_option futex_wake (server_waiter s)"
         using waiter_wake(2) [of s] by (simp add: server_waiter_def)
      ultimately show ?thesis
        using w C_signal G_wake wake_inv_woken
        by (simp add: lb_wake_inv_def client_sig_def client_waiter_def)
    qed (use C_signal w move store in \<open>auto simp: lb_client_step_def lb_wake_inv_def server_waiter_def client_waiter_def server_sig_def
          client_sig_def dest: wake_inv_signal\<close>)
  next
    case (C_wait wp)
    then show ?thesis
      using w assms(2)
      by (auto simp: lb_client_move_def lb_client_step_def lb_wake_inv_def server_waiter_def client_waiter_def server_sig_def
          client_sig_def dest: wake_inv_wait split: wait_next.splits)
  qed (use w assms(2) in \<open>auto simp: lb_client_move_def lb_client_step_def lb_wake_inv_def server_waiter_def client_waiter_def
      server_sig_def client_sig_def Let_def lb_ring_buffer_read_def lb_ring_buffer_write_def elim: wake_inv_quiet
      split: if_splits option.splits bind_splits\<close>)
qed

text \<open>The exchange invariant by whether the client is waiting for an answer.\<close>

lemma lb_exchange_idle:
  "client_idle (c_pc s) \<Longrightarrow> lb_exchange_inv s \<longleftrightarrow>
     lb_holds (ring s) [] \<and> \<not> lb_message_available (ring s) \<and>
     lb_response_available (ring s) = (c_pc s = C_clear) \<and> server_quiet (s_pc s) \<and>
     (c_pc s \<in> {C_clear, C_account} \<longrightarrow> request (last (g_sent s)))"
  by (auto simp: lb_exchange_inv_def lb_phase_def Let_def)

lemma lb_exchange_busy:
  "\<not> client_idle (c_pc s) \<Longrightarrow> lb_exchange_inv s \<longleftrightarrow>
     (let M = lb_message_available (ring s); R = lb_response_available (ring s); m = last (g_sent s)
      in request m \<and> (c_pc s = C_read \<longrightarrow> R) \<and> (s_pc s = S_read \<longrightarrow> M) \<and>
         (case server_phase (s_pc s) R of
            Idle \<Rightarrow> True
          | Requested \<Rightarrow> lb_holds (ring s) [m] \<and> M = (c_pc s \<noteq> C_signal G_store) \<and> \<not> R \<and>
              (server_quiet (s_pc s) \<or> s_pc s = S_read)
          | Taken \<Rightarrow> lb_holds (ring s) [] \<and> M = (s_pc s = S_clear) \<and> \<not> R \<and>
              c_pc s \<noteq> C_signal G_store \<and>
              take (length m) (s_buf s) = m \<and> s_msg_size s = word_of_nat (length m)
          | Responded \<Rightarrow> lb_holds (ring s) [m] \<and> \<not> M \<and> R = (s_pc s \<noteq> S_signal G_store) \<and>
              c_pc s \<noteq> C_signal G_store \<and> (server_quiet (s_pc s) \<or> s_pc s = S_signal G_store)))"
proof -
  have "server_phase pc r \<noteq> Idle" for pc r
    by (cases "(pc, r)" rule: server_phase.cases) auto
  moreover assume "\<not> client_idle (c_pc s)"
  moreover from this have "c_pc s \<notin> {C_clear, C_account}" by (cases "c_pc s") auto
  ultimately show ?thesis
    by (simp add: lb_exchange_inv_def lb_phase_def Let_def split: phase.splits)
qed

lemma server_phase_quiet:
  "server_quiet pc \<Longrightarrow> server_phase pc r = (if r then Responded else Requested)"
  by (cases "(pc, r)" rule: server_phase.cases) auto

lemmas lb_rest_defs = lb_blocks_inv_def lb_stats_inv_def lb_abs_def lb_phase_def in_setup_def

lemma client_wake_idle [simp]:
  "client_idle (c_pc (wake_client s)) = client_idle (c_pc s)"
  "(c_pc (wake_client s) = C_clear) = (c_pc s = C_clear)"
  "(c_pc (wake_client s) = C_account) = (c_pc s = C_account)"
  "(c_pc (wake_client s) = C_read) = (c_pc s = C_read)"
  "(c_pc (wake_client s) = C_write) = (c_pc s = C_write)"
  "(c_pc (wake_client s) = CI_ready) = (c_pc s = CI_ready)"
  "(c_pc (wake_client s) = C_malloc) = (c_pc s = C_malloc)"
  "(c_pc (wake_client s) = C_crash) = (c_pc s = C_crash)"
  "(c_pc (wake_client s) = C_signal g) = (c_pc s = C_signal g)"
  by (auto simp: wake_client_def split: lb_client_pc.splits)

text \<open>A step of the server between quiet places, with or without a wake-up.\<close>

definition lb_rest :: "lb_state \<Rightarrow> lb_state \<Rightarrow> bool" where
  "lb_rest s t \<longleftrightarrow> lb_exchange_inv t \<and> lb_blocks_inv t \<and> lb_stats_inv t \<and> echo_step0 (lb_abs s) (lb_abs t)"

lemma lb_server_quiet:
  assumes inv: "lb_exchange_inv s" "lb_blocks_inv s" "lb_stats_inv s"
    and q: "server_quiet (s_pc s)" "server_quiet pc"
    and t: "t = s\<lparr>s_pc := pc\<rparr> \<or> t = s\<lparr>s_pc := pc, s_end := e\<rparr> \<or> t = (wake_client s)\<lparr>s_pc := pc\<rparr> \<or>
      t = s\<lparr>ring := (ring s)\<lparr>lb_client_futex := f\<rparr>, s_pc := pc\<rparr>"
  shows "lb_rest s t"
proof -
  have pc: "\<not> in_setup pc" "pc \<noteq> S_crash" "pc \<noteq> S_read" "pc \<noteq> S_signal G_store"
    "s_pc s \<noteq> S_signal G_store"
    using q by (auto simp: in_setup_def)
  have e: "lb_exchange_inv t"
  proof (cases "client_idle (c_pc s)")
    case True
    show ?thesis
      using t by (elim disjE) (use True inv(1) q pc in \<open>simp_all add: lb_exchange_idle\<close>)
  next
    case False
    show ?thesis
      using t by (elim disjE) (use False inv(1) q pc in
        \<open>cases "lb_response_available (ring s)"; simp add: lb_exchange_busy server_phase_quiet Let_def\<close>)+
  qed
  have "lb_blocks_inv t" "lb_stats_inv t"
    using t by (elim disjE; use inv pc in \<open>simp add: lb_blocks_inv_def lb_stats_inv_def Let_def\<close>)+
  moreover have "lb_abs t = lb_abs s"
    using t by (elim disjE) (use q in \<open>simp_all add: lb_abs_def lb_phase_def server_phase_quiet\<close>)
  ultimately show ?thesis using e by (simp add: lb_rest_def)
qed

text \<open>What the server's read and write do in the exchange.\<close>

lemma lb_server_reads:
  assumes e: "lb_exchange_inv s" and b: "lb_blocks_inv s" and pc: "s_pc s = S_read"
    and m: "m = last (g_sent s)"
  obtains rp where "lb_server_step p alloc s = Some (s\<lparr>ring := (ring s)\<lparr>lb_read_pos := rp\<rparr>,
      s_buf := m @ drop (length m) (s_buf s), s_msg_size := word_of_nat (length m), s_pc := S_clear,
      g_served := g_served s @ [m]\<rparr>)"
    and "lb_holds ((ring s)\<lparr>lb_read_pos := rp\<rparr>) []" "length m \<le> length (s_buf s)"
    "\<not> lb_response_available (ring s)" "lb_message_available (ring s)" "\<not> client_idle (c_pc s)"
proof -
  have busy: "\<not> client_idle (c_pc s)" using pc e by (auto simp: lb_exchange_idle)
  have R: "\<not> lb_response_available (ring s)" "lb_message_available (ring s)"
    and h: "lb_holds (ring s) [m]" and r: "request m"
    using busy pc e by (auto simp: lb_exchange_busy Let_def m split: if_splits)
  have "length m \<le> unat MAX_MSG_SIZE" "length m \<le> length (s_buf s)"
    using request_lengths [OF r] b by (simp_all add: lb_blocks_inv_def MAX_MSG_SIZE_def)
  then obtain rp where "lb_ring_buffer_read (ring s) (s_buf s) MAX_MSG_SIZE =
      Some (True, (ring s)\<lparr>lb_read_pos := rp\<rparr>, m @ drop (length m) (s_buf s), word_of_nat (length m))"
    and "lb_holds ((ring s)\<lparr>lb_read_pos := rp\<rparr>) []" "length m \<le> length (s_buf s)"
    using lb_read_ok [OF h] by blast
  then show ?thesis
    using that [of rp] pc request_lengths [OF r] R busy by (simp add: lb_server_step_def)
qed

lemma lb_server_writes:
  assumes e: "lb_exchange_inv s" and b: "lb_blocks_inv s" and pc: "s_pc s = S_write"
  obtains buf wp where "lb_server_step p alloc s = Some (s\<lparr>ring := (ring s)\<lparr>lb_buffer := buf,
      lb_write_pos := wp\<rparr>, s_pc := S_signal G_store\<rparr>)"
    and "lb_holds ((ring s)\<lparr>lb_buffer := buf, lb_write_pos := wp\<rparr>) [last (g_sent s)]"
    "\<not> lb_response_available (ring s)" "\<not> lb_message_available (ring s)" "\<not> client_idle (c_pc s)"
proof -
  have busy: "\<not> client_idle (c_pc s)" using pc e by (auto simp: lb_exchange_idle)
  define m where "m = last (g_sent s)"
  have R: "\<not> lb_response_available (ring s)" "\<not> lb_message_available (ring s)"
    and h: "lb_holds (ring s) []" and m: "request m" "take (length m) (s_buf s) = m"
      "s_msg_size s = word_of_nat (length m)"
    using busy pc e by (auto simp: lb_exchange_busy Let_def m_def)
  have "length m \<le> length (s_buf s)"
    using request_lengths [OF m(1)] b by (simp add: lb_blocks_inv_def MAX_MSG_SIZE_def)
  then obtain buf wp where "lb_ring_buffer_write (ring s) (s_buf s) (s_msg_size s) =
      Some (True, (ring s)\<lparr>lb_buffer := buf, lb_write_pos := wp\<rparr>)"
    and "lb_holds ((ring s)\<lparr>lb_buffer := buf, lb_write_pos := wp\<rparr>) [m]"
    using lb_write_ok [OF h, of "s_msg_size s" "s_buf s"] lb_room_empty [OF h] request_lengths [OF m(1)] m(2)
    by (auto simp: m(3))
  then show ?thesis
    using that [of wp buf] pc R busy by (simp add: lb_server_step_def m_def)
qed

lemma lb_server_rest:
  assumes "lb_inv s" "lb_live s" "lb_server_move p alloc s = Some t" "lb_live t"
  shows "lb_rest s t"
proof -
  have b: "lb_blocks_inv s" and e: "lb_exchange_inv s" and st: "lb_stats_inv s"
    using assms(1) by (simp_all add: lb_inv_def)
  note q = lb_server_quiet [OF e b st]
  have move: "lb_server_step p alloc s = Some t"
    using assms(2,3) b by (auto simp: lb_server_move_def lb_live_def lb_blocks_inv_def)
  show ?thesis
  proof (cases "s_pc s")
    case S_malloc
    then show ?thesis
      using move q [of S_loop t] assms(4)
      by (auto simp: lb_server_step_def lb_live_def split: if_splits)
  next
    case S_loop
    then show ?thesis
      using move q [of "S_wait W_cond" t] assms(4)
      by (auto simp: lb_server_step_def lb_live_def split: if_splits)
  next
    case (S_wait w)
    show ?thesis
    proof (cases "futex_wait_step (lb_message_available (ring s)) (lb_server_futex (ring s)) w")
      case (Continue w')
      then show ?thesis
        using move S_wait q [of "S_wait w'" t] by (simp add: lb_server_step_def)
    next
      case Return
      then have M: "lb_message_available (ring s)" by (cases w) (auto split: if_splits)
      then have busy: "\<not> client_idle (c_pc s)" using e by (auto simp: lb_exchange_idle)
      have t: "t = s\<lparr>s_pc := S_read\<rparr>"
        using Return S_wait move by (simp add: lb_server_step_def)
      have R: "\<not> lb_response_available (ring s)"
        using M busy S_wait e by (simp add: lb_exchange_busy Let_def split: if_splits)
      have "lb_exchange_inv t" using M R busy S_wait e by (simp add: t lb_exchange_busy Let_def)
      moreover have "lb_blocks_inv t" "lb_stats_inv t"
        using b st by (simp_all add: t lb_blocks_inv_def lb_stats_inv_def in_setup_def)
      moreover have "lb_abs t = lb_abs s"
        using R busy S_wait by (simp add: t lb_abs_def lb_phase_def)
      ultimately show ?thesis by (simp add: lb_rest_def)
    qed (use move S_wait in \<open>simp add: lb_server_step_def\<close>)
  next
    case S_clear
    then have busy: "\<not> client_idle (c_pc s)" using e by (auto simp: lb_exchange_idle)
    have t: "t = s\<lparr>ring := (ring s)\<lparr>lb_message_available := False\<rparr>, s_pc := S_validate\<rparr>"
      using S_clear move by (simp add: lb_server_step_def)
    have "lb_exchange_inv t" using busy S_clear e by (auto simp: t lb_exchange_busy Let_def)
    moreover have "lb_blocks_inv t" "lb_stats_inv t"
      using b st by (simp_all add: t lb_blocks_inv_def lb_stats_inv_def in_setup_def)
    moreover have "lb_abs t = lb_abs s"
      using busy S_clear by (simp add: t lb_abs_def lb_phase_def)
    ultimately show ?thesis by (simp add: lb_rest_def)
  next
    case (S_signal g)
    show ?thesis
    proof (cases g)
      case G_store
      then have busy: "\<not> client_idle (c_pc s)" using S_signal e by (auto simp: lb_exchange_idle)
      have t: "t = s\<lparr>ring := (ring s)\<lparr>lb_response_available := True\<rparr>, s_pc := S_signal G_add\<rparr>"
        using G_store S_signal move by (simp add: lb_server_step_def)
      have "lb_exchange_inv t" using busy G_store S_signal e by (simp add: t lb_exchange_busy Let_def)
      moreover have "lb_blocks_inv t" "lb_stats_inv t"
        using b st by (simp_all add: t lb_blocks_inv_def lb_stats_inv_def in_setup_def)
      moreover have "lb_abs t = lb_abs s"
        using busy G_store S_signal by (simp add: t lb_abs_def lb_phase_def)
      ultimately show ?thesis by (simp add: lb_rest_def)
    next
      case G_add
      then show ?thesis
        using move S_signal q [of "S_signal G_wake" t undefined "lb_client_futex (ring s) + 1"]
        by (simp add: lb_server_step_def)
    next
      case G_wake
      then show ?thesis
        using move S_signal q [of S_loop t] by (simp add: lb_server_step_def)
    qed
  next
    case S_validate
    then have busy: "\<not> client_idle (c_pc s)" using e by (auto simp: lb_exchange_idle)
    have "request (last (g_sent s))" "take (length (last (g_sent s))) (s_buf s) = last (g_sent s)"
      "s_msg_size s = word_of_nat (length (last (g_sent s)))"
      using busy S_validate e by (simp_all add: lb_exchange_busy Let_def)
    then have "validate_message (s_buf s) (s_msg_size s) = Some True"
      by (simp add: request_validates)
    then have t: "t = s\<lparr>s_pc := S_write\<rparr>"
      using S_validate move by (simp add: lb_server_step_def)
    have "lb_exchange_inv t" using busy S_validate e by (auto simp: t lb_exchange_busy Let_def)
    moreover have "lb_blocks_inv t" "lb_stats_inv t"
      using b st by (simp_all add: t lb_blocks_inv_def lb_stats_inv_def in_setup_def)
    moreover have "lb_abs t = lb_abs s"
      using busy S_validate by (simp add: t lb_abs_def lb_phase_def)
    ultimately show ?thesis by (simp add: lb_rest_def)
  next
    case S_read
    define m where "m = last (g_sent s)"
    obtain rp where t: "t = s\<lparr>ring := (ring s)\<lparr>lb_read_pos := rp\<rparr>, s_buf := m @ drop (length m) (s_buf s),
        s_msg_size := word_of_nat (length m), s_pc := S_clear, g_served := g_served s @ [m]\<rparr>"
      and h': "lb_holds ((ring s)\<lparr>lb_read_pos := rp\<rparr>) []" and len: "length m \<le> length (s_buf s)"
      and R: "\<not> lb_response_available (ring s)" "lb_message_available (ring s)"
      and busy: "\<not> client_idle (c_pc s)"
      using lb_server_reads [OF e b S_read m_def, of p alloc] move by (metis option.inject)
    have "lb_exchange_inv t"
      using busy S_read e R h' by (simp add: t lb_exchange_busy Let_def m_def [symmetric] split: if_splits)
    moreover have "lb_blocks_inv t" "lb_stats_inv t"
      using b st len by (simp_all add: t lb_blocks_inv_def lb_stats_inv_def in_setup_def)
    moreover have "echo_step0 (lb_abs s) (lb_abs t)"
      using busy S_read R by (intro echo_step0_intros(2)) (simp_all add: t lb_abs_def lb_phase_def m_def)
    ultimately show ?thesis by (simp add: lb_rest_def)
  next
    case S_write
    obtain buf wp where t: "t = s\<lparr>ring := (ring s)\<lparr>lb_buffer := buf, lb_write_pos := wp\<rparr>, s_pc := S_signal G_store\<rparr>"
      and h': "lb_holds ((ring s)\<lparr>lb_buffer := buf, lb_write_pos := wp\<rparr>) [last (g_sent s)]"
      and R: "\<not> lb_response_available (ring s)" "\<not> lb_message_available (ring s)"
      and busy: "\<not> client_idle (c_pc s)"
      using lb_server_writes [OF e b S_write, of p alloc] move by (metis option.inject)
    have "lb_exchange_inv t"
      using busy S_write e R h' by (simp add: t lb_exchange_busy Let_def)
    moreover have "lb_blocks_inv t" "lb_stats_inv t"
      using b st by (simp_all add: t lb_blocks_inv_def lb_stats_inv_def in_setup_def)
    moreover have "echo_step0 (lb_abs s) (lb_abs t)"
      using busy S_write R by (intro echo_step0_intros(3)) (simp_all add: t lb_abs_def lb_phase_def)
    ultimately show ?thesis by (simp add: lb_rest_def)
  qed (use move b in \<open>auto simp: lb_server_step_def lb_blocks_inv_def in_setup_def\<close>)
qed


lemma server_wake_places [simp]:
  "server_quiet (s_pc (wake_server s)) = server_quiet (s_pc s)"
  "server_phase (s_pc (wake_server s)) r = server_phase (s_pc s) r"
  "in_setup (s_pc (wake_server s)) = in_setup (s_pc s)"
  "(s_pc (wake_server s) = S_read) = (s_pc s = S_read)"
  "(s_pc (wake_server s) = S_clear) = (s_pc s = S_clear)"
  "(s_pc (wake_server s) = S_crash) = (s_pc s = S_crash)"
  "(s_pc (wake_server s) = S_signal g) = (s_pc s = S_signal g)"
  by (auto simp: wake_server_def in_setup_def split: lb_server_pc.splits)

text \<open>A step of the client outside the exchange of a request for its answer.\<close>

lemma lb_client_outside:
  assumes "client_idle (c_pc s)" "c_pc s \<noteq> C_clear" "lb_exchange_inv s"
    and "client_idle (c_pc t)" "c_pc t \<notin> {C_clear, C_account}"
    and "ring t = ring s" "s_pc t = s_pc s" "g_sent t = g_sent s" "g_served t = g_served s"
      "g_rcvd t = g_rcvd s"
  shows "lb_exchange_inv t \<and> echo_step0 (lb_abs s) (lb_abs t)"
  using assms by (simp add: lb_exchange_idle lb_abs_def lb_phase_def)

text \<open>A step of the client that only moves on within the exchange.\<close>

lemma lb_client_within:
  assumes inv: "lb_exchange_inv s" "lb_blocks_inv s" "lb_stats_inv s"
    and b: "\<not> client_idle (c_pc s)" "\<not> client_idle pc" "pc \<noteq> C_crash"
    and g: "c_pc s \<noteq> C_signal G_store" "pc \<noteq> C_signal G_store"
    and r: "pc = C_read \<longrightarrow> lb_response_available (ring s)"
    and t: "t = s\<lparr>c_pc := pc\<rparr> \<or> t = (wake_server s)\<lparr>c_pc := pc\<rparr> \<or>
      t = s\<lparr>ring := (ring s)\<lparr>lb_server_futex := f\<rparr>, c_pc := pc\<rparr>"
  shows "lb_rest s t"
proof -
  have i: "c_pc s \<noteq> C_clear" "c_pc s \<noteq> C_account" "pc \<noteq> C_clear" "pc \<noteq> C_account" "pc \<noteq> C_write"
    "pc \<noteq> CI_ready" "pc \<noteq> C_malloc"
    using b by auto
  have "lb_exchange_inv t"
    using t by (elim disjE) (use b g r inv(1) in
      \<open>simp_all add: lb_exchange_busy Let_def cong: phase.case_cong\<close>)
  moreover have "lb_blocks_inv t" "lb_stats_inv t"
    using t by (elim disjE; use inv(2,3) b i in \<open>simp add: lb_blocks_inv_def lb_stats_inv_def Let_def\<close>)+
  moreover have "lb_abs t = lb_abs s"
    using t by (elim disjE) (use b in \<open>simp_all add: lb_abs_def lb_phase_def\<close>)
  ultimately show ?thesis by (simp add: lb_rest_def)
qed

lemma lb_client_rest:
  assumes "lb_inv s" "lb_client_move p alloc rnd s = Some t"
  shows "lb_rest s t"
proof -
  have b: "lb_blocks_inv s" and e: "lb_exchange_inv s" and st: "lb_stats_inv s"
    using assms(1) by (simp_all add: lb_inv_def)
  note out = lb_client_outside [OF _ _ e, of t]
  note within = lb_client_within [OF e b st]
  have len: "length (c_buf s) = unat MAX_MSG_SIZE" using b by (simp add: lb_blocks_inv_def)
  have move: "lb_client_step p alloc rnd s = Some t" if "c_pc s \<noteq> CI_ready"
    using assms(2) that by (simp add: lb_client_move_def)
  show ?thesis
  proof (cases "c_pc s")
    case CI_ready
    then have "t = s \<or> t = s\<lparr>c_pc := C_malloc\<rparr>"
      using assms(2) by (auto simp: lb_client_move_def lb_client_setup_step_def split: if_splits)
    then show ?thesis
      by (rule disjE) (use CI_ready e b st out in
        \<open>simp_all add: lb_rest_def lb_blocks_inv_def lb_stats_inv_def\<close>)
  next
    case C_malloc
    obtain buf where buf: "store32 (c_buf s) off_seq 0 = Some buf"
      using store32_in [of off_seq "c_buf s" 0] len by (auto simp: MAX_MSG_SIZE_def)
    have "t = s\<lparr>c_pc := C_done\<rparr> \<or>
        t = s\<lparr>c_buf := buf, c_ops := 0, c_bytes := 0, c_lat := [],
               c_end := clock s + duration_us (p_client_secs p), c_pc := C_loop\<rparr>"
      using move C_malloc buf by (auto simp: lb_client_step_def split: if_splits)
    then show ?thesis
      by (rule disjE) (use C_malloc e b st out store_length(1) [OF buf] in
        \<open>simp_all add: lb_rest_def lb_blocks_inv_def lb_stats_inv_def\<close>)
  next
    case C_loop
    then have "t = s\<lparr>c_pc := C_build\<rparr> \<or> t = s\<lparr>c_pc := C_stats\<rparr>"
      using move by (auto simp: lb_client_step_def split: if_splits)
    then show ?thesis
      by (rule disjE) (use C_loop e b st out in
        \<open>simp_all add: lb_rest_def lb_blocks_inv_def lb_stats_inv_def\<close>)
  next
    case C_build
    obtain buf n where buf: "next_request rnd (clock s) (c_buf s) = Some buf" "length buf = length (c_buf s)"
      "load32 buf off_size = Some n" "request (take (unat n) buf)" "unat n < 4132"
      using next_request_effect [OF len] by blast
    then have "t = s\<lparr>c_buf := buf, c_pc := C_write\<rparr>"
      using move C_build by (simp add: lb_client_step_def)
    then show ?thesis
      using C_build e b st out buf by (simp add: lb_rest_def lb_blocks_inv_def lb_stats_inv_def)
  next
    case C_write
    obtain n where n: "load32 (c_buf s) off_size = Some n" "unat n < 4132" "request (take (unat n) (c_buf s))"
      using b C_write by (auto simp: lb_blocks_inv_def)
    have h: "lb_holds (ring s) []" and MR: "\<not> lb_message_available (ring s)" "\<not> lb_response_available (ring s)"
      and sq: "server_quiet (s_pc s)"
      using e C_write by (simp_all add: lb_exchange_idle)
    have "unat (ucast n :: u64) \<le> length (c_buf s)"
      using n len by (simp add: MAX_MSG_SIZE_def)
    then obtain buf wp where r: "lb_ring_buffer_write (ring s) (c_buf s) (ucast n) =
        Some (True, (ring s)\<lparr>lb_buffer := buf, lb_write_pos := wp\<rparr>)"
      and h': "lb_holds ((ring s)\<lparr>lb_buffer := buf, lb_write_pos := wp\<rparr>) [take (unat n) (c_buf s)]"
      using lb_write_ok [OF h, of "ucast n" "c_buf s"] lb_room_empty [OF h] n(2) by auto
    have t: "t = s\<lparr>ring := (ring s)\<lparr>lb_buffer := buf, lb_write_pos := wp\<rparr>, c_pc := C_signal G_store,
        g_sent := g_sent s @ [take (unat n) (c_buf s)]\<rparr>"
      using move C_write n(1) r by (simp add: lb_client_step_def)
    have "s_pc s \<noteq> S_read" "s_pc s \<noteq> S_signal G_store" using sq by auto
    then have "lb_exchange_inv t"
      using MR sq h' n(3) by (simp add: t lb_exchange_busy Let_def server_phase_quiet)
    moreover have "lb_blocks_inv t" "lb_stats_inv t"
      using C_write b st n(3) by (simp_all add: t lb_blocks_inv_def lb_stats_inv_def)
    moreover have "echo_step0 (lb_abs s) (lb_abs t)"
      using MR sq C_write
      by (intro echo_step0_intros(1)) (simp_all add: t lb_abs_def lb_phase_def server_phase_quiet)
    ultimately show ?thesis by (simp add: lb_rest_def)
  next
    case (C_signal g)
    show ?thesis
    proof (cases g)
      case G_store
      have t: "t = s\<lparr>ring := (ring s)\<lparr>lb_message_available := True\<rparr>, c_pc := C_signal G_add\<rparr>"
        using G_store C_signal move by (simp add: lb_client_step_def)
      have "lb_exchange_inv t"
        using G_store C_signal e by (auto simp: t lb_exchange_busy Let_def split: phase.splits)
      moreover have "lb_blocks_inv t" "lb_stats_inv t"
        using C_signal b st by (simp_all add: t lb_blocks_inv_def lb_stats_inv_def)
      moreover have "lb_abs t = lb_abs s"
        using C_signal by (simp add: t lb_abs_def lb_phase_def)
      ultimately show ?thesis by (simp add: lb_rest_def)
    next
      case G_add
      then show ?thesis
        using move C_signal within [of "C_signal G_wake" t "lb_server_futex (ring s) + 1"]
        by (simp add: lb_client_step_def)
    next
      case G_wake
      then show ?thesis
        using move C_signal within [of C_check t] by (simp add: lb_client_step_def)
    qed
  next
    case C_check
    then show ?thesis
      using move within [of "C_wait W_cond" t] b by (simp add: lb_client_step_def lb_blocks_inv_def)
  next
    case (C_wait w)
    show ?thesis
    proof (cases "futex_wait_step (lb_response_available (ring s)) (lb_client_futex (ring s)) w")
      case (Continue w')
      then show ?thesis
        using move C_wait within [of "C_wait w'" t] by (simp add: lb_client_step_def)
    next
      case Return
      then have "lb_response_available (ring s)" by (cases w) (auto split: if_splits)
      then show ?thesis
        using Return move C_wait within [of C_read t] by (simp add: lb_client_step_def)
    qed (use move C_wait in \<open>simp add: lb_client_step_def\<close>)
  next
    case C_read
    define m where "m = last (g_sent s)"
    have R: "lb_response_available (ring s)" using C_read e by (simp add: lb_exchange_busy Let_def)
    then have h: "lb_holds (ring s) [m]" and m: "request m" and M: "\<not> lb_message_available (ring s)"
      and sq: "server_quiet (s_pc s)" and ph: "lb_phase s = Responded"
      using C_read e by (cases "s_pc s"; auto simp: lb_exchange_busy Let_def m_def lb_phase_def split: if_splits)+
    have "length m \<le> unat MAX_MSG_SIZE" "length m \<le> length (c_buf s)"
      using request_lengths [OF m] len by (simp_all add: MAX_MSG_SIZE_def)
    then obtain rp where r: "lb_ring_buffer_read (ring s) (c_buf s) MAX_MSG_SIZE =
        Some (True, (ring s)\<lparr>lb_read_pos := rp\<rparr>, m @ drop (length m) (c_buf s), word_of_nat (length m))"
      and h': "lb_holds ((ring s)\<lparr>lb_read_pos := rp\<rparr>) []" and lm: "length m \<le> length (c_buf s)"
      using lb_read_ok [OF h] by blast
    have t: "t = s\<lparr>ring := (ring s)\<lparr>lb_read_pos := rp\<rparr>, c_buf := m @ drop (length m) (c_buf s),
        c_msg_size := word_of_nat (length m), c_pc := C_clear, g_rcvd := g_rcvd s @ [m]\<rparr>"
      using C_read move r request_lengths [OF m] by (simp add: lb_client_step_def)
    have "lb_exchange_inv t"
      using C_read R M sq h' m by (simp add: t lb_exchange_idle m_def [symmetric])
    moreover have "lb_blocks_inv t" "lb_stats_inv t"
      using C_read b st lm by (simp_all add: t lb_blocks_inv_def lb_stats_inv_def m_def [symmetric])
    moreover have "echo_step0 (lb_abs s) (lb_abs t)"
      using ph by (intro echo_step0_intros(4)) (simp_all add: t lb_abs_def m_def lb_phase_def)
    ultimately show ?thesis by (simp add: lb_rest_def)
  next
    case C_clear
    then have t: "t = s\<lparr>ring := (ring s)\<lparr>lb_response_available := False\<rparr>, c_pc := C_account\<rparr>"
      using move by (simp add: lb_client_step_def)
    have "lb_exchange_inv t" using C_clear e by (simp add: t lb_exchange_idle)
    moreover have "lb_blocks_inv t" "lb_stats_inv t"
      using C_clear b st by (simp_all add: t lb_blocks_inv_def lb_stats_inv_def)
    moreover have "lb_abs t = lb_abs s" using C_clear by (simp add: t lb_abs_def lb_phase_def)
    ultimately show ?thesis by (simp add: lb_rest_def)
  next
    case C_account
    define m where "m = last (g_sent s)"
    have m: "request m" and c: "take (length m) (c_buf s) = m" "c_msg_size s = word_of_nat (length m)"
      using C_account e b by (simp_all add: lb_exchange_idle lb_blocks_inv_def m_def)
    obtain ts where "load64 (c_buf s) off_timestamp = Some ts"
      using len by (auto simp: load64_def mem_read_def MAX_MSG_SIZE_def)
    then have t: "t = s\<lparr>c_lat := if length (c_lat s) < MAX_LATENCIES
        then c_lat s @ [clock s - ts] else c_lat s,
        c_ops := c_ops s + 1, c_bytes := c_bytes s + c_msg_size s, c_pc := C_loop\<rparr>"
      using move C_account request_validates [OF m c(1)] by (simp add: lb_client_step_def c(2))
    have r: "g_rcvd s \<noteq> []" "last (g_rcvd s) = m"
      using C_account st by (simp_all add: lb_stats_inv_def Let_def m_def)
    have "length (g_rcvd s) = Suc (length (butlast (g_rcvd s)))" using r(1) by simp
    then have "lb_stats_inv t"
      using C_account st sum_list_snoc [OF r(1), of length]
      by (auto simp: t lb_stats_inv_def Let_def c(2) r(2) butlast_conv_take)
    moreover have "lb_blocks_inv t" using C_account b by (simp add: t lb_blocks_inv_def)
    moreover have "lb_exchange_inv t \<and> echo_step0 (lb_abs s) (lb_abs t)"
      using C_account by (intro out) (simp_all add: t)
    ultimately show ?thesis by (simp add: lb_rest_def)
  next
    case C_stats
    have "length (c_lat s) \<le> MAX_LATENCIES" using st by (simp add: lb_stats_inv_def Let_def)
    then obtain rep where "run_report (p_cpu p) (p_client_secs p) (c_lat s) (c_ops s) (c_bytes s) = Some rep"
      by (rule run_report_total)
    then have "t = s\<lparr>c_report := Some rep, c_pc := C_done\<rparr>"
      using move C_stats by (simp add: lb_client_step_def)
    then show ?thesis
      using C_stats e b st out by (simp add: lb_rest_def lb_blocks_inv_def lb_stats_inv_def)
  qed (use move b in \<open>auto simp: lb_client_step_def lb_blocks_inv_def\<close>)
qed


lemma lb_clock [simp]:
  "lb_exchange_inv (s\<lparr>clock := now\<rparr>) = lb_exchange_inv s"
  "lb_blocks_inv (s\<lparr>clock := now\<rparr>) = lb_blocks_inv s"
  "lb_stats_inv (s\<lparr>clock := now\<rparr>) = lb_stats_inv s"
  "lb_abs (s\<lparr>clock := now\<rparr>) = lb_abs s"
  by (simp_all add: lb_exchange_inv_def lb_blocks_inv_def lb_stats_inv_def lb_abs_def lb_phase_def
      cong: phase.case_cong)

lemma lb_spurious:
  assumes "lb_inv s"
  shows "s_pc s = S_wait W_asleep \<Longrightarrow> lb_wake_inv (s\<lparr>s_pc := S_wait W_cond\<rparr>) \<and> lb_rest s (s\<lparr>s_pc := S_wait W_cond\<rparr>)"
    and "c_pc s = C_wait W_asleep \<Longrightarrow> lb_wake_inv (s\<lparr>c_pc := C_wait W_cond\<rparr>) \<and> lb_rest s (s\<lparr>c_pc := C_wait W_cond\<rparr>)"
    and "lb_wake_inv (s\<lparr>clock := now\<rparr>) \<and> lb_rest s (s\<lparr>clock := now\<rparr>)"
proof -
  note inv = assms [unfolded lb_inv_def]
  show "lb_wake_inv (s\<lparr>s_pc := S_wait W_cond\<rparr>) \<and> lb_rest s (s\<lparr>s_pc := S_wait W_cond\<rparr>)"
    if "s_pc s = S_wait W_asleep"
    using inv that lb_server_quiet [of s "S_wait W_cond" "s\<lparr>s_pc := S_wait W_cond\<rparr>"]
    by (simp add: lb_wake_inv_def client_waiter_def server_waiter_def client_sig_def server_sig_def)
  show "lb_wake_inv (s\<lparr>c_pc := C_wait W_cond\<rparr>) \<and> lb_rest s (s\<lparr>c_pc := C_wait W_cond\<rparr>)"
    if "c_pc s = C_wait W_asleep"
    using inv that lb_client_within [of s "C_wait W_cond" "s\<lparr>c_pc := C_wait W_cond\<rparr>"]
    by (simp add: lb_wake_inv_def client_waiter_def server_waiter_def client_sig_def server_sig_def)
  show "lb_wake_inv (s\<lparr>clock := now\<rparr>) \<and> lb_rest s (s\<lparr>clock := now\<rparr>)"
    using inv
    by (simp add: lb_wake_inv_def client_waiter_def server_waiter_def client_sig_def server_sig_def
        lb_rest_def)
qed

lemma lb_step_inv:
  assumes "lb_inv s" "lb_live s" "lb_step p s t" "lb_live t"
  shows "lb_inv t \<and> echo_step0 (lb_abs s) (lb_abs t)"
proof -
  have "lb_wake_inv t \<and> lb_rest s t"
    using assms(3)
  proof cases
    case (server alloc)
    then show ?thesis using assms lb_server_wake lb_server_rest by blast
  next
    case (client rnd alloc)
    then show ?thesis using assms lb_client_wake lb_client_rest by blast
  qed (use lb_spurious [OF assms(1)] in simp_all)
  then show ?thesis by (simp add: lb_rest_def lb_inv_def)
qed

text \<open>Once the server has left its loop it stays outside.\<close>

lemma in_free_step:
  assumes "lb_step p s t" "in_free (s_pc s) \<or> s_pc s = S_done"
  shows "in_free (s_pc t) \<or> s_pc t = S_done"
  using assms(1)
proof cases
  case (server alloc)
  have "\<not> in_setup (s_pc s)" using assms(2) by (auto simp: in_setup_def)
  show ?thesis
  proof (cases "s_pc s")
    case (F_client g)
    then show ?thesis using server by (cases g) (auto simp: lb_server_move_def lb_free_server_step_def in_setup_def)
  next
    case (F_server g)
    then show ?thesis using server by (cases g) (auto simp: lb_server_move_def lb_free_server_step_def in_setup_def)
  qed (use server assms(2) in \<open>auto simp: lb_server_move_def lb_free_server_step_def in_setup_def lb_server_step_def\<close>)
next
  case (client rnd alloc)
  show ?thesis
  proof (cases "c_pc s")
    case (C_signal g)
    then show ?thesis using assms(2) client wake_server_cases [of s]
      by (cases g) (auto simp: lb_client_move_def lb_client_step_def)
  qed (use client assms(2) in \<open>auto simp: lb_client_move_def lb_client_step_def lb_client_setup_step_def Let_def
      split: if_splits wait_next.splits option.splits bind_splits\<close>)
qed (use assms(2) in auto)

lemma lb_live_back: "lb_step p s t \<Longrightarrow> lb_live t \<Longrightarrow> lb_live s"
  using in_free_step by (auto simp: lb_live_def)

interpretation lb: echo_implementation "lb_step p"
  "\<lambda>s. lb_up p s \<and> unat MAX_MSG_SIZE \<le> unat (p_size p) \<and> unat (p_size p) \<le> 2 ^ 31"
  lb_live lb_inv lb_abs
proof unfold_locales
  fix s assume u: "lb_up p s \<and> unat MAX_MSG_SIZE \<le> unat (p_size p) \<and> unat (p_size p) \<le> 2 ^ 31"
  then show "lb_inv s" using lb_inv_start by blast
  show "lb_abs s = echo_init"
    using u by (simp add: lb_up_def lb_fresh_def lb_abs_def lb_phase_def echo_init_def)
qed (use lb_step_inv lb_live_back in blast)+


subsection \<open>What the invariant gives\<close>

lemma lb_inv_read:
  assumes "lb_inv s" "c_pc s = C_read"
  shows "lb_response_available (ring s)" "server_quiet (s_pc s)"
proof -
  have e: "lb_exchange_inv s" using assms(1) by (simp add: lb_inv_def)
  show R: "lb_response_available (ring s)" using e assms(2) by (simp add: lb_exchange_busy Let_def)
  show "server_quiet (s_pc s)"
    using e assms(2) R by (cases "s_pc s") (auto simp: lb_exchange_busy Let_def split: if_splits)
qed

lemma lb_inv_awake:
  assumes "lb_inv s" "s_pc s = S_wait W_asleep"
  shows "c_pc s \<noteq> C_wait W_asleep"
  using assms
  by (auto simp: lb_inv_def lb_wake_inv_def client_waiter_def server_waiter_def client_sig_def
      server_sig_def lb_exchange_busy Let_def split: if_splits)

lemma lb_inv_valid:
  assumes "lb_inv s"
  shows "s_pc s = S_validate \<Longrightarrow> validate_message (s_buf s) (s_msg_size s) = Some True"
    and "c_pc s = C_account \<Longrightarrow> validate_message (c_buf s) (c_msg_size s) = Some True"
proof -
  have e: "lb_exchange_inv s" and b: "lb_blocks_inv s" using assms by (simp_all add: lb_inv_def)
  show "validate_message (c_buf s) (c_msg_size s) = Some True" if "c_pc s = C_account"
    using that e b request_validates [of "last (g_sent s)" "c_buf s"]
    by (simp add: lb_exchange_idle lb_blocks_inv_def)
  assume pc: "s_pc s = S_validate"
  then have "\<not> client_idle (c_pc s)" using e by (auto simp: lb_exchange_idle)
  then show "validate_message (s_buf s) (s_msg_size s) = Some True"
    using pc e request_validates [of "last (g_sent s)" "s_buf s"]
    by (auto simp: lb_exchange_busy Let_def)
qed

text \<open>The client's request is answered when the flag is up and the client is not asleep.\<close>

definition lb_answered :: "lb_state \<Rightarrow> bool" where
  "lb_answered s \<longleftrightarrow> lb_response_available (ring s) \<and> client_waiter s \<noteq> Some W_asleep"

fun lb_server_run :: "lb_params \<Rightarrow> nat \<Rightarrow> lb_state \<Rightarrow> lb_state option" where
  "lb_server_run p 0 s = Some s"
| "lb_server_run p (Suc n) s = lb_server_move p True s \<bind> lb_server_run p n"

text \<open>How many moves the server still needs to answer, at most.\<close>

fun serve_rank :: "bool \<Rightarrow> lb_server_pc \<Rightarrow> nat" where
  "serve_rank r (S_signal G_wake) = (if r then 1 else 13)"
| "serve_rank r (S_signal G_add) = (if r then 2 else 14)"
| "serve_rank r (S_signal G_store) = 3"
| "serve_rank r S_write = 4"
| "serve_rank r S_validate = 5"
| "serve_rank r S_clear = 6"
| "serve_rank r S_read = 7"
| "serve_rank r (S_wait W_cond) = 8"
| "serve_rank r (S_wait (W_recheck v)) = 9"
| "serve_rank r (S_wait (W_call v)) = 9"
| "serve_rank r (S_wait W_load) = 10"
| "serve_rank r S_loop = 11"
| "serve_rank r S_malloc = 12"
| "serve_rank r pc = 0"

lemma serve_rank_le: "serve_rank r pc \<le> 14"
  by (cases "(r, pc)" rule: serve_rank.cases) auto

text \<open>While the client waits unanswered: the flags, and the places the server can be at.\<close>

lemma lb_waiting:
  assumes inv: "lb_inv s" and c: "c_pc s = C_wait w" and na: "\<not> lb_answered s"
  shows "lb_response_available (ring s) \<Longrightarrow> s_pc s = S_signal G_add \<or> s_pc s = S_signal G_wake"
    and "\<not> lb_response_available (ring s) \<Longrightarrow> server_quiet (s_pc s) \<Longrightarrow> lb_message_available (ring s)"
    and "s_pc s \<noteq> S_wait W_asleep"
    and "s_pc s = S_wait (W_call v) \<Longrightarrow> lb_server_futex (ring s) \<noteq> v"
proof -
  have e: "lb_exchange_inv s" and b: "lb_blocks_inv s" and wk: "lb_wake_inv s"
    using inv by (simp_all add: lb_inv_def)
  show R: "s_pc s = S_signal G_add \<or> s_pc s = S_signal G_wake" if "lb_response_available (ring s)"
    using that na c wk by (auto simp: lb_answered_def client_waiter_def lb_wake_inv_def server_sig_def
        split: lb_server_pc.splits)
  show M: "lb_message_available (ring s)" if "\<not> lb_response_available (ring s)" "server_quiet (s_pc s)"
    using that c e by (simp add: lb_exchange_busy server_phase_quiet Let_def)
  have quiet: "server_quiet (S_wait x)" for x by simp
  have wm: "s_pc s = S_wait x \<Longrightarrow> lb_message_available (ring s)" for x
    using R M by force
  show "s_pc s \<noteq> S_wait W_asleep"
    using wm wk c by (auto simp: lb_wake_inv_def server_waiter_def client_sig_def)
  show "lb_server_futex (ring s) \<noteq> v" if pc: "s_pc s = S_wait (W_call v)"
    using wm [OF pc] wk c pc adds_since_moved
    by (auto simp: lb_wake_inv_def server_waiter_def client_sig_def)
qed

lemma wake_client_waiting:
  "c_pc s = C_wait w \<Longrightarrow> wake_client s = s\<lparr>c_pc := C_wait (futex_wake w)\<rparr>"
  by (simp add: wake_client_def)

lemma futex_wake_not_asleep [simp]: "futex_wake w \<noteq> W_asleep"
  by (cases w) simp_all

lemma lb_serve_progress:
  assumes inv: "lb_inv s" and c: "c_pc s = C_wait w" and na: "\<not> lb_answered s" and live: "lb_live s"
  shows "\<exists>t. lb_server_move p True s = Some t \<and>
     (\<not> lb_live t \<or> lb_answered t \<or>
      (\<exists>w'. c_pc t = C_wait w') \<and>
       serve_rank (lb_response_available (ring t)) (s_pc t)
         < serve_rank (lb_response_available (ring s)) (s_pc s))"
proof -
  note wt = lb_waiting [OF inv c na]
  have b: "lb_blocks_inv s" using inv by (simp add: lb_inv_def)
  have move: "lb_server_move p True s = lb_server_step p True s"
    using b live by (simp add: lb_server_move_def lb_blocks_inv_def lb_live_def)
  show ?thesis
  proof (cases "s_pc s")
    case S_loop
    then show ?thesis using wt(1) c by (auto simp: move lb_server_step_def lb_live_def)
  next
    case S_malloc
    then show ?thesis using wt(1) c by (auto simp: move lb_server_step_def)
  next
    case (S_wait x)
    then show ?thesis using wt c
      by (cases x) (auto simp: move lb_server_step_def)
  next
    case (S_signal g)
    then show ?thesis using wt c na
      by (cases g) (auto simp: move lb_server_step_def lb_answered_def client_waiter_def wake_client_waiting)
  next
    case S_read
    have e: "lb_exchange_inv s" using inv by (simp add: lb_inv_def)
    show ?thesis
      by (rule lb_server_reads [OF e b S_read HOL.refl, of p True]) (use c S_read in \<open>simp add: move\<close>)
  next
    case S_clear
    then show ?thesis using wt(1) c by (auto simp: move lb_server_step_def)
  next
    case S_validate
    then show ?thesis using wt(1) c lb_inv_valid(1) [OF inv] by (auto simp: move lb_server_step_def)
  next
    case S_write
    have e: "lb_exchange_inv s" using inv by (simp add: lb_inv_def)
    show ?thesis
      by (rule lb_server_writes [OF e b S_write, of p True]) (use c S_write in \<open>simp add: move\<close>)
  qed (use b live in \<open>auto simp: lb_blocks_inv_def lb_live_def in_setup_def\<close>)
qed


lemma lb_serve_bounded:
  assumes "lb_inv s" "c_pc s = C_wait w" "lb_live s"
    and "serve_rank (lb_response_available (ring s)) (s_pc s) \<le> k"
  shows "\<exists>n t. n \<le> Suc k \<and> lb_server_run p n s = Some t \<and> (\<not> lb_live t \<or> lb_answered t)"
  using assms
proof (induction k arbitrary: s w rule: less_induct)
  case (less k)
  show ?case
  proof (cases "lb_answered s")
    case True
    then have "lb_server_run p 0 s = Some s \<and> (\<not> lb_live s \<or> lb_answered s)" by simp
    then show ?thesis by blast
  next
    case False
    obtain t where t: "lb_server_move p True s = Some t"
      and d: "\<not> lb_live t \<or> lb_answered t \<or> (\<exists>w'. c_pc t = C_wait w') \<and>
        serve_rank (lb_response_available (ring t)) (s_pc t)
          < serve_rank (lb_response_available (ring s)) (s_pc s)"
      using lb_serve_progress [OF less.prems(1,2) False less.prems(3), of p] by blast
    show ?thesis
    proof (cases "\<not> lb_live t \<or> lb_answered t")
      case True
      have "lb_server_run p 1 s = Some t" using t by simp
      then show ?thesis using True by (intro exI [of _ 1] exI [of _ t]) simp
    next
      case False
      define j where "j = serve_rank (lb_response_available (ring t)) (s_pc t)"
      have j: "j < k" using False d less.prems(4) by (auto simp: j_def)
      obtain w' where "c_pc t = C_wait w'" using False d by blast
      moreover have "lb_inv t"
        using lb_step_inv [OF less.prems(1,3) lb_step.server [OF t]] False by blast
      ultimately obtain n u where "n \<le> Suc j" "lb_server_run p n t = Some u" "\<not> lb_live u \<or> lb_answered u"
        using less.IH [OF j, of t w'] False by (auto simp: j_def)
      then show ?thesis
        using t j by (intro exI [of _ "Suc n"] exI [of _ u]) simp
    qed
  qed
qed

subsection \<open>Runs\<close>

text \<open>A run under a schedule: the server moves on \<open>True\<close>, the client on \<open>False\<close>; allocations succeed.\<close>

fun lb_moves :: "lb_params \<Rightarrow> bool list \<Rightarrow> lb_state \<Rightarrow> lb_state option" where
  "lb_moves p [] s = Some s"
| "lb_moves p (True # xs) s = lb_server_move p True s \<bind> lb_moves p xs"
| "lb_moves p (False # xs) s = lb_client_move p True 0 s \<bind> lb_moves p xs"

lemma lb_moves_reach: "lb_moves p xs s = Some t \<Longrightarrow> reach (lb_step p) s t"
proof (induction xs arbitrary: s)
  case Nil
  then show ?case by (auto intro: reach.init)
next
  case (Cons x xs)
  obtain u where "if x then lb_server_move p True s = Some u else lb_client_move p True 0 s = Some u"
    and "lb_moves p xs u = Some t"
    using Cons.prems by (cases x) (auto simp: Option.bind_eq_Some_conv)
  then have u: "lb_step p s u" "lb_moves p xs u = Some t"
    using lb_step.server [of p True s u] lb_step.client [of 0 p True s u] by (auto split: if_splits)
  have "reach (lb_step p) s u"
    by (rule reach.step, rule reach.init, rule u(1))
  then show ?case
    by (rule reach_trans [OF Cons.IH [OF u(2)]])
qed

lemma lb_moves_append: "lb_moves p (xs @ ys) s = lb_moves p xs s \<bind> lb_moves p ys"
proof (induction xs arbitrary: s)
  case (Cons x xs)
  then show ?case
    by (cases x; cases "lb_server_move p True s"; cases "lb_client_move p True 0 s"; simp)
qed simp

lemmas moves_simps = numeral_eq_Suc pred_numeral_simps Num.arith_simps BitM.simps replicate_Suc
  replicate_0 lb_moves.simps Option.bind.simps

text \<open>A process whose flag stays down falls asleep.\<close>

lemma lb_client_sleeps:
  assumes "c_pc s = C_wait W_cond" "\<not> lb_response_available (ring s)"
  shows "lb_moves p (replicate 4 False) s = Some (s\<lparr>c_pc := C_wait W_asleep\<rparr>)"
  using assms by (simp add: numeral_eq_Suc lb_client_move_def lb_client_step_def)

lemma lb_server_sleeps:
  assumes "s_pc s = S_wait W_cond" "\<not> lb_message_available (ring s)"
  shows "lb_moves p (replicate 4 True) s = Some (s\<lparr>s_pc := S_wait W_asleep\<rparr>)"
  using assms by (simp add: numeral_eq_Suc lb_server_move_def in_setup_def lb_server_step_def)

text \<open>The client's first request, up to the moment it sleeps waiting for the answer.\<close>

lemma lb_first_request:
  assumes s: "c_pc s = CI_ready" "lb_ready (ring s)" "lb_holds (ring s) []" "length (c_buf s) = unat MAX_MSG_SIZE"
    and c: "clock s < clock s + duration_us (p_client_secs p)" and "server_waiter s = None" "\<not> lb_response_available (ring s)"
  shows "\<exists>t m buf e wp cb. lb_moves p (replicate 13 False) s = Some t \<and>
     t = s\<lparr>ring := (ring s)\<lparr>lb_buffer := buf, lb_write_pos := wp, lb_message_available := True,
       lb_server_futex := lb_server_futex (ring s) + 1\<rparr>, c_pc := C_wait W_asleep,
       c_buf := cb, c_ops := 0, c_bytes := 0, c_lat := [], c_end := e, g_sent := g_sent s @ [m]\<rparr> \<and>
     lb_holds (ring t) [m] \<and> request m \<and> length cb = unat MAX_MSG_SIZE"
proof -
  obtain b0 where b0: "store32 (c_buf s) off_seq 0 = Some b0" and l0: "length b0 = unat MAX_MSG_SIZE"
    using store32_in [of off_seq "c_buf s" 0] s(4) store_length(1) by (fastforce simp: MAX_MSG_SIZE_def)
  obtain buf n where buf: "next_request 0 (clock s) b0 = Some buf" "length buf = length b0"
    "load32 buf off_size = Some n" "request (take (unat n) buf)" "unat n < 4132"
    using next_request_effect [OF l0] by blast
  have "unat (ucast n :: u64) \<le> length buf" using buf l0 by (simp add: MAX_MSG_SIZE_def)
  then obtain rb wp where r: "lb_ring_buffer_write (ring s) buf (ucast n) =
      Some (True, (ring s)\<lparr>lb_buffer := rb, lb_write_pos := wp\<rparr>)"
    and h: "lb_holds ((ring s)\<lparr>lb_buffer := rb, lb_write_pos := wp\<rparr>) [take (unat n) buf]"
    using lb_write_ok [OF s(3), of "ucast n" buf] lb_room_empty [OF s(3)] buf(5) by auto
  define s1 where "s1 = s\<lparr>c_pc := C_malloc\<rparr>"
  have m1: "lb_client_move p True 0 s = Some s1"
    using s by (simp add: lb_client_move_def lb_client_setup_step_def s1_def)
  define s2 where "s2 = s1\<lparr>c_buf := b0, c_ops := 0, c_bytes := 0, c_lat := [],
    c_end := clock s + duration_us (p_client_secs p), c_pc := C_loop\<rparr>"
  have m2: "lb_client_move p True 0 s1 = Some s2"
    using b0 by (simp add: lb_client_move_def lb_client_step_def s1_def s2_def)
  define s3 where "s3 = s2\<lparr>c_pc := C_build\<rparr>"
  have m3: "lb_client_move p True 0 s2 = Some s3"
    using c by (simp add: lb_client_move_def lb_client_step_def s1_def s2_def s3_def)
  define s4 where "s4 = s3\<lparr>c_buf := buf, c_pc := C_write\<rparr>"
  have m4: "lb_client_move p True 0 s3 = Some s4"
    using buf by (simp add: lb_client_move_def lb_client_step_def s1_def s2_def s3_def s4_def)
  define s5 where "s5 = s4\<lparr>ring := (ring s)\<lparr>lb_buffer := rb, lb_write_pos := wp\<rparr>, c_pc := C_signal G_store,
      g_sent := g_sent s @ [take (unat n) buf]\<rparr>"
  have m5: "lb_client_move p True 0 s4 = Some s5"
    using buf r by (simp add: lb_client_move_def lb_client_step_def s1_def s2_def s3_def s4_def s5_def)
  define s6 where "s6 = s5\<lparr>ring := (ring s5)\<lparr>lb_message_available := True\<rparr>, c_pc := C_signal G_add\<rparr>"
  have m6: "lb_client_move p True 0 s5 = Some s6"
    by (simp add: lb_client_move_def lb_client_step_def s5_def s6_def)
  define s7 where "s7 = s6\<lparr>ring := (ring s6)\<lparr>lb_server_futex := lb_server_futex (ring s) + 1\<rparr>, c_pc := C_signal G_wake\<rparr>"
  have m7: "lb_client_move p True 0 s6 = Some s7"
    by (simp add: lb_client_move_def lb_client_step_def s5_def s6_def s7_def)
  have sw: "s_pc s7 \<noteq> S_wait w" for w
    using assms(6) by (auto simp: s1_def s2_def s3_def s4_def s5_def s6_def s7_def server_waiter_def)
  then have "wake_server s7 = s7"
    by (auto simp: wake_server_def split: lb_server_pc.splits)
  then have m8: "lb_client_move p True 0 s7 = Some (s7\<lparr>c_pc := C_check\<rparr>)"
    by (simp add: lb_client_move_def lb_client_step_def s7_def)
  have fl: "lb_ready (ring s7)" "\<not> lb_response_available (ring s7)"
    using assms by (simp_all add: s5_def s6_def s7_def)
  have m9: "lb_client_move p True 0 (s7\<lparr>c_pc := C_check\<rparr>) = Some (s7\<lparr>c_pc := C_wait W_cond\<rparr>)"
    using fl by (simp add: lb_client_move_def lb_client_step_def)
  have "lb_moves p (replicate 9 False) s = Some (s7\<lparr>c_pc := C_wait W_cond\<rparr>)"
    by (simp only: moves_simps m1 m2 m3 m4 m5 m6 m7 m8 m9)
  then have "lb_moves p (replicate (9 + 4) False) s = Some (s7\<lparr>c_pc := C_wait W_asleep\<rparr>)"
    using lb_client_sleeps [of "s7\<lparr>c_pc := C_wait W_cond\<rparr>" p] fl
    by (simp only: replicate_add lb_moves_append Option.bind.simps) simp
  moreover have "s7\<lparr>c_pc := C_wait W_asleep\<rparr> = s\<lparr>ring := (ring s)\<lparr>lb_buffer := rb, lb_write_pos := wp, lb_message_available := True,
       lb_server_futex := lb_server_futex (ring s) + 1\<rparr>, c_pc := C_wait W_asleep,
       c_buf := buf, c_ops := 0, c_bytes := 0, c_lat := [], c_end := clock s + duration_us (p_client_secs p), g_sent := g_sent s @ [take (unat n) buf]\<rparr>"
    by (simp add: s1_def s2_def s3_def s4_def s5_def s6_def s7_def)
  moreover have "lb_holds (ring (s7\<lparr>c_pc := C_wait W_asleep\<rparr>)) [take (unat n) buf]"
    using h by (simp add: s5_def s6_def s7_def)
  ultimately show ?thesis
    using buf(2,4) l0
    by (intro exI [of _ "s7\<lparr>c_pc := C_wait W_asleep\<rparr>"] exI [of _ "take (unat n) buf"] exI [of _ rb]
      exI [of _ "clock s + duration_us (p_client_secs p)"] exI [of _ wp] exI [of _ buf]) simp
qed

lemma lb_race:
  assumes b: "lb_boot p s" and cap: "unat MAX_MSG_SIZE \<le> unat (p_size p)" "unat (p_size p) \<le> 2 ^ 31"
    and "clock s < clock s + duration_us (p_client_secs p)" "clock s < clock s + duration_us (p_server_secs p)"
  shows "\<exists>t m. reach (lb_step p) s t \<and> g_sent t = [m] \<and> request m \<and> lb_holds (ring t) [m] \<and>
     \<not> lb_message_available (ring t) \<and> \<not> lb_response_available (ring t) \<and>
     s_pc t = S_wait W_asleep \<and> c_pc t = C_wait W_asleep"
proof -
  have f: "s_pc s = SI_size" "ring s = lb_zero (unat (p_size p))" "c_pc s = CI_ready" "g_sent s = []"
    "length (c_buf s) = unat MAX_MSG_SIZE"
    using b by (simp_all add: lb_boot_def lb_fresh_def)
  define s1 where "s1 = s\<lparr>ring := (ring s)\<lparr>lb_size := p_size p, lb_ready := True\<rparr>, s_pc := SI_message\<rparr>"
  have m1: "lb_moves p (replicate 6 True) s = Some s1"
    using f by (simp add: numeral_eq_Suc lb_server_move_def in_setup_def s1_def lb_zero_def)
  have "lb_holds (ring s1) []"
    using cap f(2) by (auto simp: s1_def lb_zero_def lb_holds_def lb_capacity_ok_def
      MAX_MSG_SIZE_def ring_wf_def intro!: ring_holds_empty)
  then obtain t m buf e wp cb where m2: "lb_moves p (replicate 13 False) s1 = Some t"
    and t: "t = s1\<lparr>ring := (ring s1)\<lparr>lb_buffer := buf, lb_write_pos := wp, lb_message_available := True,
       lb_server_futex := lb_server_futex (ring s1) + 1\<rparr>, c_pc := C_wait W_asleep,
       c_buf := cb, c_ops := 0, c_bytes := 0, c_lat := [], c_end := e, g_sent := g_sent s1 @ [m]\<rparr>"
    and h: "lb_holds (ring t) [m]" "request m"
    using lb_first_request [of s1 p] f assms(4)
    by (auto simp: s1_def server_waiter_def lb_zero_def)
  define u where "u = t\<lparr>ring := (ring t)\<lparr>lb_message_available := False, lb_response_available := False\<rparr>,
      s_end := clock s + duration_us (p_server_secs p), s_pc := S_wait W_cond\<rparr>"
  have m3: "lb_moves p (replicate 4 True) t = Some u"
    using assms(5) by (simp add: numeral_eq_Suc lb_server_move_def in_setup_def lb_server_step_def u_def t s1_def)
  have "lb_moves p (replicate 6 True @ replicate 13 False @ replicate 4 True @ replicate 4 True) s
      = Some (u\<lparr>s_pc := S_wait W_asleep\<rparr>)"
    using m1 m2 m3 lb_server_sleeps [of u p] by (simp add: lb_moves_append u_def)
  then have "reach (lb_step p) s (u\<lparr>s_pc := S_wait W_asleep\<rparr>)" by (rule lb_moves_reach)
  moreover have "lb_holds (ring u) [m]" using h(1) by (simp add: u_def)
  ultimately show ?thesis
    using h(2) f(4) by (intro exI [of _ "u\<lparr>s_pc := S_wait W_asleep\<rparr>"] exI [of _ m]) (simp add: u_def t s1_def)
qed

text \<open>At shutdown the signal of \<open>free_lfshm_blocking_server\<close> reaches a client whose request is still in
  the ring: it takes its own request for the answer and counts it.\<close>

lemma lb_self_echo:
  assumes b: "lb_up p s" and cap: "unat MAX_MSG_SIZE \<le> unat (p_size p)" "unat (p_size p) \<le> 2 ^ 31"
    and c: "clock s < clock s + duration_us (p_client_secs p)" "clock s \<le> clock s + duration_us (p_server_secs p)"
  shows "\<exists>t m. reach (lb_step p) s t \<and> g_sent t = [m] \<and> g_served t = [] \<and> g_rcvd t = [m] \<and> c_ops t = 1"
proof -
  have f: "s_pc s = S_malloc" "c_pc s = CI_ready" "lb_ready (ring s)" "\<not> lb_response_available (ring s)"
      "length (c_buf s) = unat MAX_MSG_SIZE" "g_sent s = []" "g_served s = []" "g_rcvd s = []"
    using b by (simp_all add: lb_up_def lb_fresh_def lb_zero_def)
  have h: "lb_holds (ring s) []"
    using lb_inv_start [OF b cap] f(2) by (simp add: lb_inv_def lb_exchange_idle)
  define s1 where "s1 = s\<lparr>s_pc := S_loop, s_end := clock s + duration_us (p_server_secs p)\<rparr>"
  have m1: "lb_moves p [True] s = Some s1"
    using f by (simp add: lb_server_move_def in_setup_def lb_server_step_def s1_def)
  obtain t m buf e wp cb where m2: "lb_moves p (replicate 13 False) s1 = Some t"
    and t: "t = s1\<lparr>ring := (ring s1)\<lparr>lb_buffer := buf, lb_write_pos := wp, lb_message_available := True,
       lb_server_futex := lb_server_futex (ring s1) + 1\<rparr>, c_pc := C_wait W_asleep,
       c_buf := cb, c_ops := 0, c_bytes := 0, c_lat := [], c_end := e, g_sent := g_sent s1 @ [m]\<rparr>"
    and hm: "lb_holds (ring t) [m]" "request m" and lcb: "length cb = unat MAX_MSG_SIZE"
    using lb_first_request [of s1 p] f h c(1) by (auto simp: s1_def server_waiter_def)
  define u where "u = t\<lparr>clock := s_end s1\<rparr>"
  have tick: "lb_step p t u"
    using lb_step.tick [of t "s_end s1" p] c(2) by (simp add: u_def t s1_def)
  define v where "v = u\<lparr>ring := (ring t)\<lparr>lb_ready := False, lb_response_available := True,
    lb_client_futex := lb_client_futex (ring t) + 1\<rparr>, s_pc := F_server G_store, c_pc := C_wait W_cond\<rparr>"
  have m3: "lb_moves p (replicate 5 True) u = Some v"
    by (simp add: numeral_eq_Suc lb_server_move_def in_setup_def lb_server_step_def lb_free_server_step_def
        wake_client_def u_def v_def t s1_def)
  have hv: "lb_holds (ring v) [m]" using hm by (simp add: v_def u_def t)
  have cb: "length (c_buf v) = unat MAX_MSG_SIZE"
    using lcb by (simp add: v_def u_def t)
  have "length m \<le> unat MAX_MSG_SIZE" "length m \<le> length (c_buf v)"
    using request_lengths [OF hm(2)] cb by (simp_all add: MAX_MSG_SIZE_def)
  then obtain rp where r: "lb_ring_buffer_read (ring v) (c_buf v) MAX_MSG_SIZE =
        Some (True, (ring v)\<lparr>lb_read_pos := rp\<rparr>, m @ drop (length m) (c_buf v), word_of_nat (length m))"
    using lb_read_ok [OF hv] by blast
  have ld: "load64 (m @ drop (length m) (c_buf v)) off_timestamp \<noteq> None"
    using request_lengths [OF hm(2)] by (simp add: load64_def mem_read_def)
  have va: "validate_message (m @ drop (length m) (c_buf v)) (word_of_nat (length m)) = Some True"
    using request_validates [OF hm(2)] by simp
  obtain w where m4: "lb_moves p (replicate 4 False) v = Some w" and w: "g_sent w = [m]" "g_served w = []" "g_rcvd w = [m]" "c_ops w = 1"
    using r ld va f request_lengths [OF hm(2)]
    by (auto simp: numeral_eq_Suc lb_client_move_def lb_client_step_def v_def u_def t s1_def)
  show ?thesis
    using lb_moves_reach [OF m1] lb_moves_reach [OF m2] tick lb_moves_reach [OF m3] lb_moves_reach [OF m4] w
    by (meson reach_trans reach.step)
qed

subsection \<open>Properties\<close>

text \<open>C1: the echo property. When the set-up is finished before the client looks, and while the server runs,
  the answers the client has received are, byte for byte and in order, the requests it sent; the server
  took them in the same order; at most one is outstanding.\<close>

theorem lfshm_echo:
  assumes "reach (lb_step p) s0 s" "lb_up p s0"
    and "unat MAX_MSG_SIZE \<le> unat (p_size p)" "unat (p_size p) \<le> 2 ^ 31" and "lb_live s"
  shows "prefix (g_rcvd s) (g_served s) \<and> prefix (g_served s) (g_sent s) \<and>
    length (g_sent s) \<le> Suc (length (g_rcvd s))"
proof -
  have "echo_inv (lb_abs s)" using lb.reach_inv [of p s0 s] assms by blast
  then show ?thesis using echo_inv_prefix by (fastforce simp: lb_abs_def)
qed

text \<open>Refinement. The two processes implement the abstract echo protocol: the phase and the
  histories of every reachable state are those of a run of the protocol.\<close>

theorem lfshm_refines_echo:
  assumes "reach (lb_step p) s0 s" "lb_up p s0"
    and "unat MAX_MSG_SIZE \<le> unat (p_size p)" "unat (p_size p) \<le> 2 ^ 31" and "lb_live s"
  shows "reach echo_step echo_init (lb_abs s)"
  using lb.reach_abs [of p s0 s] assms by blast


text \<open>Exclusion. The two processes are never inside ring operations together, although no lock
  protects the ring: the flags hand it from one to the other.\<close>

theorem lfshm_ring_exclusive:
  assumes "reach (lb_step p) s0 s" "lb_up p s0"
    and "unat MAX_MSG_SIZE \<le> unat (p_size p)" "unat (p_size p) \<le> 2 ^ 31" and "lb_live s"
  shows "\<not> (s_pc s \<in> {S_read, S_write} \<and> c_pc s \<in> {C_read, C_write})"
proof -
  have i: "lb_inv s" using lb.reach_inv [of p s0 s] assms by blast
  then have "lb_exchange_inv s" by (simp add: lb_inv_def)
  then have "c_pc s = C_write \<Longrightarrow> server_quiet (s_pc s)" by (simp add: lb_exchange_idle)
  then show ?thesis using lb_inv_read(2) [OF i] by auto
qed

text \<open>C3: no lost wake-up. When the set-up is finished before the client looks, and while the server runs, the
  two processes never sleep at the same time. The first condition is needed: see the start-up race.\<close>

theorem lfshm_no_deadlock:
  assumes "reach (lb_step p) s0 s" "lb_up p s0"
    and "unat MAX_MSG_SIZE \<le> unat (p_size p)" "unat (p_size p) \<le> 2 ^ 31" and "lb_live s"
  shows "\<not> (s_pc s = S_wait W_asleep \<and> c_pc s = C_wait W_asleep)"
  using lb_inv_awake lb.reach_inv [of p s0 s] assms by blast

text \<open>C2: progress. When the set-up is finished before the client looks, and while the server runs, a client that
  waits for its answer has it, and is awake, after at most fifteen moves of the server, unless the
  server's time is up on the way and it leaves its loop.\<close>

theorem lfshm_answers:
  assumes "reach (lb_step p) s0 s" "lb_up p s0"
    and "unat MAX_MSG_SIZE \<le> unat (p_size p)" "unat (p_size p) \<le> 2 ^ 31"
    and "lb_live s" "c_pc s = C_wait w"
  shows "\<exists>n t. n \<le> 15 \<and> lb_server_run p n s = Some t \<and> (\<not> lb_live t \<or> lb_answered t)"
proof -
  have "lb_inv s" using lb.reach_inv [of p s0 s] assms by blast
  then show ?thesis
    using lb_serve_bounded [OF _ assms(6,5) serve_rank_le, of p] by simp
qed

text \<open>C11: the statistics. When the set-up is finished before the client looks, and while the server runs, between
  two exchanges \<open>ops\<close> is the number of answers received, \<open>bytes\<close> the number of their bytes, and one
  latency is recorded per answer up to \<open>MAX_LATENCIES\<close>. (The counters are 64-bit words.)\<close>

theorem lfshm_stats:
  assumes "reach (lb_step p) s0 s" "lb_up p s0"
    and "unat MAX_MSG_SIZE \<le> unat (p_size p)" "unat (p_size p) \<le> 2 ^ 31"
    and "lb_live s" "c_pc s \<notin> {C_clear, C_account}"
  shows "c_ops s = word_of_nat (length (g_rcvd s)) \<and>
    c_bytes s = word_of_nat (sum_list (map length (g_rcvd s))) \<and>
    length (c_lat s) = min MAX_LATENCIES (length (g_rcvd s))"
proof -
  have "lb_inv s" using lb.reach_inv [of p s0 s] assms by blast
  then show ?thesis using assms(6) by (simp add: lb_inv_def lb_stats_inv_def)
qed

text \<open>C12: the start-up race. The server stores \<open>ready\<close> before it clears the two flags: a client that
  starts in between has its signal cleared, and both processes sleep, its request still in the ring.\<close>

theorem lfshm_startup_race:
  assumes "lb_boot p s" "unat MAX_MSG_SIZE \<le> unat (p_size p)" "unat (p_size p) \<le> 2 ^ 31"
    and "clock s < clock s + duration_us (p_client_secs p)" "clock s < clock s + duration_us (p_server_secs p)"
  shows "\<exists>t m. reach (lb_step p) s t \<and> g_sent t = [m] \<and> lb_holds (ring t) [m] \<and>
    \<not> lb_message_available (ring t) \<and> \<not> lb_response_available (ring t) \<and>
    s_pc t = S_wait W_asleep \<and> c_pc t = C_wait W_asleep"
  using lb_race [OF assms] by blast

text \<open>C13: shutdown. When the server leaves while a request is in the ring, the client can read its own
  request as the answer and count it: an operation no server performed.\<close>

theorem lfshm_shutdown_self_echo:
  assumes "lb_up p s" "unat MAX_MSG_SIZE \<le> unat (p_size p)" "unat (p_size p) \<le> 2 ^ 31"
    and "clock s < clock s + duration_us (p_client_secs p)" "clock s \<le> clock s + duration_us (p_server_secs p)"
  shows "\<exists>t m. reach (lb_step p) s t \<and> g_sent t = [m] \<and> g_served t = [] \<and> g_rcvd t = [m] \<and> c_ops t = 1"
  using lb_self_echo [OF assms] by blast

subsection \<open>Instances\<close>

text \<open>The benchmark's own parameters: a ring of \<open>BUFFER_SIZE\<close> bytes and ten seconds.\<close>

definition lb_params0 :: lb_params where
  "lb_params0 = \<lparr>p_size = BUFFER_SIZE, p_server_secs = RUN_DURATION, p_client_secs = RUN_DURATION, p_cpu = (0, 0)\<rparr>"

definition lb_state0 :: "lb_server_pc \<Rightarrow> LockFreeBlockingRingBuffer \<Rightarrow> lb_state" where
  "lb_state0 pc rb = \<lparr>ring = rb, clock = 1, s_pc = pc, s_end = 0,
     s_buf = replicate (unat MAX_MSG_SIZE) 0, s_msg_size = 0, c_pc = CI_ready, c_end = 0,
     c_buf = replicate (unat MAX_MSG_SIZE) 0, c_msg_size = 0, c_ops = 0, c_bytes = 0, c_lat = [],
     c_report = None, g_sent = [], g_served = [], g_rcvd = []\<rparr>"

definition lb_up0 :: lb_state where
  "lb_up0 = lb_state0 S_malloc ((lb_zero (unat BUFFER_SIZE))\<lparr>lb_size := BUFFER_SIZE, lb_ready := True\<rparr>)"

definition lb_boot0 :: lb_state where
  "lb_boot0 = lb_state0 SI_size (lb_zero (unat BUFFER_SIZE))"

lemma lb_instances:
  "lb_up lb_params0 lb_up0" "lb_boot lb_params0 lb_boot0"
  "unat MAX_MSG_SIZE \<le> unat (p_size lb_params0)" "unat (p_size lb_params0) \<le> 2 ^ 31"
  "clock lb_up0 < clock lb_up0 + duration_us (p_client_secs lb_params0)"
  "clock lb_up0 \<le> clock lb_up0 + duration_us (p_server_secs lb_params0)"
  "clock lb_boot0 < clock lb_boot0 + duration_us (p_client_secs lb_params0)"
  "clock lb_boot0 < clock lb_boot0 + duration_us (p_server_secs lb_params0)"
  by (simp_all add: lb_up_def lb_boot_def lb_fresh_def lb_params0_def lb_up0_def lb_boot0_def lb_state0_def
      BUFFER_SIZE_def RUN_DURATION_def MAX_MSG_SIZE_def)

lemma lb_instance_run:
  "\<exists>s m. reach (lb_step lb_params0) lb_up0 s \<and> lb_live s \<and> c_pc s = C_wait W_asleep \<and> g_sent s = [m] \<and>
     lb_message_available (ring s) \<and> s_pc s = S_malloc \<and> clock s = 1 \<and> g_rcvd s = []"
proof -
  have h: "lb_holds (ring lb_up0) []"
    using lb_inv_start [OF lb_instances(1,3,4)]
    by (simp add: lb_inv_def lb_exchange_idle lb_up0_def lb_state0_def)
  obtain t m buf e wp cb where "lb_moves lb_params0 (replicate 13 False) lb_up0 = Some t"
    and "t = lb_up0\<lparr>ring := (ring lb_up0)\<lparr>lb_buffer := buf, lb_write_pos := wp, lb_message_available := True,
       lb_server_futex := lb_server_futex (ring lb_up0) + 1\<rparr>, c_pc := C_wait W_asleep,
       c_buf := cb, c_ops := 0, c_bytes := 0, c_lat := [], c_end := e, g_sent := g_sent lb_up0 @ [m]\<rparr>"
    using lb_first_request [of lb_up0 lb_params0] h lb_instances(5)
    by (auto simp: lb_up0_def lb_state0_def server_waiter_def lb_zero_def)
  then have "reach (lb_step lb_params0) lb_up0 t" "lb_live t" "c_pc t = C_wait W_asleep" "g_sent t = [m]"
    "lb_message_available (ring t)" "s_pc t = S_malloc" "clock t = 1" "g_rcvd t = []"
    using lb_moves_reach by (auto simp: lb_live_def lb_up0_def lb_state0_def)
  then show ?thesis by blast
qed

text \<open>The request of that run is answered: the server, whose time is not up, moves until the client is awake
  with its flag raised, and the client takes the answer, counts it and starts over.\<close>

definition lb_serving :: "bytes \<Rightarrow> lb_state \<Rightarrow> bool" where
  "lb_serving m s \<longleftrightarrow> lb_live s \<and> clock s = 1 \<and> (s_pc s = S_malloc \<or> 1 < s_end s) \<and>
     (c_pc s = C_wait W_asleep \<or> c_pc s = C_wait W_cond) \<and> g_sent s = [m] \<and> g_rcvd s = []"

lemma lb_server_serving:
  assumes "lb_serving m s" "lb_server_move lb_params0 True s = Some t" "\<not> in_setup (s_pc s)"
  shows "lb_serving m t"
proof -
  have move: "lb_server_step lb_params0 True s = Some t"
    using assms by (simp add: lb_server_move_def lb_serving_def lb_live_def)
  show ?thesis
  proof (cases "s_pc s")
    case (S_signal g)
    then show ?thesis using assms(1) move
      by (cases g) (auto simp: lb_server_step_def lb_serving_def lb_live_def wake_client_def)
  qed (use assms(1) move in \<open>auto simp: lb_server_step_def lb_serving_def lb_live_def lb_params0_def RUN_DURATION_def Let_def
      split: option.splits if_splits wait_next.splits\<close>)
qed

lemma lb_server_run_serving:
  assumes "lb_serving m s" "lb_inv s" "lb_server_run lb_params0 n s = Some t"
  shows "lb_serving m t \<and> reach (lb_step lb_params0) s t"
  using assms
proof (induction n arbitrary: s)
  case 0
  then show ?case by (auto intro: reach.init)
next
  case (Suc n)
  obtain u where u: "lb_server_move lb_params0 True s = Some u" "lb_server_run lb_params0 n u = Some t"
    using Suc.prems(3) by (auto simp: Option.bind_eq_Some_conv)
  have "\<not> in_setup (s_pc s)" using Suc.prems(2) by (simp add: lb_inv_def lb_blocks_inv_def)
  then have su: "lb_serving m u" using lb_server_serving [OF Suc.prems(1) u(1)] by blast
  have "lb_inv u"
    using lb_step_inv [OF Suc.prems(2) _ lb_step.server [OF u(1)]] Suc.prems(1) su by (simp add: lb_serving_def)
  then have t: "lb_serving m t" "reach (lb_step lb_params0) u t" using Suc.IH [OF su] u(2) by blast+
  have "reach (lb_step lb_params0) s u"
    by (rule reach.step, rule reach.init, rule lb_step.server [OF u(1)])
  then show ?case using t(1) reach_trans [OF t(2)] by simp
qed

text \<open>The client's side of it.\<close>

lemma lb_takes_answer:
  assumes inv: "lb_inv s" and "lb_live s" "c_pc s = C_wait W_cond" "lb_response_available (ring s)" "g_sent s = [m]" "g_rcvd s = []"
  shows "\<exists>t. lb_moves p (replicate 4 False) s = Some t \<and> lb_live t \<and> c_pc t = C_loop \<and> g_sent t = [m] \<and> g_rcvd t = [m] \<and>
    clock t = clock s"
proof -
  define s1 where "s1 = s\<lparr>c_pc := C_read\<rparr>"
  have m1: "lb_client_move p True 0 s = Some s1"
    using assms(3,4) by (simp add: lb_client_move_def lb_client_step_def s1_def)
  have i1: "lb_inv s1"
    using lb_step_inv [OF inv assms(2) lb_step.client [OF order_refl m1]] assms(2) by (simp add: s1_def lb_live_def)
  have q: "server_quiet (s_pc s1)" by (rule lb_inv_read(2) [OF i1]) (simp add: s1_def)
  have e: "lb_exchange_inv s1" and b: "lb_blocks_inv s1" using i1 by (simp_all add: lb_inv_def)
  have h: "lb_holds (ring s1) [m]" and rm: "request m"
    using e q assms(4,5) by (simp_all add: lb_exchange_busy server_phase_quiet Let_def s1_def)
  have cb: "length (c_buf s1) = unat MAX_MSG_SIZE" using b by (simp add: lb_blocks_inv_def)
  have "length m \<le> unat MAX_MSG_SIZE" "length m \<le> length (c_buf s1)"
    using request_lengths [OF rm] cb by (simp_all add: MAX_MSG_SIZE_def)
  then obtain rp where r: "lb_ring_buffer_read (ring s1) (c_buf s1) MAX_MSG_SIZE =
        Some (True, (ring s1)\<lparr>lb_read_pos := rp\<rparr>, m @ drop (length m) (c_buf s1), word_of_nat (length m))"
    using lb_read_ok [OF h] by blast
  have ld: "load64 (m @ drop (length m) (c_buf s1)) off_timestamp \<noteq> None"
    using request_lengths [OF rm] by (simp add: load64_def mem_read_def)
  have va: "validate_message (m @ drop (length m) (c_buf s1)) (word_of_nat (length m)) = Some True"
    using request_validates [OF rm] by simp
  obtain t where "lb_moves p (replicate 3 False) s1 = Some t" "lb_live t" "c_pc t = C_loop" "g_sent t = [m]" "g_rcvd t = [m]" "clock t = clock s"
    using r ld va assms(2,5,6) request_lengths [OF rm]
    by (auto simp: numeral_eq_Suc lb_client_move_def lb_client_step_def s1_def lb_live_def)
  then show ?thesis using m1 by (simp add: numeral_eq_Suc)
qed

lemma lb_answered_run:
  "\<exists>s m. reach (lb_step lb_params0) lb_up0 s \<and> lb_live s \<and> c_pc s = C_loop \<and> g_sent s = [m] \<and> g_rcvd s = [m] \<and> clock s = 1"
proof -
  obtain s m where s: "reach (lb_step lb_params0) lb_up0 s" "lb_live s" "c_pc s = C_wait W_asleep" "g_sent s = [m]"
      "s_pc s = S_malloc" "clock s = 1" "g_rcvd s = []"
    using lb_instance_run by blast
  have up: "lb_up lb_params0 lb_up0 \<and> unat MAX_MSG_SIZE \<le> unat (p_size lb_params0) \<and> unat (p_size lb_params0) \<le> 2 ^ 31"
    using lb_instances(1,3,4) by blast
  have inv: "lb_inv s" using lb.reach_inv [OF s(1) up s(2)] by blast
  have sv: "lb_serving m s" using s by (simp add: lb_serving_def)
  obtain n t where t: "lb_server_run lb_params0 n s = Some t" "\<not> lb_live t \<or> lb_answered t"
    using lb_serve_bounded [OF inv s(3,2) serve_rank_le, of lb_params0] by blast
  have sr: "lb_serving m t" "reach (lb_step lb_params0) s t"
    using lb_server_run_serving [OF sv inv t(1)] by simp_all
  note st = sr(1) reach_trans [OF sr(2) s(1)]
  then have a: "lb_live t" "c_pc t = C_wait W_cond" "lb_response_available (ring t)" "g_sent t = [m]" "g_rcvd t = []" "clock t = 1"
    using t(2) by (auto simp: lb_serving_def lb_answered_def client_waiter_def)
  have "lb_inv t" using lb.reach_inv [OF st(2) up a(1)] by blast
  then obtain u where "lb_moves lb_params0 (replicate 4 False) t = Some u" "lb_live u" "c_pc u = C_loop" "g_sent u = [m]"
      "g_rcvd u = [m]" "clock u = 1"
    using lb_takes_answer [OF _ a(1-5), of lb_params0] a(6) by auto
  then show ?thesis using reach_trans [OF lb_moves_reach st(2)] by (intro exI [of _ u] exI [of _ m]) simp
qed

theorem lfshm_echo_witness:
  "\<exists>s m. reach (lb_step lb_params0) lb_up0 s \<and> g_sent s = [m] \<and>
     prefix (g_rcvd s) (g_served s) \<and> prefix (g_served s) (g_sent s) \<and>
     length (g_sent s) \<le> Suc (length (g_rcvd s))"
  using lb_instance_run lfshm_echo [OF _ lb_instances(1,3,4)] by blast

theorem lfshm_refines_echo_witness:
  "\<exists>s m. reach (lb_step lb_params0) lb_up0 s \<and> g_sent s = [m] \<and> reach echo_step echo_init (lb_abs s)"
  using lb_instance_run lfshm_refines_echo [OF _ lb_instances(1,3,4)] by blast


theorem lfshm_ring_exclusive_witness:
  "\<not> (s_pc lb_up0 \<in> {S_read, S_write} \<and> c_pc lb_up0 \<in> {C_read, C_write})"
  by (rule lfshm_ring_exclusive [OF reach.init lb_instances(1,3,4)]) (simp add: lb_live_def lb_up0_def lb_state0_def)

theorem lfshm_no_deadlock_witness:
  "\<exists>s. reach (lb_step lb_params0) lb_up0 s \<and> c_pc s = C_wait W_asleep \<and> s_pc s \<noteq> S_wait W_asleep"
  using lb_instance_run lfshm_no_deadlock [OF _ lb_instances(1,3,4)] by blast

theorem lfshm_answers_witness:
  "\<exists>s n t. reach (lb_step lb_params0) lb_up0 s \<and> c_pc s = C_wait W_asleep \<and> n \<le> 15 \<and>
     lb_server_run lb_params0 n s = Some t \<and> (\<not> lb_live t \<or> lb_answered t)"
  using lb_instance_run lfshm_answers [OF _ lb_instances(1,3,4)] by blast

theorem lfshm_stats_witness:
  "\<exists>s m. reach (lb_step lb_params0) lb_up0 s \<and> g_sent s = [m] \<and> g_rcvd s = [m] \<and> c_ops s = 1 \<and>
     c_bytes s = word_of_nat (length m) \<and> length (c_lat s) = 1"
proof -
  obtain s m where s: "reach (lb_step lb_params0) lb_up0 s" "lb_live s" "c_pc s = C_loop" "g_sent s = [m]" "g_rcvd s = [m]"
    using lb_answered_run by blast
  have "c_ops s = word_of_nat (length (g_rcvd s)) \<and> c_bytes s = word_of_nat (sum_list (map length (g_rcvd s))) \<and>
      length (c_lat s) = min MAX_LATENCIES (length (g_rcvd s))"
    by (rule lfshm_stats [OF s(1) lb_instances(1,3,4) s(2)]) (simp add: s(3))
  then show ?thesis using s by (intro exI [of _ s] exI [of _ m]) (simp add: MAX_LATENCIES_def)
qed

theorem lfshm_startup_race_witness:
  "\<exists>t m. reach (lb_step lb_params0) lb_boot0 t \<and> g_sent t = [m] \<and> lb_holds (ring t) [m] \<and>
     s_pc t = S_wait W_asleep \<and> c_pc t = C_wait W_asleep"
  using lfshm_startup_race [OF lb_instances(2,3,4,7,8)] by blast

theorem lfshm_shutdown_self_echo_witness:
  "\<exists>t m. reach (lb_step lb_params0) lb_up0 t \<and> g_served t = [] \<and> g_rcvd t = [m] \<and> c_ops t = 1"
  using lfshm_shutdown_self_echo [OF lb_instances(1,3,4,5,6)] by blast

end
