(* ===== verification/Lfshm_Nonblocking_Proofs.thy ===== *)
theory Lfshm_Nonblocking_Proofs
  imports Lfshm_Nonblocking Lfshm_Blocking_Proofs
begin

section \<open>Lock-free shared memory, io\_uring client: the blocking variant's protocol\<close>

text \<open>
  As long as no wait of the client has failed, every step is a step of the blocking variant or changes
  nothing there (\<open>lu_abs\<close>): a submitted wait is a call of \<open>FUTEX_WAIT\<close>, a parked one is a sleeping client, and
  a completed one a client that has been woken. So everything proved of the blocking variant holds here.
  Then what happens when a wait fails.
\<close>

subsection \<open>The state as one of the blocking variant\<close>

definition lr_abs :: "LockFreeNonBlockingRingBuffer \<Rightarrow> LockFreeBlockingRingBuffer" where
  "lr_abs rb = \<lparr>lb_write_pos = lr_write_pos rb, lb_server_futex = lr_server_futex rb,
     lb_read_pos = lr_read_pos rb, lb_client_futex = lr_client_futex rb, lb_size = lr_size rb,
     lb_ready = lr_ready rb, lb_message_available = lr_message_available rb,
     lb_response_available = lr_response_available rb, lb_buffer = lr_buffer rb\<rparr>"

fun uring_place :: "uring_pc \<Rightarrow> wait_pc" where
  "uring_place Q_cond = W_cond"
| "uring_place Q_load = W_load"
| "uring_place (Q_recheck v) = W_recheck v"
| "uring_place (Q_get v) = W_call v"
| "uring_place (Q_submit v) = W_call v"
| "uring_place Q_parked = W_asleep"
| "uring_place Q_completed = W_cond"

fun client_place :: "lu_client_pc \<Rightarrow> lb_client_pc" where
  "client_place U_ready = CI_ready"
| "client_place U_malloc = C_malloc"
| "client_place U_init = C_malloc"
| "client_place U_loop = C_loop"
| "client_place U_build = C_build"
| "client_place U_write = C_write"
| "client_place (U_signal g) = C_signal g"
| "client_place U_check = C_check"
| "client_place (U_wait q) = C_wait (uring_place q)"
| "client_place U_read = C_read"
| "client_place U_clear = C_clear"
| "client_place U_account = C_account"
| "client_place U_stats = C_stats"
| "client_place U_done = C_done"
| "client_place U_crash = C_crash"

definition lu_abs :: "lu_state \<Rightarrow> lb_state" where
  "lu_abs s = \<lparr>ring = lr_abs (lu_ring s), clock = lu_clock s,
     s_pc = ls_pc s, s_end = ls_end s, s_buf = ls_buf s, s_msg_size = ls_msg_size s,
     c_pc = client_place (lc_pc s), c_end = lc_end s, c_buf = lc_buf s, c_msg_size = lc_msg_size s,
     c_ops = lc_ops s, c_bytes = lc_bytes s, c_lat = lc_lat s, c_report = lc_report s,
     g_sent = lu_sent s, g_served = lu_served s, g_rcvd = lu_rcvd s\<rparr>"

lemma lr_abs_simps [simp]:
  "lr_abs (rb\<lparr>lr_write_pos := w\<rparr>) = (lr_abs rb)\<lparr>lb_write_pos := w\<rparr>"
  "lr_abs (rb\<lparr>lr_server_futex := w\<rparr>) = (lr_abs rb)\<lparr>lb_server_futex := w\<rparr>"
  "lr_abs (rb\<lparr>lr_read_pos := w\<rparr>) = (lr_abs rb)\<lparr>lb_read_pos := w\<rparr>"
  "lr_abs (rb\<lparr>lr_client_futex := w\<rparr>) = (lr_abs rb)\<lparr>lb_client_futex := w\<rparr>"
  "lr_abs (rb\<lparr>lr_size := z\<rparr>) = (lr_abs rb)\<lparr>lb_size := z\<rparr>"
  "lr_abs (rb\<lparr>lr_ready := b\<rparr>) = (lr_abs rb)\<lparr>lb_ready := b\<rparr>"
  "lr_abs (rb\<lparr>lr_message_available := b\<rparr>) = (lr_abs rb)\<lparr>lb_message_available := b\<rparr>"
  "lr_abs (rb\<lparr>lr_response_available := b\<rparr>) = (lr_abs rb)\<lparr>lb_response_available := b\<rparr>"
  "lr_abs (rb\<lparr>lr_buffer := buf\<rparr>) = (lr_abs rb)\<lparr>lb_buffer := buf\<rparr>"
  "lb_write_pos (lr_abs rb) = lr_write_pos rb" "lb_server_futex (lr_abs rb) = lr_server_futex rb"
  "lb_read_pos (lr_abs rb) = lr_read_pos rb" "lb_client_futex (lr_abs rb) = lr_client_futex rb"
  "lb_size (lr_abs rb) = lr_size rb" "lb_ready (lr_abs rb) = lr_ready rb"
  "lb_message_available (lr_abs rb) = lr_message_available rb"
  "lb_response_available (lr_abs rb) = lr_response_available rb" "lb_buffer (lr_abs rb) = lr_buffer rb"
  by (simp_all add: lr_abs_def)

lemma lu_abs_simps [simp]:
  "lu_abs (s\<lparr>lu_ring := rb\<rparr>) = (lu_abs s)\<lparr>ring := lr_abs rb\<rparr>"
  "lu_abs (s\<lparr>lu_clock := now\<rparr>) = (lu_abs s)\<lparr>clock := now\<rparr>"
  "lu_abs (s\<lparr>ls_pc := pc\<rparr>) = (lu_abs s)\<lparr>s_pc := pc\<rparr>"
  "lu_abs (s\<lparr>ls_end := e\<rparr>) = (lu_abs s)\<lparr>s_end := e\<rparr>"
  "lu_abs (s\<lparr>ls_buf := buf\<rparr>) = (lu_abs s)\<lparr>s_buf := buf\<rparr>"
  "lu_abs (s\<lparr>ls_msg_size := n\<rparr>) = (lu_abs s)\<lparr>s_msg_size := n\<rparr>"
  "lu_abs (s\<lparr>lc_pc := u\<rparr>) = (lu_abs s)\<lparr>c_pc := client_place u\<rparr>"
  "lu_abs (s\<lparr>lc_end := e\<rparr>) = (lu_abs s)\<lparr>c_end := e\<rparr>"
  "lu_abs (s\<lparr>lc_buf := buf\<rparr>) = (lu_abs s)\<lparr>c_buf := buf\<rparr>"
  "lu_abs (s\<lparr>lc_msg_size := n\<rparr>) = (lu_abs s)\<lparr>c_msg_size := n\<rparr>"
  "lu_abs (s\<lparr>lc_ops := n\<rparr>) = (lu_abs s)\<lparr>c_ops := n\<rparr>"
  "lu_abs (s\<lparr>lc_bytes := n\<rparr>) = (lu_abs s)\<lparr>c_bytes := n\<rparr>"
  "lu_abs (s\<lparr>lc_lat := l\<rparr>) = (lu_abs s)\<lparr>c_lat := l\<rparr>"
  "lu_abs (s\<lparr>lc_report := r\<rparr>) = (lu_abs s)\<lparr>c_report := r\<rparr>"
  "lu_abs (s\<lparr>lu_sent := h\<rparr>) = (lu_abs s)\<lparr>g_sent := h\<rparr>"
  "lu_abs (s\<lparr>lu_served := h\<rparr>) = (lu_abs s)\<lparr>g_served := h\<rparr>"
  "lu_abs (s\<lparr>lu_rcvd := h\<rparr>) = (lu_abs s)\<lparr>g_rcvd := h\<rparr>"
  "lu_abs (s\<lparr>lu_failed := f\<rparr>) = lu_abs s"
  by (simp_all add: lu_abs_def)

lemma lu_abs_select [simp]:
  "ring (lu_abs s) = lr_abs (lu_ring s)" "clock (lu_abs s) = lu_clock s" "s_pc (lu_abs s) = ls_pc s"
  "s_end (lu_abs s) = ls_end s" "s_buf (lu_abs s) = ls_buf s" "s_msg_size (lu_abs s) = ls_msg_size s"
  "c_pc (lu_abs s) = client_place (lc_pc s)" "c_end (lu_abs s) = lc_end s" "c_buf (lu_abs s) = lc_buf s"
  "c_msg_size (lu_abs s) = lc_msg_size s" "c_ops (lu_abs s) = lc_ops s" "c_bytes (lu_abs s) = lc_bytes s"
  "c_lat (lu_abs s) = lc_lat s" "c_report (lu_abs s) = lc_report s" "g_sent (lu_abs s) = lu_sent s" "g_served (lu_abs s) = lu_served s"
  "g_rcvd (lu_abs s) = lu_rcvd s"
  by (simp_all add: lu_abs_def)

lemma lr_abs_ops:
  "lb_ring_buffer_read (lr_abs rb) data n =
     map_option (\<lambda>(ok, rb', d, k). (ok, lr_abs rb', d, k)) (lu_ring_buffer_read rb data n)"
  "lb_ring_buffer_write (lr_abs rb) data n =
     map_option (\<lambda>(ok, rb'). (ok, lr_abs rb')) (lu_ring_buffer_write rb data n)"
  by (simp_all add: lb_ring_buffer_read_def lu_ring_buffer_read_def lb_ring_buffer_write_def
      lu_ring_buffer_write_def option.map_comp comp_def split_def)

lemma uring_place_wake [simp]: "uring_place (uring_wake q) = futex_wake (uring_place q)"
  by (cases q) simp_all

lemma lu_wake_abs [simp]:
  "lu_abs (lu_wake_client s) = wake_client (lu_abs s)" "lu_abs (lu_wake_server s) = wake_server (lu_abs s)"
  by (simp_all add: lu_wake_client_def wake_client_def lu_wake_server_def wake_server_def
      split: lu_client_pc.split lb_server_pc.split)

lemma lu_signal_abs:
  "signal_client g (lu_abs s) = map_prod id lu_abs (lu_signal_client g s)"
  "signal_server g (lu_abs s) = map_prod id lu_abs (lu_signal_server g s)"
  by (cases g; simp add: lu_signal_client_def lu_signal_server_def)+

lemma lu_signal_keeps [simp]:
  "lu_failed (snd (lu_signal_client g s)) = lu_failed s"
  "lu_failed (snd (lu_signal_server g s)) = lu_failed s"
  by (cases g; simp add: lu_signal_client_def lu_signal_server_def lu_wake_client_def lu_wake_server_def
      split: lu_client_pc.split lb_server_pc.split)+

subsection \<open>Simulation\<close>

lemma lu_setup_abs:
  "lb_setup_step p pc (lr_abs rb) = map_prod lr_abs id (lu_setup_step p pc rb)"
  by (cases pc) simp_all

lemma lu_free_abs: "lb_free_server_step (lu_abs s) = map_option lu_abs (lu_free_server_step s)"
  by (cases "ls_pc s")
    (auto simp: lb_free_server_step_def lu_free_server_step_def lu_signal_abs split: prod.split option.split)

lemma lu_server_step_abs: "lb_server_step p alloc (lu_abs s) = map_option lu_abs (lu_server_step p alloc s)"
  by (cases "ls_pc s")
    (auto simp: lb_server_step_def lu_server_step_def lu_signal_abs lr_abs_ops Let_def
      split: prod.split option.split wait_next.split)

lemma lu_server_abs: "lb_server_move p alloc (lu_abs s) = map_option lu_abs (lu_server_move p alloc s)"
  by (simp add: lb_server_move_def lu_server_move_def lu_free_abs lu_server_step_abs lu_setup_abs split_def Let_def)

lemma lu_server_failed: "lu_server_move p alloc s = Some t \<Longrightarrow> lu_failed t = lu_failed s"
  by (auto simp: lu_server_move_def lu_server_step_def lu_free_server_step_def Let_def split_def
      split: if_splits lb_server_pc.splits option.splits wait_next.splits prod.splits)

text \<open>Steps within the wait: a step of \<open>futex_wait_for_atomic_bool\<close>, or none.\<close>

lemma uring_wait_abs:
  assumes "uring_wait_step cond word a q = Q_continue q'"
  shows "uring_place q' = uring_place q \<or>
    futex_wait_step cond word (uring_place q) = Continue (uring_place q')"
  using assms by (cases q) (auto split: if_splits)

lemma uring_wait_met:
  "uring_wait_step cond word a q = Q_return True \<Longrightarrow> futex_wait_step cond word (uring_place q) = Return"
  by (cases q) (auto split: if_splits)

text \<open>Outside of the wait the client's steps are those of the blocking variant; only the initialisation of the
  io\_uring is extra.\<close>

lemmas lu_client_defs = lu_client_move_def lu_client_step_def lb_client_move_def lb_client_step_def
  lu_client_setup_step_def lb_client_setup_step_def

lemma lu_client_same:
  assumes "lc_pc s \<noteq> U_malloc" "\<And>q. lc_pc s \<noteq> U_wait q"
  shows "lb_client_move p ok rnd (lu_abs s) = map_option lu_abs (lu_client_move p ok rnd a s)"
    and "lu_client_move p ok rnd a s = Some t \<Longrightarrow> lu_failed t = lu_failed s"
proof -
  show "lb_client_move p ok rnd (lu_abs s) = map_option lu_abs (lu_client_move p ok rnd a s)"
    using assms
    by (cases "lc_pc s")
      (auto simp: lu_client_defs lr_abs_ops lu_signal_abs Let_def split_def split: option.split bind_splits)
  show "lu_failed t = lu_failed s" if "lu_client_move p ok rnd a s = Some t"
    using assms that
    by (cases "lc_pc s")
      (auto simp: lu_client_defs Let_def split_def split: option.splits if_splits)
qed

lemma lu_client_step_abs:
  assumes "lu_client_move p ok rnd a s = Some t" "\<not> lu_failed t"
  shows "\<not> lu_failed s \<and> (lu_abs t = lu_abs s \<or> lb_client_move p ok rnd (lu_abs s) = Some (lu_abs t))"
proof (cases "lc_pc s = U_malloc \<or> (\<exists>q. lc_pc s = U_wait q)")
  case False
  then show ?thesis using lu_client_same [of s p ok rnd a] assms by auto
next
  case True
  then consider "lc_pc s = U_malloc" | q where "lc_pc s = U_wait q" by blast
  then show ?thesis
  proof cases
    case 1
    have "lu_abs s = (lu_abs s)\<lparr>c_pc := C_malloc\<rparr>" using 1 by (simp add: lu_abs_def)
    then show ?thesis using assms 1 by (auto simp: lu_client_defs split: if_splits)
  next
    case (2 q)
    let ?next = "uring_wait_step (lr_response_available (lu_ring s)) (lr_client_futex (lu_ring s)) a q"
    show ?thesis
    proof (cases ?next)
      case (Q_continue q')
      then have t: "t = s\<lparr>lc_pc := U_wait q'\<rparr>" using assms(1) 2 by (simp add: lu_client_defs)
      have "lu_abs s = (lu_abs s)\<lparr>c_pc := C_wait (uring_place q)\<rparr>" using 2 by (simp add: lu_abs_def)
      then show ?thesis
        using uring_wait_abs [OF Q_continue] 2 assms(2) t by (auto simp: lu_client_defs)
    next
      case (Q_return met)
      then have t: "t = s\<lparr>lc_pc := U_read, lu_failed := lu_failed s \<or> \<not> met\<rparr>"
        using assms(1) 2 by (simp add: lu_client_defs)
      then have met: "\<not> lu_failed s" "met" using assms(2) by simp_all
      then show ?thesis using uring_wait_met Q_return 2 t by (simp add: lu_client_defs)
    next
      case Q_blocked
      then show ?thesis using assms(1) 2 by (simp add: lu_client_defs)
    qed
  qed
qed

lemma lu_step_abs:
  assumes "lu_step p s t" "\<not> lu_failed t"
  shows "\<not> lu_failed s \<and> (lu_abs t = lu_abs s \<or> lb_step p (lu_abs s) (lu_abs t))"
  using assms(1)
proof cases
  case (lu_server alloc)
  then have "lb_server_move p alloc (lu_abs s) = Some (lu_abs t)" by (simp add: lu_server_abs)
  then show ?thesis using lu_server_failed [OF lu_server] assms(2) by (auto intro: lb_step.server)
next
  case (lu_client rnd ok a)
  then show ?thesis using lu_client_step_abs [OF lu_client(2) assms(2)] by (auto intro: lb_step.client)
next
  case (lu_tick now)
  then show ?thesis using lb_step.tick [of "lu_abs s" now p] assms(2) by simp
next
  case lu_spurious_server
  then show ?thesis using lb_step.spurious_server [of "lu_abs s" p] assms(2) by simp
next
  case lu_stale
  then show ?thesis using lb_step.spurious_client [of "lu_abs s" p] assms(2) by simp
qed

lemma lu_reach_abs:
  assumes "reach (lu_step p) s0 s" "\<not> lu_failed s"
  shows "reach (lb_step p) (lu_abs s0) (lu_abs s)"
  using assms
proof (induction rule: reach.induct)
  case (step s t)
  then show ?case using lu_step_abs [OF step.hyps(2) step.prems] by (auto intro: reach.step)
qed (rule reach.init)

text \<open>Conversely every step of the blocking variant can be made here, in one step or two.\<close>

definition good_answers :: uring_answers where
  "good_answers = \<lparr>ua_sqe = True, ua_submit = 1, ua_wait = 0, ua_res = 0\<rparr>"

definition lu_simulates :: "lb_params \<Rightarrow> lu_state \<Rightarrow> lb_state \<Rightarrow> bool" where
  "lu_simulates p s b \<longleftrightarrow> (\<exists>t. reach (lu_step p) s t \<and> lu_abs t = b \<and> \<not> lu_failed t)"

lemma lu_simulates_step: "lu_step p s t \<Longrightarrow> lu_abs t = b \<Longrightarrow> \<not> lu_failed t \<Longrightarrow> lu_simulates p s b"
  unfolding lu_simulates_def by (blast intro: reach.intros)

lemma lu_simulates_client:
  "0 \<le> rnd \<Longrightarrow> lu_client_move p ok rnd good_answers s = Some t \<Longrightarrow> lu_abs t = b \<Longrightarrow> \<not> lu_failed t \<Longrightarrow>
   lu_simulates p s b"
  by (rule lu_simulates_step) (auto intro: lu_step.lu_client)

lemma lu_simulates_trans: "lu_step p s t \<Longrightarrow> lu_simulates p t b \<Longrightarrow> lu_simulates p s b"
  unfolding lu_simulates_def by (blast intro: reach.intros reach_trans)

lemma lu_simulates_then:
  "0 \<le> rnd \<Longrightarrow> lu_client_move p ok rnd good_answers s = Some t \<Longrightarrow> lu_simulates p t b \<Longrightarrow> lu_simulates p s b"
  by (rule lu_simulates_trans) (auto intro: lu_step.lu_client)

text \<open>A place of the wait from which the next step is that of the blocking variant.\<close>

lemma lu_wait_direct:
  assumes "lc_pc s = U_wait q" "q \<notin> {Q_completed, Q_parked}" "\<And>v. q \<noteq> Q_get v" "\<not> lu_failed s"
    and "lb_client_move p ok rnd (lu_abs s) = Some b" "0 \<le> rnd"
  shows "lu_simulates p s b"
proof -
  have "\<exists>t. lu_client_move p ok rnd good_answers s = Some t \<and> lu_abs t = b \<and> \<not> lu_failed t"
    using assms
    by (cases q; cases "lr_response_available (lu_ring s)") (auto simp: lu_client_defs good_answers_def)
  then show ?thesis using lu_simulates_client [OF assms(6)] by blast
qed

lemma lu_client_lift:
  assumes "lb_client_move p ok rnd (lu_abs s) = Some b" "0 \<le> rnd" "\<not> lu_failed s"
  shows "lu_simulates p s b"
proof (cases "lc_pc s = U_malloc \<or> (\<exists>q. lc_pc s = U_wait q)")
  case False
  then have "map_option lu_abs (lu_client_move p ok rnd good_answers s) = Some b"
    using lu_client_same(1) [of s p ok rnd good_answers] assms(1) by simp
  then obtain t where t: "lu_client_move p ok rnd good_answers s = Some t" "lu_abs t = b" by auto
  then have "lu_failed t = lu_failed s" using lu_client_same(2) [of s p ok rnd good_answers t] False by blast
  then show ?thesis using lu_simulates_client [OF assms(2)] assms(3) t by blast
next
  case special: True
  have detour: "lu_simulates p s b" if "lu_client_move p ok rnd good_answers s = Some u" "lu_simulates p u b" for u
    using lu_simulates_then [OF assms(2) that] .
  consider (stop) "lc_pc s = U_malloc" "\<not> ok" | (init) "lc_pc s = U_malloc" "ok"
    | (seen) "lc_pc s = U_wait Q_completed" | (entry) v where "lc_pc s = U_wait (Q_get v)"
    | (direct) q where "lc_pc s = U_wait q" "q \<notin> {Q_completed, Q_parked}" "\<And>v. q \<noteq> Q_get v"
  proof -
    have "lc_pc s \<noteq> U_wait Q_parked" using assms(1) by (auto simp: lu_client_defs)
    then show thesis using special stop init seen entry direct by (cases ok) blast+
  qed
  then show ?thesis
  proof cases
    case stop
    then show ?thesis
      using assms by (intro lu_simulates_client [OF assms(2), of p False s "s\<lparr>lc_pc := U_done\<rparr>"])
        (simp_all add: lu_client_defs)
  next
    case init
    let ?u = "s\<lparr>lc_pc := U_init\<rparr>"
    have "lu_abs ?u = lu_abs s" using init by (simp add: lu_abs_def)
    then have "map_option lu_abs (lu_client_move p ok rnd good_answers ?u) = Some b"
      using lu_client_same(1) [of ?u p ok rnd good_answers] assms(1) by simp
    then obtain t where t: "lu_client_move p ok rnd good_answers ?u = Some t" "lu_abs t = b" by auto
    then have "lu_failed t = lu_failed s" using lu_client_same(2) [of ?u p ok rnd good_answers t] by simp
    then have "lu_simulates p ?u b" using lu_simulates_client [OF assms(2)] assms(3) t by blast
    then show ?thesis using init by (intro detour [of ?u]) (simp_all add: lu_client_defs)
  next
    case seen
    let ?u = "s\<lparr>lc_pc := U_wait Q_cond\<rparr>"
    have "lu_abs ?u = lu_abs s" using seen by (simp add: lu_abs_def)
    then have "lu_simulates p ?u b" using lu_wait_direct [of ?u Q_cond p ok rnd b] assms by simp
    then show ?thesis using seen by (intro detour [of ?u]) (simp_all add: lu_client_defs good_answers_def)
  next
    case (entry v)
    let ?u = "s\<lparr>lc_pc := U_wait (Q_submit v)\<rparr>"
    have "lu_abs ?u = lu_abs s" using entry by (simp add: lu_abs_def)
    then have "lu_simulates p ?u b" using lu_wait_direct [of ?u "Q_submit v" p ok rnd b] assms by simp
    then show ?thesis using entry by (intro detour [of ?u]) (simp_all add: lu_client_defs good_answers_def)
  next
    case (direct q)
    then show ?thesis using lu_wait_direct [OF direct] assms by blast
  qed
qed

lemma parked_place: "uring_place q = W_asleep \<longleftrightarrow> q = Q_parked"
  by (cases q) simp_all

lemma client_asleep: "client_place pc = C_wait W_asleep \<longleftrightarrow> pc = U_wait Q_parked"
  by (cases pc) (simp_all add: parked_place)

lemma lu_step_lift:
  assumes "lb_step p (lu_abs s) b" "\<not> lu_failed s"
  shows "lu_simulates p s b"
  using assms(1)
proof cases
  case (server alloc)
  then obtain t where "lu_server_move p alloc s = Some t" "lu_abs t = b" by (auto simp: lu_server_abs)
  then show ?thesis
    using lu_server_failed assms(2) by (intro lu_simulates_step [of p s t]) (auto intro: lu_step.lu_server)
next
  case (client rnd alloc)
  then show ?thesis using lu_client_lift [OF client(2,1) assms(2)] by blast
next
  case (tick now)
  then show ?thesis using assms(2) lu_step.lu_tick [of s now p] by (intro lu_simulates_step [of p s "s\<lparr>lu_clock := now\<rparr>"]) simp_all
next
  case spurious_server
  then show ?thesis
    using assms(2) lu_step.lu_spurious_server [of s p]
    by (intro lu_simulates_step [of p s "s\<lparr>ls_pc := S_wait W_cond\<rparr>"]) simp_all
next
  case spurious_client
  then have "lc_pc s = U_wait Q_parked" by (simp add: client_asleep)
  then show ?thesis
    using assms(2) lu_step.lu_stale [of s p] spurious_client
    by (intro lu_simulates_step [of p s "s\<lparr>lc_pc := U_wait Q_completed\<rparr>"]) simp_all
qed

lemma lu_reach_lift:
  assumes "reach (lb_step p) (lu_abs s) b" "\<not> lu_failed s"
  shows "lu_simulates p s b"
  using assms
proof (induction rule: reach.induct)
  case init
  then show ?case unfolding lu_simulates_def by (blast intro: reach.init)
next
  case (step b c)
  then obtain t where t: "reach (lu_step p) s t" "lu_abs t = b" "\<not> lu_failed t" by (auto simp: lu_simulates_def)
  then have "lu_simulates p t c" using lu_step_lift [of p t c] step.hyps(2) by simp
  then show ?case using t(1) unfolding lu_simulates_def by (blast intro: reach_trans)
qed

interpretation lu: echo_implementation "lu_step p"
  "\<lambda>s. lu_up p s \<and> unat MAX_MSG_SIZE \<le> unat (p_size p) \<and> unat (p_size p) \<le> 2 ^ 31"
  "\<lambda>s. lb_live (lu_abs s) \<and> \<not> lu_failed s" "\<lambda>s. lb_inv (lu_abs s)" "\<lambda>s. lb_abs (lu_abs s)"
proof unfold_locales
  fix s assume "lu_up p s \<and> unat MAX_MSG_SIZE \<le> unat (p_size p) \<and> unat (p_size p) \<le> 2 ^ 31"
  then have u: "lb_up p (lu_abs s) \<and> unat MAX_MSG_SIZE \<le> unat (p_size p) \<and> unat (p_size p) \<le> 2 ^ 31"
    by (simp add: lu_up_def lb_up_def lb_fresh_def lu_zero_def lb_zero_def lr_abs_def)
  then show "lb_inv (lu_abs s)" by (rule lb.start_inv)
  show "lb_abs (lu_abs s) = echo_init" using u by (rule lb.start_abs)
next
  fix s t assume h: "lb_inv (lu_abs s)" "lb_live (lu_abs s) \<and> \<not> lu_failed s" "lu_step p s t"
    "lb_live (lu_abs t) \<and> \<not> lu_failed t"
  then have "lb_inv (lu_abs t) \<and> echo_step0 (lb_abs (lu_abs s)) (lb_abs (lu_abs t))"
    using lu_step_abs [OF h(3)] lb_step_inv [OF h(1), of p "lu_abs t"] by auto
  then show "lb_inv (lu_abs t)" "echo_step0 (lb_abs (lu_abs s)) (lb_abs (lu_abs t))" by simp_all
next
  fix s t assume h: "lu_step p s t" "lb_live (lu_abs t) \<and> \<not> lu_failed t"
  then show "lb_live (lu_abs s) \<and> \<not> lu_failed s"
    using lu_step_abs [OF h(1)] lb_live_back [of p "lu_abs s" "lu_abs t"] by auto
qed

subsection \<open>Properties\<close>

text \<open>C26: equivalence. While no wait of the client fails, the io\_uring variant reaches exactly the states the
  blocking variant reaches, from every state: what is proved of the one, the faults at start-up and at
  shutdown included, holds of the other.\<close>

theorem uring_matches_futex:
  assumes "\<not> lu_failed s"
  shows "{lu_abs t |t. reach (lu_step p) s t \<and> \<not> lu_failed t} = {b. reach (lb_step p) (lu_abs s) b}"
proof
  show "{lu_abs t |t. reach (lu_step p) s t \<and> \<not> lu_failed t} \<subseteq> {b. reach (lb_step p) (lu_abs s) b}"
    using lu_reach_abs by auto
  show "{b. reach (lb_step p) (lu_abs s) b} \<subseteq> {lu_abs t |t. reach (lu_step p) s t \<and> \<not> lu_failed t}"
    using lu_reach_lift [OF _ assms] unfolding lu_simulates_def by blast
qed


text \<open>The server's moves alone.\<close>

fun lu_server_run :: "lb_params \<Rightarrow> nat \<Rightarrow> lu_state \<Rightarrow> lu_state option" where
  "lu_server_run p 0 s = Some s"
| "lu_server_run p (Suc n) s = lu_server_move p True s \<bind> lu_server_run p n"

lemma lu_server_run_abs: "lb_server_run p n (lu_abs s) = map_option lu_abs (lu_server_run p n s)"
  by (induction n arbitrary: s) (auto simp: lu_server_abs split: bind_splits)

lemma lu_answered: "lb_answered (lu_abs s) \<Longrightarrow> lr_response_available (lu_ring s) \<and> lc_pc s \<noteq> U_wait Q_parked"
  by (auto simp: lb_answered_def client_waiter_def)

text \<open>C28: progress. When the set-up is finished before the client looks, while the server runs and no wait has
  failed: a client that waits, its request parked in the kernel or on the way there, finds its flag raised
  and a parked request completed after at most fifteen moves of the server, unless the server's time is up
  on the way. The check between the loads and the submission loses no wake-up.\<close>

theorem uring_answers:
  assumes "reach (lu_step p) s0 s" "lu_up p s0"
    and "unat MAX_MSG_SIZE \<le> unat (p_size p)" "unat (p_size p) \<le> 2 ^ 31"
    and "lb_live (lu_abs s)" "\<not> lu_failed s" "lc_pc s = U_wait q"
  shows "\<exists>n t. n \<le> 15 \<and> lu_server_run p n s = Some t \<and>
    (\<not> lb_live (lu_abs t) \<or> lr_response_available (lu_ring t) \<and> lc_pc t \<noteq> U_wait Q_parked)"
proof -
  have "lb_inv (lu_abs s)" using lu.reach_inv [of p s0 s] assms by auto
  then obtain n b where "n \<le> 15" "lb_server_run p n (lu_abs s) = Some b" "\<not> lb_live b \<or> lb_answered b"
    using lb_serve_bounded [OF _ _ assms(5) serve_rank_le, of "uring_place q" p] assms(7) by auto
  then show ?thesis using lu_answered by (fastforce simp: lu_server_run_abs)
qed

text \<open>C29: a failed wait. The client does not look at the result of \<open>futex_wait_for_atomic_bool_uring\<close>: when a call
  of liburing fails while the request is still in the ring, the client takes its own request for the
  answer and counts it, without any move of the server.\<close>

theorem uring_failure_self_echo:
  assumes "reach (lu_step p) s0 s" "lu_up p s0"
    and "unat MAX_MSG_SIZE \<le> unat (p_size p)" "unat (p_size p) \<le> 2 ^ 31"
    and "lb_live (lu_abs s)" "\<not> lu_failed s" "lc_pc s = U_wait q"
    and "uring_wait_step (lr_response_available (lu_ring s)) (lr_client_futex (lu_ring s)) a q = Q_return False"
    and "lr_message_available (lu_ring s)" "ls_pc s \<noteq> S_clear"
  shows "\<exists>t. reach (lu_step p) s t \<and> lc_pc t = U_loop \<and> ls_pc t = ls_pc s \<and>
    length (lu_served t) < length (lu_sent t) \<and> lu_rcvd t = lu_rcvd s @ [last (lu_sent s)] \<and>
    lc_ops t = lc_ops s + 1 \<and> lb_holds (lr_abs (lu_ring t)) []"
proof -
  have i: "lb_inv (lu_abs s)" "echo_inv (lb_abs (lu_abs s))" using lu.reach_inv [of p s0 s] assms by auto
  then have e: "lb_exchange_inv (lu_abs s)" and b: "lb_blocks_inv (lu_abs s)" by (simp_all add: lb_inv_def)
  let ?m = "last (lu_sent s)"
  have ph: "lb_phase (lu_abs s) = Requested" and h: "lb_holds (lr_abs (lu_ring s)) [?m]" and r: "request ?m"
    using e assms(7,9,10) by (auto simp: lb_exchange_inv_def lb_phase_def Let_def split: phase.splits)
  have sv: "length (lu_served s) < length (lu_sent s)"
    using i(2) ph by (auto simp: echo_inv_def lb_abs_def)
  have l: "length (lc_buf s) = unat MAX_MSG_SIZE" using b by (simp add: lb_blocks_inv_def)
  have "length ?m \<le> unat MAX_MSG_SIZE" "length ?m \<le> length (lc_buf s)"
    using request_lengths [OF r] l by (simp_all add: MAX_MSG_SIZE_def)
  then obtain rp where "lb_ring_buffer_read (lr_abs (lu_ring s)) (lc_buf s) MAX_MSG_SIZE =
      Some (True, (lr_abs (lu_ring s))\<lparr>lb_read_pos := rp\<rparr>, ?m @ drop (length ?m) (lc_buf s), word_of_nat (length ?m))"
    and h': "lb_holds ((lr_abs (lu_ring s))\<lparr>lb_read_pos := rp\<rparr>) []"
    using lb_read_ok [OF h] by blast
  then obtain rb where rd: "lu_ring_buffer_read (lu_ring s) (lc_buf s) MAX_MSG_SIZE =
      Some (True, rb, ?m @ drop (length ?m) (lc_buf s), word_of_nat (length ?m))"
    and rb: "lr_abs rb = (lr_abs (lu_ring s))\<lparr>lb_read_pos := rp\<rparr>"
    by (auto simp: lr_abs_ops)
  obtain ts where ts: "load64 (?m @ drop (length ?m) (lc_buf s)) off_timestamp = Some ts"
    using request_lengths [OF r] by (auto simp: load64_def mem_read_def)
  have va: "validate_message (?m @ drop (length ?m) (lc_buf s)) (word_of_nat (length ?m)) = Some True"
    using request_validates [OF r] by simp
  define s1 where "s1 = s\<lparr>lc_pc := U_read, lu_failed := True\<rparr>"
  define s2 where "s2 = s1\<lparr>lu_ring := rb, lc_buf := ?m @ drop (length ?m) (lc_buf s),
    lc_msg_size := word_of_nat (length ?m), lc_pc := U_clear, lu_rcvd := lu_rcvd s @ [?m]\<rparr>"
  define s3 where "s3 = s2\<lparr>lu_ring := rb\<lparr>lr_response_available := False\<rparr>, lc_pc := U_account\<rparr>"
  define s4 where "s4 = s3\<lparr>lc_lat := if length (lc_lat s) < MAX_LATENCIES
      then lc_lat s @ [lu_clock s - ts] else lc_lat s, lc_ops := lc_ops s + 1,
    lc_bytes := lc_bytes s + word_of_nat (length ?m), lc_pc := U_loop\<rparr>"
  have len: "unat (word_of_nat (length ?m) :: u64) = length ?m"
    using request_lengths [OF r] by (simp add: unat_of_nat_u64)
  have m: "lu_client_move p True 0 a s = Some s1" "lu_client_move p True 0 a s1 = Some s2"
    "lu_client_move p True 0 a s2 = Some s3" "lu_client_move p True 0 a s3 = Some s4"
    using assms(7,8) rd ts va len
    by (simp_all add: lu_client_move_def lu_client_step_def s1_def s2_def s3_def s4_def)
  have "reach (lu_step p) s s4"
    by (rule reach.step [OF reach.step [OF reach.step [OF reach.step [OF reach.init]]]];
        rule lu_step.lu_client [OF order_refl], rule m)
  moreover have "lc_pc s4 = U_loop" "ls_pc s4 = ls_pc s" "lu_rcvd s4 = lu_rcvd s @ [?m]" "lc_ops s4 = lc_ops s + 1"
    "lb_holds (lr_abs (lu_ring s4)) []" "length (lu_served s4) < length (lu_sent s4)"
    using sv h' rb by (simp_all add: s4_def s3_def s2_def s1_def)
  ultimately show ?thesis by blast
qed

subsection \<open>Instances\<close>

definition lu_up0 :: lu_state where
  "lu_up0 = \<lparr>lu_ring = (lu_zero (unat BUFFER_SIZE))\<lparr>lr_size := BUFFER_SIZE, lr_ready := True\<rparr>, lu_clock = 1,
     ls_pc = S_malloc, ls_end = 0, ls_buf = replicate (unat MAX_MSG_SIZE) 0, ls_msg_size = 0,
     lc_pc = U_ready, lc_end = 0, lc_buf = replicate (unat MAX_MSG_SIZE) 0, lc_msg_size = 0,
     lc_ops = 0, lc_bytes = 0, lc_lat = [], lc_report = None, lu_sent = [], lu_served = [], lu_rcvd = [], lu_failed = False\<rparr>"

lemma lu_instance: "lu_up lb_params0 lu_up0" "lu_abs lu_up0 = lb_up0" "\<not> lu_failed lu_up0"
  by (simp_all add: lu_up_def lu_up0_def lb_params0_def lu_abs_def lb_up0_def lb_state0_def lu_zero_def lb_zero_def lr_abs_def)

lemma lu_instance_run:
  obtains s m where "reach (lu_step lb_params0) lu_up0 s" "\<not> lu_failed s" "lb_live (lu_abs s)"
    "lc_pc s = U_wait Q_parked" "lu_sent s = [m]" "lr_message_available (lu_ring s)" "ls_pc s = S_malloc"
proof -
  obtain b m where b: "reach (lb_step lb_params0) lb_up0 b" "lb_live b" "c_pc b = C_wait W_asleep" "g_sent b = [m]"
      "lb_message_available (ring b)" "s_pc b = S_malloc"
    using lb_instance_run by blast
  then obtain s where s: "reach (lu_step lb_params0) lu_up0 s" "lu_abs s = b" "\<not> lu_failed s"
    using lu_reach_lift [of lb_params0 lu_up0 b] lu_instance unfolding lu_simulates_def by auto
  have "client_place (lc_pc s) = C_wait W_asleep" using b(3) s(2) by auto
  then have "lc_pc s = U_wait Q_parked" by (simp add: client_asleep)
  moreover have "lb_live (lu_abs s)" "lu_sent s = [m]" "lr_message_available (lu_ring s)" "ls_pc s = S_malloc"
    using b s(2) by auto
  ultimately show thesis using that s(1,3) by blast
qed

theorem uring_matches_futex_witness:
  "lb_up0 \<in> {lu_abs t |t. reach (lu_step lb_params0) lu_up0 t \<and> \<not> lu_failed t}"
  using uring_matches_futex [OF lu_instance(3), of lb_params0] lu_instance(2) reach.init [of "lb_step lb_params0" lb_up0]
  by simp


theorem uring_answers_witness:
  "\<exists>s n t. reach (lu_step lb_params0) lu_up0 s \<and> lc_pc s = U_wait Q_parked \<and> n \<le> 15 \<and>
     lu_server_run lb_params0 n s = Some t \<and>
     (lb_live (lu_abs t) \<longleftrightarrow> lb_live (lu_abs t) \<and> lr_response_available (lu_ring t) \<and> lc_pc t \<noteq> U_wait Q_parked)"
proof -
  obtain s m where s: "reach (lu_step lb_params0) lu_up0 s" "\<not> lu_failed s" "lb_live (lu_abs s)"
    "lc_pc s = U_wait Q_parked" by (rule lu_instance_run)
  then show ?thesis
    using uring_answers [OF s(1) lu_instance(1) lb_instances(3,4) s(3,2,4)] by blast
qed

theorem uring_failure_self_echo_witness:
  "\<exists>s t m. reach (lu_step lb_params0) lu_up0 s \<and> reach (lu_step lb_params0) s t \<and> lu_sent s = [m] \<and>
     ls_pc t = S_malloc \<and> lu_rcvd t = lu_rcvd s @ [m] \<and> lc_ops t = lc_ops s + 1"
proof -
  obtain s m where s: "reach (lu_step lb_params0) lu_up0 s" "\<not> lu_failed s" "lb_live (lu_abs s)"
    "lc_pc s = U_wait Q_parked" "lu_sent s = [m]" "lr_message_available (lu_ring s)" "ls_pc s = S_malloc"
    by (rule lu_instance_run)
  have f: "uring_wait_step (lr_response_available (lu_ring s)) (lr_client_futex (lu_ring s))
      (good_answers\<lparr>ua_wait := - 4\<rparr>) Q_parked = Q_return False"
    by simp
  then obtain t where "reach (lu_step lb_params0) s t" "ls_pc t = ls_pc s"
      "lu_rcvd t = lu_rcvd s @ [last (lu_sent s)]" "lc_ops t = lc_ops s + 1"
    using uring_failure_self_echo [OF s(1) lu_instance(1) lb_instances(3,4) s(3,2,4) f s(6)] s(7) by auto
  then show ?thesis using s by auto
qed

end
