(* ===== verification/Shm_Blocking.thy ===== *)
theory Shm_Blocking
  imports Ring_Buffer Messages Echo_Protocol Statistics
begin

section \<open>Shared memory with a mutex, blocking (shm\_blocking.h, shm\_blocking.c)\<close>

text \<open>
  The ring struct with its process-shared mutex and two condition variables, and the two processes
  as step functions over one shared state. Every statement that touches the shared struct is one
  step, inside critical sections too; a condition variable is the set of the processes that sleep
  on it, which the program counters show. \<open>pthread_cond_wait\<close> releases the mutex and sleeps in one
  step, and re-acquires it after a signal, a broadcast or a spurious wake-up.
\<close>

subsection \<open>The ring struct\<close>

datatype owner = Server | Client

record BlockingRingBuffer =
  sb_mutex :: "owner option"
  sb_read_pos :: u64
  sb_write_pos :: u64
  sb_size :: u64
  sb_message_available :: bool
  sb_response_available :: bool
  sb_ready :: bool
  sb_buffer :: bytes

definition sb_ring_buffer_read ::
  "BlockingRingBuffer \<Rightarrow> bytes \<Rightarrow> u64 \<Rightarrow> (bool \<times> BlockingRingBuffer \<times> bytes \<times> u64) option" where
  "sb_ring_buffer_read rb data max_len =
     map_option (\<lambda>(ok, rp, data', n). (ok, rb\<lparr>sb_read_pos := rp\<rparr>, data', n))
       (ring64_read (sb_buffer rb) (sb_size rb) (sb_read_pos rb) (sb_write_pos rb) data max_len)"

definition sb_ring_buffer_write ::
  "BlockingRingBuffer \<Rightarrow> bytes \<Rightarrow> u64 \<Rightarrow> (bool \<times> BlockingRingBuffer) option" where
  "sb_ring_buffer_write rb data len =
     map_option (\<lambda>(ok, buf, wp). (ok, rb\<lparr>sb_buffer := buf, sb_write_pos := wp\<rparr>))
       (ring64_write (sb_buffer rb) (sb_size rb) (sb_read_pos rb) (sb_write_pos rb) data len)"

definition sb_holds :: "BlockingRingBuffer \<Rightarrow> bytes list \<Rightarrow> bool" where
  "sb_holds rb ms \<longleftrightarrow> ring_holds (sb_buffer rb) (sb_size rb) (sb_read_pos rb) (sb_write_pos rb) ms"

definition sb_room :: "BlockingRingBuffer \<Rightarrow> nat \<Rightarrow> bool" where
  "sb_room rb n \<longleftrightarrow> ring_fits (sb_size rb) (ring_used (sb_size rb) (sb_read_pos rb) (sb_write_pos rb)) n"

text \<open>The struct is a message queue; the laws come from the 64-bit ring.\<close>

interpretation sbq: message_queue sb_ring_buffer_read sb_ring_buffer_write sb_holds sb_room
proof unfold_locales
  fix r ms and len :: u64 and data :: bytes
  assume h: "sb_holds r ms" and l: "unat len \<le> length data"
  show "\<exists>r'. sb_ring_buffer_write r data len = Some (True, r') \<and> sb_holds r' (ms @ [take (unat len) data])"
    if "sb_room r (unat len)" "unat len < 2 ^ 32"
    using ring64_write_ok [of "sb_buffer r" "sb_size r" "sb_read_pos r" "sb_write_pos r" ms len data] h l that
    by (force simp: sb_holds_def sb_room_def sb_ring_buffer_write_def)
  show "sb_ring_buffer_write r data len = Some (False, r)" if "\<not> sb_room r (unat len)"
    using ring64_write_full [of "sb_buffer r" "sb_size r" "sb_read_pos r" "sb_write_pos r" ms len data] h l that
    by (simp add: sb_holds_def sb_room_def sb_ring_buffer_write_def)
next
  fix r m ms and max_len :: u64 and data :: bytes
  show "sb_ring_buffer_read r data max_len = Some (False, r, data, 0)" if "sb_holds r []"
    using ring64_read_empty [of "sb_buffer r" "sb_size r" "sb_read_pos r" "sb_write_pos r" data max_len] that
    by (simp add: sb_holds_def sb_ring_buffer_read_def)
  show "\<exists>r'. sb_ring_buffer_read r data max_len
      = Some (True, r', m @ drop (length m) data, word_of_nat (length m)) \<and> sb_holds r' ms"
    if "sb_holds r (m # ms)" "length m \<le> unat max_len" "length m \<le> length data"
    using ring64_read_ok [of "sb_buffer r" "sb_size r" "sb_read_pos r" "sb_write_pos r" m ms max_len data] that
    by (force simp: sb_holds_def sb_ring_buffer_read_def)
  show "sb_ring_buffer_read r data max_len = Some (False, r, data, 0)"
    if "sb_holds r (m # ms)" "unat max_len < length m"
    using ring64_read_big [of "sb_buffer r" "sb_size r" "sb_read_pos r" "sb_write_pos r" m ms max_len data] that
    by (simp add: sb_holds_def sb_ring_buffer_read_def)
qed

subsection \<open>The processes' states\<close>

datatype sb_server_pc =
    BI_sync | BI_read_pos | BI_write_pos | BI_size | BI_message | BI_response | BI_ready
  | B_malloc | B_loop | B_lock | B_test | B_asleep | B_reacquire | B_read | B_read_failed
  | B_clear | B_unlock | B_validate | B_relock | B_write | B_respond | B_signal | B_release
  | BF_lock | BF_ready | BF_response | BF_server | BF_client | BF_unlock | BF_unmap | B_done | B_crash

datatype sb_client_pc =
    DI_ready
  | D_malloc | D_loop | D_build | D_lock | D_write | D_flag | D_signal | D_check | D_test | D_asleep
  | D_reacquire | D_read | D_clear | D_unlock | D_account | D_abandon | D_stats | D_done | D_crash

text \<open>As in the lock-free backend, the \<open>hist_\<close> fields are histories no step reads.\<close>

record sb_state =
  sb_ring :: BlockingRingBuffer
  sb_clock :: u64
  bs_pc :: sb_server_pc
  bs_end :: u64
  bs_buf :: bytes
  bs_msg_size :: u64
  bc_pc :: sb_client_pc
  bc_end :: u64
  bc_buf :: bytes
  bc_msg_size :: u64
  bc_ops :: u64
  bc_bytes :: u64
  bc_lat :: "u64 list"
  bc_report :: "BenchmarkStats option"
  hist_sent :: "bytes list"
  hist_served :: "bytes list"
  hist_rcvd :: "bytes list"

record sb_params =
  sbp_size :: u64
  sbp_server_secs :: int
  sbp_client_secs :: int
  sbp_cpu :: "rat \<times> rat"

subsection \<open>Mutex and condition variables\<close>

text \<open>\<open>pthread_mutex_lock\<close> blocks while the mutex is taken.\<close>

definition mutex_lock :: "owner \<Rightarrow> BlockingRingBuffer \<Rightarrow> BlockingRingBuffer option" where
  "mutex_lock who rb = (if sb_mutex rb = None then Some (rb\<lparr>sb_mutex := Some who\<rparr>) else None)"

definition mutex_unlock :: "BlockingRingBuffer \<Rightarrow> BlockingRingBuffer" where
  "mutex_unlock rb = rb\<lparr>sb_mutex := None\<rparr>"

text \<open>\<open>pthread_cond_signal\<close> and \<open>pthread_cond_broadcast\<close>: at most one process waits on each condition.\<close>

definition server_cond_signal :: "sb_state \<Rightarrow> sb_state" where
  "server_cond_signal s = (if bs_pc s = B_asleep then s\<lparr>bs_pc := B_reacquire\<rparr> else s)"

definition client_cond_signal :: "sb_state \<Rightarrow> sb_state" where
  "client_cond_signal s = (if bc_pc s = D_asleep then s\<lparr>bc_pc := D_reacquire\<rparr> else s)"

abbreviation (input) sb_us :: "int \<Rightarrow> u64" where
  "sb_us secs \<equiv> word_of_int secs * 1000000"

subsection \<open>The server process\<close>

text \<open>The initialisation of \<open>setup_shm_blocking\<close>, server side, in program order: \<open>ready\<close> comes last.\<close>

fun sb_setup_step :: "sb_params \<Rightarrow> sb_server_pc \<Rightarrow> BlockingRingBuffer \<Rightarrow> BlockingRingBuffer \<times> sb_server_pc" where
  "sb_setup_step p BI_sync rb = (rb\<lparr>sb_mutex := None\<rparr>, BI_read_pos)"
| "sb_setup_step p BI_read_pos rb = (rb\<lparr>sb_read_pos := 0\<rparr>, BI_write_pos)"
| "sb_setup_step p BI_write_pos rb = (rb\<lparr>sb_write_pos := 0\<rparr>, BI_size)"
| "sb_setup_step p BI_size rb = (rb\<lparr>sb_size := sbp_size p\<rparr>, BI_message)"
| "sb_setup_step p BI_message rb = (rb\<lparr>sb_message_available := False\<rparr>, BI_response)"
| "sb_setup_step p BI_response rb = (rb\<lparr>sb_response_available := False\<rparr>, BI_ready)"
| "sb_setup_step p BI_ready rb = (rb\<lparr>sb_ready := True\<rparr>, B_malloc)"
| "sb_setup_step p pc rb = (rb, pc)"

text \<open>\<open>run_shm_blocking_server\<close>. A failed validation goes back to the loop without an answer, a failed
  read releases the mutex and goes back. \<open>None\<close>: the process cannot move.\<close>

definition sb_server_step :: "sb_params \<Rightarrow> bool \<Rightarrow> sb_state \<Rightarrow> sb_state option" where
  "sb_server_step p alloc s =
     (case bs_pc s of
        B_malloc \<Rightarrow>
          if \<not> alloc then Some (s\<lparr>bs_pc := BF_lock\<rparr>)
          else Some (s\<lparr>bs_pc := B_loop, bs_end := sb_clock s + sb_us (sbp_server_secs p)\<rparr>)
      | B_loop \<Rightarrow> Some (s\<lparr>bs_pc := if sb_clock s < bs_end s then B_lock else BF_lock\<rparr>)
      | B_lock \<Rightarrow> map_option (\<lambda>rb. s\<lparr>sb_ring := rb, bs_pc := B_test\<rparr>) (mutex_lock Server (sb_ring s))
      | B_test \<Rightarrow>
          Some (if \<not> sb_message_available (sb_ring s)
                then s\<lparr>sb_ring := mutex_unlock (sb_ring s), bs_pc := B_asleep\<rparr>
                else s\<lparr>bs_pc := B_read\<rparr>)
      | B_asleep \<Rightarrow> None
      | B_reacquire \<Rightarrow> map_option (\<lambda>rb. s\<lparr>sb_ring := rb, bs_pc := B_test\<rparr>) (mutex_lock Server (sb_ring s))
      | B_read \<Rightarrow>
          (case sb_ring_buffer_read (sb_ring s) (bs_buf s) MAX_MSG_SIZE of
             None \<Rightarrow> Some (s\<lparr>bs_pc := B_crash\<rparr>)
           | Some (ok, rb, buf, n) \<Rightarrow>
               let s' = s\<lparr>sb_ring := rb, bs_buf := buf, bs_msg_size := n\<rparr>
               in Some (if ok
                        then s'\<lparr>bs_pc := B_clear, hist_served := hist_served s @ [take (unat n) buf]\<rparr>
                        else s'\<lparr>bs_pc := B_read_failed\<rparr>))
      | B_read_failed \<Rightarrow> Some (s\<lparr>sb_ring := mutex_unlock (sb_ring s), bs_pc := B_loop\<rparr>)
      | B_clear \<Rightarrow>
          Some (s\<lparr>sb_ring := (sb_ring s)\<lparr>sb_message_available := False\<rparr>, bs_pc := B_unlock\<rparr>)
      | B_unlock \<Rightarrow> Some (s\<lparr>sb_ring := mutex_unlock (sb_ring s), bs_pc := B_validate\<rparr>)
      | B_validate \<Rightarrow>
          (case validate_message (bs_buf s) (bs_msg_size s) of
             None \<Rightarrow> Some (s\<lparr>bs_pc := B_crash\<rparr>)
           | Some ok \<Rightarrow> Some (s\<lparr>bs_pc := if ok then B_relock else B_loop\<rparr>))
      | B_relock \<Rightarrow> map_option (\<lambda>rb. s\<lparr>sb_ring := rb, bs_pc := B_write\<rparr>) (mutex_lock Server (sb_ring s))
      | B_write \<Rightarrow>
          (case sb_ring_buffer_write (sb_ring s) (bs_buf s) (bs_msg_size s) of
             None \<Rightarrow> Some (s\<lparr>bs_pc := B_crash\<rparr>)
           | Some (ok, rb) \<Rightarrow> Some (s\<lparr>sb_ring := rb, bs_pc := if ok then B_respond else B_release\<rparr>))
      | B_respond \<Rightarrow>
          Some (s\<lparr>sb_ring := (sb_ring s)\<lparr>sb_response_available := True\<rparr>, bs_pc := B_signal\<rparr>)
      | B_signal \<Rightarrow> Some ((client_cond_signal s)\<lparr>bs_pc := B_release\<rparr>)
      | B_release \<Rightarrow> Some (s\<lparr>sb_ring := mutex_unlock (sb_ring s), bs_pc := B_loop\<rparr>)
      | _ \<Rightarrow> None)"

text \<open>\<open>free_shm_blocking_server\<close>.\<close>

definition sb_free_server_step :: "sb_state \<Rightarrow> sb_state option" where
  "sb_free_server_step s =
     (case bs_pc s of
        BF_lock \<Rightarrow> map_option (\<lambda>rb. s\<lparr>sb_ring := rb, bs_pc := BF_ready\<rparr>) (mutex_lock Server (sb_ring s))
      | BF_ready \<Rightarrow> Some (s\<lparr>sb_ring := (sb_ring s)\<lparr>sb_ready := False\<rparr>, bs_pc := BF_response\<rparr>)
      | BF_response \<Rightarrow>
          Some (s\<lparr>sb_ring := (sb_ring s)\<lparr>sb_response_available := True\<rparr>, bs_pc := BF_server\<rparr>)
      | BF_server \<Rightarrow> Some ((server_cond_signal s)\<lparr>bs_pc := BF_client\<rparr>)
      | BF_client \<Rightarrow> Some ((client_cond_signal s)\<lparr>bs_pc := BF_unlock\<rparr>)
      | BF_unlock \<Rightarrow> Some (s\<lparr>sb_ring := mutex_unlock (sb_ring s), bs_pc := BF_unmap\<rparr>)
      | BF_unmap \<Rightarrow> Some (s\<lparr>bs_pc := B_done\<rparr>)
      | _ \<Rightarrow> None)"

definition sb_in_setup :: "sb_server_pc \<Rightarrow> bool" where
  "sb_in_setup pc \<longleftrightarrow> pc \<in> {BI_sync, BI_read_pos, BI_write_pos, BI_size, BI_message, BI_response, BI_ready}"

definition sb_in_free :: "sb_server_pc \<Rightarrow> bool" where
  "sb_in_free pc \<longleftrightarrow> pc \<in> {BF_lock, BF_ready, BF_response, BF_server, BF_client, BF_unlock, BF_unmap}"

definition sb_server_move :: "sb_params \<Rightarrow> bool \<Rightarrow> sb_state \<Rightarrow> sb_state option" where
  "sb_server_move p alloc s =
     (if sb_in_setup (bs_pc s)
      then let (rb, pc) = sb_setup_step p (bs_pc s) (sb_ring s) in Some (s\<lparr>sb_ring := rb, bs_pc := pc\<rparr>)
      else if sb_in_free (bs_pc s) then sb_free_server_step s
      else sb_server_step p alloc s)"

subsection \<open>The client process\<close>

text \<open>The polling loop of \<open>setup_shm_blocking\<close>, client side.\<close>

definition sb_client_setup_step :: "sb_state \<Rightarrow> sb_state option" where
  "sb_client_setup_step s =
     (case bc_pc s of
        DI_ready \<Rightarrow> Some (if sb_ready (sb_ring s) then s\<lparr>bc_pc := D_malloc\<rparr> else s)
      | _ \<Rightarrow> None)"

text \<open>\<open>run_shm_blocking_client\<close>. \<open>D_abandon\<close> is the unlock before a \<open>break\<close>; a failed validation breaks
  out of the loop without one, the mutex being free.\<close>

definition sb_client_step :: "sb_params \<Rightarrow> bool \<Rightarrow> int \<Rightarrow> sb_state \<Rightarrow> sb_state option" where
  "sb_client_step p alloc rnd s =
     (case bc_pc s of
        D_malloc \<Rightarrow>
          if \<not> alloc then Some (s\<lparr>bc_pc := D_done\<rparr>)
          else (case store32 (bc_buf s) off_seq 0 of
                  None \<Rightarrow> Some (s\<lparr>bc_pc := D_crash\<rparr>)
                | Some buf \<Rightarrow>
                    Some (s\<lparr>bc_buf := buf, bc_ops := 0, bc_bytes := 0, bc_lat := [],
                            bc_end := sb_clock s + sb_us (sbp_client_secs p), bc_pc := D_loop\<rparr>))
      | D_loop \<Rightarrow> Some (s\<lparr>bc_pc := if sb_clock s < bc_end s then D_build else D_stats\<rparr>)
      | D_build \<Rightarrow>
          (case next_request rnd (sb_clock s) (bc_buf s) of
             None \<Rightarrow> Some (s\<lparr>bc_pc := D_crash\<rparr>)
           | Some buf \<Rightarrow> Some (s\<lparr>bc_buf := buf, bc_pc := D_lock\<rparr>))
      | D_lock \<Rightarrow> map_option (\<lambda>rb. s\<lparr>sb_ring := rb, bc_pc := D_write\<rparr>) (mutex_lock Client (sb_ring s))
      | D_write \<Rightarrow>
          (case load32 (bc_buf s) off_size \<bind>
                  (\<lambda>n. sb_ring_buffer_write (sb_ring s) (bc_buf s) (ucast n) \<bind>
                    (\<lambda>(ok, rb). Some (n, ok, rb))) of
             None \<Rightarrow> Some (s\<lparr>bc_pc := D_crash\<rparr>)
           | Some (n, ok, rb) \<Rightarrow>
               Some (if ok
                     then s\<lparr>sb_ring := rb, bc_pc := D_flag,
                            hist_sent := hist_sent s @ [take (unat n) (bc_buf s)]\<rparr>
                     else s\<lparr>sb_ring := rb, bc_pc := D_abandon\<rparr>))
      | D_flag \<Rightarrow>
          Some (s\<lparr>sb_ring := (sb_ring s)\<lparr>sb_message_available := True\<rparr>, bc_pc := D_signal\<rparr>)
      | D_signal \<Rightarrow> Some ((server_cond_signal s)\<lparr>bc_pc := D_check\<rparr>)
      | D_check \<Rightarrow> Some (s\<lparr>bc_pc := if sb_ready (sb_ring s) then D_test else D_abandon\<rparr>)
      | D_test \<Rightarrow>
          Some (if \<not> sb_response_available (sb_ring s)
                then s\<lparr>sb_ring := mutex_unlock (sb_ring s), bc_pc := D_asleep\<rparr>
                else s\<lparr>bc_pc := D_read\<rparr>)
      | D_asleep \<Rightarrow> None
      | D_reacquire \<Rightarrow> map_option (\<lambda>rb. s\<lparr>sb_ring := rb, bc_pc := D_test\<rparr>) (mutex_lock Client (sb_ring s))
      | D_read \<Rightarrow>
          (case sb_ring_buffer_read (sb_ring s) (bc_buf s) MAX_MSG_SIZE of
             None \<Rightarrow> Some (s\<lparr>bc_pc := D_crash\<rparr>)
           | Some (ok, rb, buf, n) \<Rightarrow>
               let s' = s\<lparr>sb_ring := rb, bc_buf := buf, bc_msg_size := n\<rparr>
               in Some (if ok
                        then s'\<lparr>bc_pc := D_clear, hist_rcvd := hist_rcvd s @ [take (unat n) buf]\<rparr>
                        else s'\<lparr>bc_pc := D_abandon\<rparr>))
      | D_clear \<Rightarrow>
          Some (s\<lparr>sb_ring := (sb_ring s)\<lparr>sb_response_available := False\<rparr>, bc_pc := D_unlock\<rparr>)
      | D_unlock \<Rightarrow> Some (s\<lparr>sb_ring := mutex_unlock (sb_ring s), bc_pc := D_account\<rparr>)
      | D_account \<Rightarrow>
          (case validate_message (bc_buf s) (bc_msg_size s) of
             None \<Rightarrow> Some (s\<lparr>bc_pc := D_crash\<rparr>)
           | Some False \<Rightarrow> Some (s\<lparr>bc_pc := D_stats\<rparr>)
           | Some True \<Rightarrow>
               (case load64 (bc_buf s) off_timestamp of
                  None \<Rightarrow> Some (s\<lparr>bc_pc := D_crash\<rparr>)
                | Some sent_at \<Rightarrow>
                    Some (s\<lparr>bc_lat := if length (bc_lat s) < MAX_LATENCIES
                                      then bc_lat s @ [sb_clock s - sent_at] else bc_lat s,
                            bc_ops := bc_ops s + 1, bc_bytes := bc_bytes s + bc_msg_size s,
                            bc_pc := D_loop\<rparr>)))
      | D_abandon \<Rightarrow> Some (s\<lparr>sb_ring := mutex_unlock (sb_ring s), bc_pc := D_stats\<rparr>)
      | D_stats \<Rightarrow>
          (case run_report (sbp_cpu p) (sbp_client_secs p) (bc_lat s) (bc_ops s) (bc_bytes s) of
             None \<Rightarrow> Some (s\<lparr>bc_pc := D_crash\<rparr>)
           | Some st \<Rightarrow> Some (s\<lparr>bc_report := Some st, bc_pc := D_done\<rparr>))
      | _ \<Rightarrow> None)"

definition sb_client_move :: "sb_params \<Rightarrow> bool \<Rightarrow> int \<Rightarrow> sb_state \<Rightarrow> sb_state option" where
  "sb_client_move p alloc rnd s =
     (if bc_pc s = DI_ready then sb_client_setup_step s else sb_client_step p alloc rnd s)"

subsection \<open>The system\<close>

inductive sb_step :: "sb_params \<Rightarrow> sb_state \<Rightarrow> sb_state \<Rightarrow> bool" for p where
  sb_server: "sb_server_move p alloc s = Some t \<Longrightarrow> sb_step p s t"
| sb_client: "0 \<le> rnd \<Longrightarrow> sb_client_move p alloc rnd s = Some t \<Longrightarrow> sb_step p s t"
| sb_tick: "sb_clock s \<le> now \<Longrightarrow> sb_step p s (s\<lparr>sb_clock := now\<rparr>)"
| sb_spurious_server: "bs_pc s = B_asleep \<Longrightarrow> sb_step p s (s\<lparr>bs_pc := B_reacquire\<rparr>)"
| sb_spurious_client: "bc_pc s = D_asleep \<Longrightarrow> sb_step p s (s\<lparr>bc_pc := D_reacquire\<rparr>)"

text \<open>The fresh mapping, zero-filled by \<open>ftruncate\<close>; the client polls \<open>ready\<close> from the start.\<close>

definition sb_zero :: "nat \<Rightarrow> BlockingRingBuffer" where
  "sb_zero n = \<lparr>sb_mutex = None, sb_read_pos = 0, sb_write_pos = 0, sb_size = 0,
     sb_message_available = False, sb_response_available = False, sb_ready = False,
     sb_buffer = replicate n 0\<rparr>"

definition sb_boot :: "sb_params \<Rightarrow> sb_state \<Rightarrow> bool" where
  "sb_boot p s \<longleftrightarrow> bs_pc s = BI_sync \<and> sb_ring s = sb_zero (unat (sbp_size p)) \<and> bc_pc s = DI_ready \<and>
     length (bs_buf s) = unat MAX_MSG_SIZE \<and> length (bc_buf s) = unat MAX_MSG_SIZE \<and>
     bc_ops s = 0 \<and> bc_bytes s = 0 \<and> bc_lat s = [] \<and>
     hist_sent s = [] \<and> hist_served s = [] \<and> hist_rcvd s = []"

end
