(* ===== verification/Shm_Blocking_Proofs.thy ===== *)
theory Shm_Blocking_Proofs
  imports Shm_Blocking
begin

section \<open>Shared memory with a mutex, blocking: the protocol is correct while the server runs\<close>

text \<open>
  The invariant from the server's first store until it leaves its loop. It covers the setup, because
  \<open>ready\<close> is stored last here. The mutex names the process inside a critical section; a process
  asleep on its condition has its flag down or its signal still to come; ring, flags and places
  agree with the phase of the exchange. \<open>sb_step\<close> is thus an implementation of the echo protocol.
\<close>

subsection \<open>The phase and the invariant\<close>

text \<open>Places of the client outside an exchange, from the end of one to the write of the next.\<close>

definition client_out :: "sb_client_pc \<Rightarrow> bool" where
  "client_out pc \<longleftrightarrow> pc \<in> {DI_ready, D_malloc, D_loop, D_build, D_lock, D_write, D_clear, D_unlock,
     D_account, D_stats, D_done}"

definition server_calm :: "sb_server_pc \<Rightarrow> bool" where
  "server_calm pc \<longleftrightarrow> pc \<in> {B_malloc, B_loop, B_lock, B_test, B_asleep, B_reacquire, B_signal, B_release}"

definition calm_phase :: "sb_server_pc \<Rightarrow> bool \<Rightarrow> phase" where
  "calm_phase pc r =
     (if pc \<in> {B_clear, B_unlock, B_validate, B_relock, B_write} then Taken
      else if pc = B_respond \<or> r then Responded else Requested)"

definition sb_phase :: "sb_state \<Rightarrow> phase" where
  "sb_phase s = (if client_out (bc_pc s) then Idle
                 else calm_phase (bs_pc s) (sb_response_available (sb_ring s)))"

definition sb_abs :: "sb_state \<Rightarrow> echo" where
  "sb_abs s = \<lparr>e_phase = sb_phase s, e_sent = hist_sent s, e_served = hist_served s, e_rcvd = hist_rcvd s\<rparr>"

text \<open>The mutex is held by the process that is in a critical section.\<close>

definition server_critical :: "sb_server_pc \<Rightarrow> bool" where
  "server_critical pc \<longleftrightarrow> pc \<in> {B_test, B_read, B_read_failed, B_clear, B_unlock, B_write, B_respond,
     B_signal, B_release, BF_ready, BF_response, BF_server, BF_client, BF_unlock}"

definition client_critical :: "sb_client_pc \<Rightarrow> bool" where
  "client_critical pc \<longleftrightarrow> pc \<in> {D_write, D_flag, D_signal, D_check, D_test, D_read, D_clear, D_unlock, D_abandon}"

definition sb_mutex_inv :: "sb_state \<Rightarrow> bool" where
  "sb_mutex_inv s \<longleftrightarrow>
     (sb_mutex (sb_ring s) = Some Server) = server_critical (bs_pc s) \<and>
     (sb_mutex (sb_ring s) = Some Client) = client_critical (bc_pc s)"

text \<open>A process asleep on its condition has its flag down, or the signal is still to come.\<close>

definition sb_wake_inv :: "sb_state \<Rightarrow> bool" where
  "sb_wake_inv s \<longleftrightarrow>
     (bs_pc s = B_asleep \<and> sb_message_available (sb_ring s) \<longrightarrow> bc_pc s = D_signal) \<and>
     (bc_pc s = D_asleep \<and> sb_response_available (sb_ring s) \<longrightarrow> bs_pc s = B_signal)"

definition sb_out :: "sb_state \<Rightarrow> bool" where
  "sb_out s \<longleftrightarrow> sb_holds (sb_ring s) [] \<and> \<not> sb_message_available (sb_ring s) \<and>
     sb_response_available (sb_ring s) = (bc_pc s = D_clear) \<and> server_calm (bs_pc s) \<and>
     (bc_pc s \<in> {D_clear, D_unlock, D_account} \<longrightarrow> request (last (hist_sent s)))"

definition sb_exchange :: "sb_state \<Rightarrow> bool" where
  "sb_exchange s \<longleftrightarrow>
     (let M = sb_message_available (sb_ring s); R = sb_response_available (sb_ring s); m = last (hist_sent s);
          ph = calm_phase (bs_pc s) R
      in request m \<and> (bc_pc s = D_read \<longrightarrow> R) \<and> (bs_pc s = B_read \<longrightarrow> M) \<and>
         (ph = Requested \<longrightarrow> sb_holds (sb_ring s) [m] \<and> M = (bc_pc s \<noteq> D_flag) \<and> \<not> R \<and>
            (server_calm (bs_pc s) \<or> bs_pc s = B_read)) \<and>
         (ph = Taken \<longrightarrow> sb_holds (sb_ring s) [] \<and> M = (bs_pc s = B_clear) \<and> \<not> R \<and> bc_pc s \<noteq> D_flag \<and>
            take (length m) (bs_buf s) = m \<and> bs_msg_size s = word_of_nat (length m)) \<and>
         (ph = Responded \<longrightarrow> sb_holds (sb_ring s) [m] \<and> \<not> M \<and> R = (bs_pc s \<noteq> B_respond) \<and>
            bc_pc s \<noteq> D_flag \<and> (server_calm (bs_pc s) \<or> bs_pc s = B_respond)))"

definition sb_blocks_inv :: "sb_state \<Rightarrow> bool" where
  "sb_blocks_inv s \<longleftrightarrow>
     length (bs_buf s) = unat MAX_MSG_SIZE \<and> length (bc_buf s) = unat MAX_MSG_SIZE \<and>
     8264 \<le> unat (sb_size (sb_ring s)) \<and> sb_ready (sb_ring s) \<and>
     bs_pc s \<noteq> B_crash \<and> bs_pc s \<noteq> B_read_failed \<and> bc_pc s \<noteq> D_crash \<and> bc_pc s \<noteq> D_abandon \<and>
     (\<forall>m \<in> set (hist_sent s). request m) \<and>
     (bc_pc s \<in> {D_lock, D_write} \<longrightarrow> (\<exists>n. load32 (bc_buf s) off_size = Some n \<and> unat n < 4132 \<and>
                              request (take (unat n) (bc_buf s)))) \<and>
     (bc_pc s \<in> {D_clear, D_unlock, D_account} \<longrightarrow>
        take (length (last (hist_sent s))) (bc_buf s) = last (hist_sent s) \<and>
        bc_msg_size s = word_of_nat (length (last (hist_sent s))))"

definition sb_stats_inv :: "sb_state \<Rightarrow> bool" where
  "sb_stats_inv s \<longleftrightarrow>
     (let pending = (if bc_pc s \<in> {D_clear, D_unlock, D_account} then 1 else 0 :: nat);
          counted = take (length (hist_rcvd s) - pending) (hist_rcvd s)
      in (bc_pc s \<in> {DI_ready, D_malloc} \<longrightarrow> hist_rcvd s = []) \<and>
         (pending = 1 \<longrightarrow> hist_rcvd s \<noteq> [] \<and> last (hist_rcvd s) = last (hist_sent s)) \<and>
         bc_ops s = word_of_nat (length counted) \<and>
         bc_bytes s = word_of_nat (sum_list (map length counted)) \<and>
         length (bc_lat s) = min MAX_LATENCIES (length counted))"

definition sb_run_inv :: "sb_state \<Rightarrow> bool" where
  "sb_run_inv s \<longleftrightarrow> sb_mutex_inv s \<and> sb_wake_inv s \<and>
     (if client_out (bc_pc s) then sb_out s else sb_exchange s) \<and> sb_blocks_inv s \<and> sb_stats_inv s"

text \<open>During the server's setup nobody else touches the segment: the client polls \<open>ready\<close>.\<close>

definition sb_setup_inv :: "sb_params \<Rightarrow> sb_state \<Rightarrow> bool" where
  "sb_setup_inv p s \<longleftrightarrow> bc_pc s = DI_ready \<and>
     sb_ring s = (sb_zero (unat (sbp_size p)))\<lparr>sb_size :=
        if bs_pc s \<in> {BI_message, BI_response, BI_ready} then sbp_size p else 0\<rparr> \<and>
     length (bs_buf s) = unat MAX_MSG_SIZE \<and> length (bc_buf s) = unat MAX_MSG_SIZE \<and>
     bc_ops s = 0 \<and> bc_bytes s = 0 \<and> bc_lat s = [] \<and>
     hist_sent s = [] \<and> hist_served s = [] \<and> hist_rcvd s = []"

definition sb_inv :: "sb_params \<Rightarrow> sb_state \<Rightarrow> bool" where
  "sb_inv p s \<longleftrightarrow> (if sb_in_setup (bs_pc s) then sb_setup_inv p s else sb_run_inv s)"

definition sb_live :: "sb_state \<Rightarrow> bool" where
  "sb_live s \<longleftrightarrow> \<not> sb_in_free (bs_pc s) \<and> bs_pc s \<noteq> B_done"

definition sb_size_ok :: "sb_params \<Rightarrow> bool" where
  "sb_size_ok p \<longleftrightarrow> 8264 \<le> unat (sbp_size p) \<and> unat (sbp_size p) < 2 ^ 62"

lemma sb_room_empty:
  assumes "sb_holds rb []" "8264 \<le> unat (sb_size rb)" "n < 4132"
  shows "sb_room rb n"
  using assms by (auto simp: sb_holds_def sb_room_def ring_fits_def ring_holds_def)

lemma sb_holds_flags [simp]:
  "sb_holds (rb\<lparr>sb_message_available := b\<rparr>) ms = sb_holds rb ms"
  "sb_holds (rb\<lparr>sb_response_available := b\<rparr>) ms = sb_holds rb ms"
  "sb_holds (rb\<lparr>sb_ready := b\<rparr>) ms = sb_holds rb ms"
  "sb_holds (rb\<lparr>sb_mutex := x\<rparr>) ms = sb_holds rb ms"
  by (simp_all add: sb_holds_def)

lemmas sb_place_defs = client_out_def server_calm_def server_critical_def client_critical_def
  sb_in_setup_def sb_in_free_def

text \<open>A step of the server's setup.\<close>

lemma sb_setup_keeps:
  assumes "sb_setup_inv p s" "sb_in_setup (bs_pc s)" "sb_size_ok p"
    and t: "t = s\<lparr>sb_ring := fst (sb_setup_step p (bs_pc s) (sb_ring s)), bs_pc := snd (sb_setup_step p (bs_pc s) (sb_ring s))\<rparr>"
  shows "sb_inv p t \<and> sb_abs t = sb_abs s"
proof -
  have "sb_holds ((sb_zero (unat (sbp_size p)))\<lparr>sb_size := sbp_size p, sb_ready := True\<rparr>) []"
    using assms(3) by (auto simp: sb_size_ok_def sb_holds_def sb_zero_def ring_wf_def intro!: ring_holds_empty)
  then show ?thesis
  using assms
  by (cases "bs_pc s")
    (simp_all add: sb_setup_inv_def sb_inv_def sb_zero_def sb_in_setup_def sb_abs_def sb_phase_def client_out_def
      sb_run_inv_def sb_mutex_inv_def server_critical_def client_critical_def sb_wake_inv_def sb_out_def server_calm_def
      sb_blocks_inv_def sb_stats_inv_def sb_size_ok_def)
qed


text \<open>What every step of a running process has to show.\<close>

definition sb_keeps :: "sb_state \<Rightarrow> sb_state \<Rightarrow> bool" where
  "sb_keeps s t \<longleftrightarrow> sb_run_inv t \<and> echo_step0 (sb_abs s) (sb_abs t)"

lemmas sb_inv_parts = sb_run_inv_def sb_mutex_inv_def sb_wake_inv_def sb_blocks_inv_def

lemma sb_stats_server [simp]:
  "sb_stats_inv (s\<lparr>bs_pc := pc\<rparr>) = sb_stats_inv s" "sb_stats_inv (s\<lparr>bs_end := e\<rparr>) = sb_stats_inv s"
  "sb_stats_inv (s\<lparr>bs_buf := b\<rparr>) = sb_stats_inv s" "sb_stats_inv (s\<lparr>bs_msg_size := n\<rparr>) = sb_stats_inv s"
  "sb_stats_inv (s\<lparr>sb_ring := r\<rparr>) = sb_stats_inv s" "sb_stats_inv (s\<lparr>sb_clock := c\<rparr>) = sb_stats_inv s"
  "sb_stats_inv (s\<lparr>hist_served := h\<rparr>) = sb_stats_inv s"
  by (simp_all add: sb_stats_inv_def)

lemma sb_mutex_excl: "sb_mutex_inv s \<Longrightarrow> server_critical (bs_pc s) \<Longrightarrow> \<not> client_critical (bc_pc s)"
  by (auto simp: sb_mutex_inv_def)

definition sb_deal :: "sb_state \<Rightarrow> bool" where
  "sb_deal s \<longleftrightarrow> (if client_out (bc_pc s) then sb_out s else sb_exchange s)"

lemma calm_phase_calm:
  "server_calm pc \<Longrightarrow> calm_phase pc r = (if r then Responded else Requested)"
  by (auto simp: server_calm_def calm_phase_def)

text \<open>Between calm places of the server nothing about the exchange changes.\<close>

lemma sb_deal_calm:
  assumes "sb_deal s" "server_calm (bs_pc s)" "server_calm (bs_pc t)"
    and f: "sb_message_available (sb_ring t) = sb_message_available (sb_ring s)"
      "sb_response_available (sb_ring t) = sb_response_available (sb_ring s)"
      "\<And>ms. sb_holds (sb_ring t) ms = sb_holds (sb_ring s) ms"
      "hist_sent t = hist_sent s" "hist_served t = hist_served s" "hist_rcvd t = hist_rcvd s"
    and c: "bc_pc t = bc_pc s \<or> bc_pc s = D_asleep \<and> bc_pc t = D_reacquire"
  shows "sb_deal t \<and> sb_abs t = sb_abs s"
proof -
  have o: "client_out (bc_pc t) = client_out (bc_pc s)" "(bc_pc t = D_clear) = (bc_pc s = D_clear)"
    "(bc_pc t = D_unlock) = (bc_pc s = D_unlock)" "(bc_pc t = D_account) = (bc_pc s = D_account)"
    "(bc_pc t = D_read) = (bc_pc s = D_read)" "(bc_pc t = D_flag) = (bc_pc s = D_flag)"
    using c by (auto simp: client_out_def)
  have n: "bs_pc s \<noteq> B_read" "bs_pc t \<noteq> B_read" "bs_pc s \<noteq> B_respond" "bs_pc t \<noteq> B_respond"
    using assms(2,3) by (auto simp: server_calm_def)
  show ?thesis
  proof (cases "client_out (bc_pc s)")
    case True
    then show ?thesis
      using assms(1-3) by (simp add: sb_deal_def o f sb_out_def sb_abs_def sb_phase_def)
  next
    case False
    then show ?thesis
      using assms(1-3) n
      by (simp add: sb_deal_def o f sb_exchange_def sb_abs_def sb_phase_def calm_phase_calm Let_def)
  qed
qed

lemma sb_run_inv_split:
  "sb_run_inv s \<longleftrightarrow> sb_mutex_inv s \<and> sb_wake_inv s \<and> sb_deal s \<and> sb_blocks_inv s \<and> sb_stats_inv s"
  by (simp add: sb_run_inv_def sb_deal_def)

lemma sb_server_calm_steps:
  assumes inv: "sb_run_inv s" and move: "sb_server_step p alloc s = Some t" and live: "sb_live s" "sb_live t"
    and calm: "server_calm (bs_pc s)" "server_calm (bs_pc t)"
  shows "sb_keeps s t"
proof -
  have parts: "sb_mutex_inv s" "sb_wake_inv s" "sb_deal s" "sb_blocks_inv s" "sb_stats_inv s"
    using inv by (simp_all add: sb_run_inv_split)
  show ?thesis
  proof (cases "bs_pc s")
    case B_malloc
    have t: "t = s\<lparr>bs_pc := B_loop, bs_end := sb_clock s + sb_us (sbp_server_secs p)\<rparr>"
      using move B_malloc calm(2) live(2) by (auto simp: sb_server_step_def mutex_lock_def mutex_unlock_def
        server_calm_def sb_live_def sb_in_free_def split: if_splits)
    show ?thesis using parts sb_deal_calm [of s t] B_malloc
      by (simp add: t sb_keeps_def sb_run_inv_split sb_mutex_inv_def server_critical_def sb_wake_inv_def
          sb_blocks_inv_def server_calm_def)
  next
    case B_loop
    have t: "t = s\<lparr>bs_pc := B_lock\<rparr>"
      using move B_loop calm(2) live(2) by (auto simp: sb_server_step_def mutex_lock_def mutex_unlock_def
        server_calm_def sb_live_def sb_in_free_def split: if_splits)
    show ?thesis using parts sb_deal_calm [of s t] B_loop
      by (simp add: t sb_keeps_def sb_run_inv_split sb_mutex_inv_def server_critical_def sb_wake_inv_def
          sb_blocks_inv_def server_calm_def)
  next
    case B_lock
    have t: "t = s\<lparr>sb_ring := (sb_ring s)\<lparr>sb_mutex := Some Server\<rparr>, bs_pc := B_test\<rparr>" and m: "sb_mutex (sb_ring s) = None"
      using move B_lock calm(2) live(2) by (simp_all add: sb_server_step_def mutex_lock_def mutex_unlock_def
        server_calm_def sb_live_def sb_in_free_def split: if_splits)
    show ?thesis using parts sb_deal_calm [of s t] B_lock m
      by (simp add: t sb_keeps_def sb_run_inv_split sb_mutex_inv_def server_critical_def sb_wake_inv_def
          sb_blocks_inv_def server_calm_def)
  next
    case B_reacquire
    have t: "t = s\<lparr>sb_ring := (sb_ring s)\<lparr>sb_mutex := Some Server\<rparr>, bs_pc := B_test\<rparr>" and m: "sb_mutex (sb_ring s) = None"
      using move B_reacquire calm(2) live(2) by (simp_all add: sb_server_step_def mutex_lock_def mutex_unlock_def
        server_calm_def sb_live_def sb_in_free_def split: if_splits)
    show ?thesis using parts sb_deal_calm [of s t] B_reacquire m
      by (simp add: t sb_keeps_def sb_run_inv_split sb_mutex_inv_def server_critical_def sb_wake_inv_def
          sb_blocks_inv_def server_calm_def)
  next
    case B_test
    have t: "t = s\<lparr>sb_ring := (sb_ring s)\<lparr>sb_mutex := None\<rparr>, bs_pc := B_asleep\<rparr>" and m: "\<not> sb_message_available (sb_ring s)"
      using move B_test calm(2) live(2) by (auto simp: sb_server_step_def mutex_lock_def mutex_unlock_def
        server_calm_def sb_live_def sb_in_free_def split: if_splits)
    have "\<not> client_critical (bc_pc s)"
      using sb_mutex_excl [OF parts(1)] B_test by (simp add: server_critical_def)
    then show ?thesis using parts sb_deal_calm [of s t] B_test m
      by (simp add: t sb_keeps_def sb_run_inv_split sb_mutex_inv_def server_critical_def sb_wake_inv_def
          sb_blocks_inv_def server_calm_def)
  next
    case B_release
    have t: "t = s\<lparr>sb_ring := (sb_ring s)\<lparr>sb_mutex := None\<rparr>, bs_pc := B_loop\<rparr>"
      using move B_release calm(2) live(2) by (simp_all add: sb_server_step_def mutex_lock_def mutex_unlock_def
        server_calm_def sb_live_def sb_in_free_def split: if_splits)
    have "\<not> client_critical (bc_pc s)"
      using sb_mutex_excl [OF parts(1)] B_release by (simp add: server_critical_def)
    then show ?thesis using parts sb_deal_calm [of s t] B_release
      by (simp add: t sb_keeps_def sb_run_inv_split sb_mutex_inv_def server_critical_def sb_wake_inv_def
          sb_blocks_inv_def server_calm_def)
  next
    case B_signal
    have t: "t = (client_cond_signal s)\<lparr>bs_pc := B_release\<rparr>"
      using move B_signal by (simp add: sb_server_step_def)
    have "\<not> client_critical (bc_pc s)"
      using sb_mutex_excl [OF parts(1)] B_signal by (simp add: server_critical_def)
    then show ?thesis using parts sb_deal_calm [of s t] B_signal
      by (cases "bc_pc s = D_asleep") (simp_all add: t client_cond_signal_def sb_stats_inv_def
          client_critical_def sb_keeps_def sb_run_inv_split sb_mutex_inv_def server_critical_def sb_wake_inv_def
          sb_blocks_inv_def server_calm_def)
  qed (use calm move in \<open>simp_all add: server_calm_def sb_server_step_def\<close>)
qed


lemma sb_calm_to_calm:
  assumes "sb_server_step p alloc s = Some t" "sb_live t" "server_calm (bs_pc s)" "bs_pc s \<noteq> B_test"
  shows "server_calm (bs_pc t)"
proof (cases "bs_pc s")
  case B_malloc
  then show ?thesis using assms by (auto simp: sb_server_step_def server_calm_def sb_live_def sb_in_free_def split: if_splits)
next
  case B_loop
  then show ?thesis using assms by (auto simp: sb_server_step_def server_calm_def sb_live_def sb_in_free_def split: if_splits)
next
  case B_lock
  then show ?thesis using assms by (auto simp: sb_server_step_def server_calm_def mutex_lock_def split: if_splits)
next
  case B_reacquire
  then show ?thesis using assms by (auto simp: sb_server_step_def server_calm_def mutex_lock_def split: if_splits)
next
  case B_signal
  then show ?thesis using assms by (auto simp: sb_server_step_def server_calm_def)
next
  case B_release
  then show ?thesis using assms by (auto simp: sb_server_step_def server_calm_def)
qed (use assms in \<open>simp_all add: server_calm_def sb_server_step_def\<close>)

text \<open>The server between taking a request and answering it.\<close>

lemma sb_server_busy_steps:
  assumes inv: "sb_run_inv s" and move: "sb_server_step p alloc s = Some t" and live: "sb_live s" "sb_live t"
    and busy: "\<not> (server_calm (bs_pc s) \<and> server_calm (bs_pc t))"
  shows "sb_keeps s t"
proof -
  have parts: "sb_mutex_inv s" "sb_wake_inv s" "sb_deal s" "sb_blocks_inv s" "sb_stats_inv s"
    using inv by (simp_all add: sb_run_inv_split)
  define m where "m = last (hist_sent s)"
  have M: "\<not> client_out (bc_pc s)" if "\<not> server_calm (bs_pc s) \<or> sb_message_available (sb_ring s)"
    using that parts(3) by (auto simp: sb_deal_def sb_out_def)
  have fin: "sb_keeps s t" if "sb_mutex_inv t" "sb_wake_inv t" "sb_exchange t" "sb_blocks_inv t"
      "\<not> client_out (bc_pc s)" "bc_pc t = bc_pc s" "sb_stats_inv t" "echo_step0 (sb_abs s) (sb_abs t)"
    using that by (simp add: sb_keeps_def sb_run_inv_split sb_deal_def)
  show ?thesis
  proof (cases "bs_pc s")
    case B_test
    have t: "t = s\<lparr>bs_pc := B_read\<rparr>" and M1: "sb_message_available (sb_ring s)"
      using move B_test busy by (auto simp: sb_server_step_def server_calm_def split: if_splits)
    have out: "\<not> client_out (bc_pc s)" using M M1 by blast
    then have e: "sb_exchange s" using parts(3) by (simp add: sb_deal_def)
    have ph: "calm_phase B_read (sb_response_available (sb_ring s)) = Requested"
      using e B_test M1 by (auto simp: sb_exchange_def Let_def calm_phase_def)
    show ?thesis
      by (rule fin) (use t out e parts B_test M1 ph in
        \<open>auto simp: sb_mutex_inv_def server_critical_def sb_wake_inv_def sb_exchange_def Let_def
          sb_blocks_inv_def calm_phase_def sb_abs_def sb_phase_def\<close>)
  next
    case B_read
    have out: "\<not> client_out (bc_pc s)" using M B_read by (simp add: server_calm_def)
    then have e: "sb_exchange s" using parts(3) by (simp add: sb_deal_def)
    have M1: "sb_message_available (sb_ring s)" "\<not> sb_response_available (sb_ring s)"
      and h: "sb_holds (sb_ring s) [m]" and r: "request m"
      using e B_read by (auto simp: sb_exchange_def Let_def calm_phase_def m_def split: if_splits)
    have "length m \<le> unat MAX_MSG_SIZE" "length m \<le> length (bs_buf s)"
      using request_lengths [OF r] parts(4) by (simp_all add: sb_blocks_inv_def MAX_MSG_SIZE_def)
    then obtain rp where rd: "sb_ring_buffer_read (sb_ring s) (bs_buf s) MAX_MSG_SIZE =
        Some (True, rp, m @ drop (length m) (bs_buf s), word_of_nat (length m))"
      and h': "sb_holds rp []" and len: "length m \<le> length (bs_buf s)"
      using sbq.read_ok [OF h] by blast
    obtain x where rp: "rp = (sb_ring s)\<lparr>sb_read_pos := x\<rparr>"
      using rd by (auto simp: sb_ring_buffer_read_def)
    have t: "t = s\<lparr>sb_ring := rp, bs_buf := m @ drop (length m) (bs_buf s), bs_msg_size := word_of_nat (length m),
        bs_pc := B_clear, hist_served := hist_served s @ [m]\<rparr>"
      using B_read move rd request_lengths [OF r] by (simp add: sb_server_step_def)
    have "echo_step0 (sb_abs s) (sb_abs t)"
      using out B_read M1 by (intro echo_step0_intros(2)) (simp_all add: t sb_abs_def sb_phase_def calm_phase_def m_def)
    then show ?thesis
      by (intro fin) (use t rp out e parts B_read M1 h' len in
        \<open>auto simp: sb_mutex_inv_def server_critical_def sb_wake_inv_def sb_exchange_def Let_def
          sb_blocks_inv_def calm_phase_def m_def [symmetric]\<close>)
  next
    case B_clear
    have out: "\<not> client_out (bc_pc s)" using M B_clear by (simp add: server_calm_def)
    then have e: "sb_exchange s" using parts(3) by (simp add: sb_deal_def)
    have t: "t = s\<lparr>sb_ring := (sb_ring s)\<lparr>sb_message_available := False\<rparr>, bs_pc := B_unlock\<rparr>"
      using B_clear move by (simp add: sb_server_step_def)
    show ?thesis
      by (rule fin) (use t out e parts B_clear in
        \<open>auto simp: sb_mutex_inv_def server_critical_def sb_wake_inv_def sb_exchange_def Let_def
          sb_blocks_inv_def calm_phase_def sb_abs_def sb_phase_def\<close>)
  next
    case B_unlock
    have out: "\<not> client_out (bc_pc s)" using M B_unlock by (simp add: server_calm_def)
    then have e: "sb_exchange s" using parts(3) by (simp add: sb_deal_def)
    have t: "t = s\<lparr>sb_ring := (sb_ring s)\<lparr>sb_mutex := None\<rparr>, bs_pc := B_validate\<rparr>"
      using B_unlock move by (simp add: sb_server_step_def mutex_unlock_def)
    have "\<not> client_critical (bc_pc s)"
      using sb_mutex_excl [OF parts(1)] B_unlock by (simp add: server_critical_def)
    then show ?thesis
      by (intro fin) (use t out e parts B_unlock in
        \<open>auto simp: sb_mutex_inv_def server_critical_def sb_wake_inv_def sb_exchange_def Let_def
          sb_blocks_inv_def calm_phase_def sb_abs_def sb_phase_def\<close>)
  next
    case B_validate
    have out: "\<not> client_out (bc_pc s)" using M B_validate by (simp add: server_calm_def)
    then have e: "sb_exchange s" using parts(3) by (simp add: sb_deal_def)
    have "request m" "take (length m) (bs_buf s) = m" "bs_msg_size s = word_of_nat (length m)"
      using B_validate e by (auto simp: sb_exchange_def Let_def calm_phase_def m_def)
    then have t: "t = s\<lparr>bs_pc := B_relock\<rparr>"
      using B_validate move request_validates by (simp add: sb_server_step_def)
    show ?thesis
      by (rule fin) (use t out e parts B_validate in
        \<open>auto simp: sb_mutex_inv_def server_critical_def sb_wake_inv_def sb_exchange_def Let_def
          sb_blocks_inv_def calm_phase_def sb_abs_def sb_phase_def\<close>)
  next
    case B_relock
    have out: "\<not> client_out (bc_pc s)" using M B_relock by (simp add: server_calm_def)
    then have e: "sb_exchange s" using parts(3) by (simp add: sb_deal_def)
    have t: "t = s\<lparr>sb_ring := (sb_ring s)\<lparr>sb_mutex := Some Server\<rparr>, bs_pc := B_write\<rparr>"
      and n: "sb_mutex (sb_ring s) = None"
      using B_relock move by (auto simp: sb_server_step_def mutex_lock_def split: if_splits)
    show ?thesis
      by (rule fin) (use t n out e parts B_relock in
        \<open>auto simp: sb_mutex_inv_def server_critical_def sb_wake_inv_def sb_exchange_def Let_def
          sb_blocks_inv_def calm_phase_def sb_abs_def sb_phase_def\<close>)
  next
    case B_write
    have out: "\<not> client_out (bc_pc s)" using M B_write by (simp add: server_calm_def)
    then have e: "sb_exchange s" using parts(3) by (simp add: sb_deal_def)
    have M1: "\<not> sb_message_available (sb_ring s)" "\<not> sb_response_available (sb_ring s)"
      and h: "sb_holds (sb_ring s) []" and r: "request m" "take (length m) (bs_buf s) = m"
        "bs_msg_size s = word_of_nat (length m)"
      using e B_write by (auto simp: sb_exchange_def Let_def calm_phase_def m_def)
    have sz: "8264 \<le> unat (sb_size (sb_ring s))" and "length m \<le> length (bs_buf s)"
      using request_lengths [OF r(1)] parts(4) by (simp_all add: sb_blocks_inv_def MAX_MSG_SIZE_def)
    then obtain rb where wr: "sb_ring_buffer_write (sb_ring s) (bs_buf s) (bs_msg_size s) = Some (True, rb)"
      and h': "sb_holds rb [m]"
      using sbq.write_ok [OF h, of "bs_msg_size s" "bs_buf s"] sb_room_empty [OF h sz] request_lengths [OF r(1)] r(2)
      by (auto simp: r(3))
    obtain x y where rb: "rb = (sb_ring s)\<lparr>sb_buffer := x, sb_write_pos := y\<rparr>"
      using wr by (auto simp: sb_ring_buffer_write_def)
    have t: "t = s\<lparr>sb_ring := rb, bs_pc := B_respond\<rparr>"
      using B_write move wr by (simp add: sb_server_step_def)
    have "echo_step0 (sb_abs s) (sb_abs t)"
      using out B_write M1 by (intro echo_step0_intros(3)) (simp_all add: t sb_abs_def sb_phase_def calm_phase_def)
    then show ?thesis
      by (intro fin) (use t rb out e parts B_write M1 h' in
        \<open>auto simp: sb_mutex_inv_def server_critical_def sb_wake_inv_def sb_exchange_def Let_def
          sb_blocks_inv_def calm_phase_def m_def [symmetric]\<close>)
  next
    case B_respond
    have out: "\<not> client_out (bc_pc s)" using M B_respond by (simp add: server_calm_def)
    then have e: "sb_exchange s" using parts(3) by (simp add: sb_deal_def)
    have t: "t = s\<lparr>sb_ring := (sb_ring s)\<lparr>sb_response_available := True\<rparr>, bs_pc := B_signal\<rparr>"
      using B_respond move by (simp add: sb_server_step_def)
    show ?thesis
      by (rule fin) (use t out e parts B_respond in
        \<open>auto simp: sb_mutex_inv_def server_critical_def sb_wake_inv_def sb_exchange_def Let_def
          sb_blocks_inv_def calm_phase_def server_calm_def sb_abs_def sb_phase_def\<close>)
  qed (use busy move parts(4) sb_calm_to_calm [OF move live(2)] in
      \<open>simp_all add: server_calm_def sb_server_step_def sb_blocks_inv_def\<close>)
qed


text \<open>The client outside an exchange, and within one.\<close>

lemma sb_deal_out:
  assumes "sb_deal s" "client_out (bc_pc s)" "client_out (bc_pc t)" "bc_pc s \<noteq> D_clear" "bc_pc t \<noteq> D_clear"
    and "bc_pc t \<in> {D_unlock, D_account} \<Longrightarrow> bc_pc s \<in> {D_unlock, D_account}"
    and f: "sb_message_available (sb_ring t) = sb_message_available (sb_ring s)"
      "sb_response_available (sb_ring t) = sb_response_available (sb_ring s)"
      "\<And>ms. sb_holds (sb_ring t) ms = sb_holds (sb_ring s) ms" "bs_pc t = bs_pc s"
      "hist_sent t = hist_sent s" "hist_served t = hist_served s" "hist_rcvd t = hist_rcvd s"
  shows "sb_deal t \<and> sb_abs t = sb_abs s"
  using assms by (auto simp: sb_deal_def sb_out_def sb_abs_def sb_phase_def)

lemma sb_deal_in:
  assumes "sb_deal s" "\<not> client_out (bc_pc s)" "\<not> client_out (bc_pc t)" "bc_pc s \<noteq> D_flag" "bc_pc t \<noteq> D_flag"
    and "bc_pc t = D_read \<Longrightarrow> sb_response_available (sb_ring s)"
    and f: "sb_message_available (sb_ring t) = sb_message_available (sb_ring s)"
      "sb_response_available (sb_ring t) = sb_response_available (sb_ring s)"
      "\<And>ms. sb_holds (sb_ring t) ms = sb_holds (sb_ring s) ms" "bs_buf t = bs_buf s" "bs_msg_size t = bs_msg_size s"
      "hist_sent t = hist_sent s" "hist_served t = hist_served s" "hist_rcvd t = hist_rcvd s"
    and b: "bs_pc t = bs_pc s \<or> bs_pc s = B_asleep \<and> bs_pc t = B_reacquire"
  shows "sb_deal t \<and> sb_abs t = sb_abs s"
proof -
  have "server_calm (bs_pc t) = server_calm (bs_pc s)" "calm_phase (bs_pc t) r = calm_phase (bs_pc s) r"
    "(bs_pc t = B_read) = (bs_pc s = B_read)" "(bs_pc t = B_clear) = (bs_pc s = B_clear)"
    "(bs_pc t = B_respond) = (bs_pc s = B_respond)" for r
    using b by (auto simp: server_calm_def calm_phase_def)
  then show ?thesis
    using assms(1-6) by (auto simp: sb_deal_def sb_exchange_def sb_abs_def sb_phase_def f Let_def)
qed

lemma sb_client_out_steps:
  assumes inv: "sb_run_inv s" and move: "sb_client_move p alloc rnd s = Some t"
    and pc: "bc_pc s \<in> {DI_ready, D_malloc, D_loop, D_build, D_lock, D_unlock, D_account, D_stats}"
  shows "sb_keeps s t"
proof -
  have parts: "sb_mutex_inv s" "sb_wake_inv s" "sb_deal s" "sb_blocks_inv s" "sb_stats_inv s"
    using inv by (simp_all add: sb_run_inv_split)
  have len: "length (bc_buf s) = unat MAX_MSG_SIZE" using parts(4) by (simp add: sb_blocks_inv_def)
  have fin: "sb_keeps s t" if "sb_mutex_inv t" "sb_wake_inv t" "sb_deal t \<and> sb_abs t = sb_abs s" "sb_blocks_inv t" "sb_stats_inv t"
    using that by (simp add: sb_keeps_def sb_run_inv_split)
  note deal = sb_deal_out [OF parts(3), of t]
  show ?thesis
  proof (cases "bc_pc s")
    case DI_ready
    then consider "t = s" | "t = s\<lparr>bc_pc := D_malloc\<rparr>"
      using move by (auto simp: sb_client_move_def sb_client_setup_step_def split: if_splits)
    then show ?thesis
    proof cases
      case 1
      then show ?thesis using parts by (intro fin) simp_all
    next
      case 2
      then show ?thesis
        using DI_ready parts deal by (intro fin) (simp_all add: sb_mutex_inv_def client_critical_def sb_wake_inv_def
            client_out_def sb_blocks_inv_def sb_stats_inv_def)
    qed
  next
    case D_malloc
    obtain buf where buf: "store32 (bc_buf s) off_seq 0 = Some buf"
      using store32_in [of off_seq "bc_buf s" 0] len by (auto simp: MAX_MSG_SIZE_def)
    consider "t = s\<lparr>bc_pc := D_done\<rparr>"
      | "t = s\<lparr>bc_buf := buf, bc_ops := 0, bc_bytes := 0, bc_lat := [],
               bc_end := sb_clock s + sb_us (sbp_client_secs p), bc_pc := D_loop\<rparr>"
      using move D_malloc buf by (auto simp: sb_client_move_def sb_client_step_def split: if_splits)
    then show ?thesis
      by cases (use D_malloc parts deal store_length(1) [OF buf] in
        \<open>intro fin; simp add: sb_mutex_inv_def client_critical_def sb_wake_inv_def
            client_out_def sb_blocks_inv_def sb_stats_inv_def\<close>)+
  next
    case D_loop
    then consider "t = s\<lparr>bc_pc := D_build\<rparr>" | "t = s\<lparr>bc_pc := D_stats\<rparr>"
      using move by (auto simp: sb_client_move_def sb_client_step_def split: if_splits)
    then show ?thesis
      by cases (use D_loop parts deal in
        \<open>intro fin; simp add: sb_mutex_inv_def client_critical_def sb_wake_inv_def
            client_out_def sb_blocks_inv_def sb_stats_inv_def\<close>)+
  next
    case D_build
    obtain buf n where buf: "next_request rnd (sb_clock s) (bc_buf s) = Some buf" "length buf = length (bc_buf s)"
      "load32 buf off_size = Some n" "request (take (unat n) buf)" "unat n < 4132"
      using next_request_effect [OF len] by blast
    then have "t = s\<lparr>bc_buf := buf, bc_pc := D_lock\<rparr>"
      using move D_build by (simp add: sb_client_move_def sb_client_step_def)
    then show ?thesis
      using D_build parts deal buf by (intro fin) (simp_all add: sb_mutex_inv_def client_critical_def sb_wake_inv_def
            client_out_def sb_blocks_inv_def sb_stats_inv_def)
  next
    case D_lock
    then have "t = s\<lparr>sb_ring := (sb_ring s)\<lparr>sb_mutex := Some Client\<rparr>, bc_pc := D_write\<rparr>" "sb_mutex (sb_ring s) = None"
      using move by (auto simp: sb_client_move_def sb_client_step_def mutex_lock_def split: if_splits)
    then show ?thesis
      using D_lock parts deal by (intro fin) (simp_all add: sb_mutex_inv_def client_critical_def sb_wake_inv_def
            client_out_def sb_blocks_inv_def sb_stats_inv_def)
  next
    case D_unlock
    then have "t = s\<lparr>sb_ring := (sb_ring s)\<lparr>sb_mutex := None\<rparr>, bc_pc := D_account\<rparr>"
      using move by (simp add: sb_client_move_def sb_client_step_def mutex_unlock_def)
    moreover have "\<not> server_critical (bs_pc s)"
      using sb_mutex_excl [OF parts(1)] D_unlock by (auto simp: client_critical_def)
    ultimately show ?thesis
      using D_unlock parts deal by (intro fin) (simp_all add: sb_mutex_inv_def client_critical_def sb_wake_inv_def
            client_out_def sb_blocks_inv_def sb_stats_inv_def)
  next
    case D_account
    define m where "m = last (hist_sent s)"
    have m: "request m" and c: "take (length m) (bc_buf s) = m" "bc_msg_size s = word_of_nat (length m)"
      using D_account parts(3,4) by (simp_all add: sb_deal_def sb_out_def client_out_def sb_blocks_inv_def m_def)
    obtain ts where "load64 (bc_buf s) off_timestamp = Some ts"
      using len by (auto simp: load64_def mem_read_def MAX_MSG_SIZE_def)
    then have t: "t = s\<lparr>bc_lat := if length (bc_lat s) < MAX_LATENCIES
        then bc_lat s @ [sb_clock s - ts] else bc_lat s,
        bc_ops := bc_ops s + 1, bc_bytes := bc_bytes s + bc_msg_size s, bc_pc := D_loop\<rparr>"
      using move D_account request_validates [OF m c(1)]
      by (simp add: sb_client_move_def sb_client_step_def c(2))
    have r: "hist_rcvd s \<noteq> []" "last (hist_rcvd s) = m"
      using D_account parts(5) by (simp_all add: sb_stats_inv_def Let_def m_def)
    have "length (hist_rcvd s) = Suc (length (butlast (hist_rcvd s)))" using r(1) by simp
    then have "sb_stats_inv t"
      using D_account parts(5) sum_list_snoc [OF r(1), of length]
      by (auto simp: t sb_stats_inv_def Let_def c(2) r(2) butlast_conv_take)
    then show ?thesis
      using D_account parts(1-4) deal by (intro fin) (simp_all add: t sb_mutex_inv_def client_critical_def sb_wake_inv_def
            client_out_def sb_blocks_inv_def)
  next
    case D_stats
    have "length (bc_lat s) \<le> MAX_LATENCIES" using parts(5) by (simp add: sb_stats_inv_def Let_def)
    then obtain rep where "run_report (sbp_cpu p) (sbp_client_secs p) (bc_lat s) (bc_ops s) (bc_bytes s) = Some rep"
      by (rule run_report_total)
    then have "t = s\<lparr>bc_report := Some rep, bc_pc := D_done\<rparr>"
      using move D_stats by (simp add: sb_client_move_def sb_client_step_def)
    then show ?thesis
      using D_stats parts deal by (intro fin) (simp_all add: sb_mutex_inv_def client_critical_def sb_wake_inv_def
            client_out_def sb_blocks_inv_def sb_stats_inv_def)
  qed (use pc in simp_all)
qed


lemma sb_client_in_steps:
  assumes inv: "sb_run_inv s" and move: "sb_client_move p alloc rnd s = Some t"
    and pc: "bc_pc s \<in> {D_write, D_flag, D_signal, D_check, D_test, D_reacquire, D_read, D_clear}"
  shows "sb_keeps s t"
proof -
  have parts: "sb_mutex_inv s" "sb_wake_inv s" "sb_deal s" "sb_blocks_inv s" "sb_stats_inv s"
    using inv by (simp_all add: sb_run_inv_split)
  have len: "length (bc_buf s) = unat MAX_MSG_SIZE" using parts(4) by (simp add: sb_blocks_inv_def)
  have step: "sb_client_step p alloc rnd s = Some t"
    using move pc by (auto simp: sb_client_move_def)
  have fin: "sb_keeps s t" if "sb_mutex_inv t" "sb_wake_inv t" "sb_deal t" "sb_blocks_inv t" "sb_stats_inv t"
      "echo_step0 (sb_abs s) (sb_abs t)"
    using that by (simp add: sb_keeps_def sb_run_inv_split)
  note deal = sb_deal_in [OF parts(3), of t]
  define m where "m = last (hist_sent s)"
  show ?thesis
  proof (cases "bc_pc s")
    case D_write
    obtain n where n: "load32 (bc_buf s) off_size = Some n" "unat n < 4132" "request (take (unat n) (bc_buf s))"
      using parts(4) D_write by (auto simp: sb_blocks_inv_def)
    have o: "sb_out s" using parts(3) D_write by (simp add: sb_deal_def client_out_def)
    then have h: "sb_holds (sb_ring s) []" and sz: "8264 \<le> unat (sb_size (sb_ring s))"
      using parts(4) by (simp_all add: sb_out_def sb_blocks_inv_def)
    have "unat (ucast n :: u64) \<le> length (bc_buf s)" using n len by (simp add: MAX_MSG_SIZE_def)
    then obtain rb where wr: "sb_ring_buffer_write (sb_ring s) (bc_buf s) (ucast n) = Some (True, rb)"
      and h': "sb_holds rb [take (unat n) (bc_buf s)]"
      using sbq.write_ok [OF h, of "ucast n" "bc_buf s"] sb_room_empty [OF h sz] n(2) by auto
    obtain x y where rb: "rb = (sb_ring s)\<lparr>sb_buffer := x, sb_write_pos := y\<rparr>"
      using wr by (auto simp: sb_ring_buffer_write_def)
    have t: "t = s\<lparr>sb_ring := rb, bc_pc := D_flag, hist_sent := hist_sent s @ [take (unat n) (bc_buf s)]\<rparr>"
      using step D_write n(1) wr by (simp add: sb_client_step_def)
    have "sb_deal t"
      using o D_write n(3) h'
      by (auto simp: t rb sb_deal_def client_out_def sb_out_def sb_exchange_def calm_phase_calm server_calm_def Let_def)
    moreover have "echo_step0 (sb_abs s) (sb_abs t)"
      using o D_write
      by (intro echo_step0_intros(1)) (simp_all add: t rb sb_abs_def sb_phase_def client_out_def sb_out_def calm_phase_calm)
    ultimately show ?thesis
      using D_write parts n(3)
      by (intro fin) (auto simp: t rb sb_mutex_inv_def client_critical_def sb_wake_inv_def sb_blocks_inv_def sb_stats_inv_def)
  next
    case D_flag
    have t: "t = s\<lparr>sb_ring := (sb_ring s)\<lparr>sb_message_available := True\<rparr>, bc_pc := D_signal\<rparr>"
      using step D_flag by (simp add: sb_client_step_def)
    have "sb_deal t"
      using D_flag parts(3)
      by (auto simp: t sb_deal_def client_out_def sb_exchange_def Let_def calm_phase_def)
    moreover have "\<not> server_critical (bs_pc s)"
      using sb_mutex_excl [OF parts(1)] D_flag by (auto simp: client_critical_def)
    moreover have "sb_abs t = sb_abs s"
      using D_flag by (simp add: t sb_abs_def sb_phase_def client_out_def)
    ultimately show ?thesis
      using D_flag parts
      by (intro fin) (simp_all add: t sb_mutex_inv_def client_critical_def sb_wake_inv_def sb_blocks_inv_def sb_stats_inv_def)
  next
    case D_signal
    have t: "t = (server_cond_signal s)\<lparr>bc_pc := D_check\<rparr>"
      using step D_signal by (simp add: sb_client_step_def)
    then have "sb_deal t \<and> sb_abs t = sb_abs s"
      using D_signal by (intro deal) (auto simp: client_out_def server_cond_signal_def)
    then show ?thesis
      using D_signal parts
      by (cases "bs_pc s = B_asleep"; intro fin) (simp_all add: t server_cond_signal_def sb_mutex_inv_def server_critical_def
          client_critical_def sb_wake_inv_def sb_blocks_inv_def sb_stats_inv_def)
  next
    case D_check
    have t: "t = s\<lparr>bc_pc := D_test\<rparr>"
      using step D_check parts(4) by (simp add: sb_client_step_def sb_blocks_inv_def)
    then have "sb_deal t \<and> sb_abs t = sb_abs s"
      using D_check by (intro deal) (auto simp: client_out_def)
    moreover have "\<not> server_critical (bs_pc s)"
      using sb_mutex_excl [OF parts(1)] D_check by (auto simp: client_critical_def)
    ultimately show ?thesis
      using D_check parts
      by (intro fin) (simp_all add: t sb_mutex_inv_def client_critical_def sb_wake_inv_def sb_blocks_inv_def sb_stats_inv_def)
  next
    case D_test
    have ex: "\<not> server_critical (bs_pc s)"
      using sb_mutex_excl [OF parts(1)] D_test by (auto simp: client_critical_def)
    consider "sb_response_available (sb_ring s)" "t = s\<lparr>bc_pc := D_read\<rparr>"
      | "\<not> sb_response_available (sb_ring s)" "t = s\<lparr>sb_ring := (sb_ring s)\<lparr>sb_mutex := None\<rparr>, bc_pc := D_asleep\<rparr>"
      using step D_test by (auto simp: sb_client_step_def mutex_unlock_def split: if_splits)
    then show ?thesis
    proof cases
      case 1
      then have "sb_deal t \<and> sb_abs t = sb_abs s"
        using D_test by (intro deal) (auto simp: client_out_def)
      then show ?thesis
        using D_test parts ex
        by (intro fin) (simp_all add: 1 sb_mutex_inv_def client_critical_def sb_wake_inv_def sb_blocks_inv_def sb_stats_inv_def)
    next
      case 2
      then have "sb_deal t \<and> sb_abs t = sb_abs s"
        using D_test by (intro deal) (auto simp: client_out_def)
      then show ?thesis
        using D_test parts ex 2
        by (intro fin) (simp_all add: sb_mutex_inv_def client_critical_def sb_wake_inv_def sb_blocks_inv_def sb_stats_inv_def)
    qed
  next
    case D_reacquire
    have t: "t = s\<lparr>sb_ring := (sb_ring s)\<lparr>sb_mutex := Some Client\<rparr>, bc_pc := D_test\<rparr>" and n: "sb_mutex (sb_ring s) = None"
      using step D_reacquire by (auto simp: sb_client_step_def mutex_lock_def split: if_splits)
    then have "sb_deal t \<and> sb_abs t = sb_abs s"
      using D_reacquire by (intro deal) (auto simp: client_out_def)
    then show ?thesis
      using D_reacquire parts n
      by (intro fin) (simp_all add: t sb_mutex_inv_def client_critical_def sb_wake_inv_def sb_blocks_inv_def sb_stats_inv_def)
  next
    case D_read
    have e: "sb_exchange s" using parts(3) D_read by (simp add: sb_deal_def client_out_def)
    then have R: "sb_response_available (sb_ring s)" "\<not> sb_message_available (sb_ring s)"
      and h: "sb_holds (sb_ring s) [m]" and r: "request m" and sc: "server_calm (bs_pc s)"
      using D_read by (auto simp: sb_exchange_def Let_def calm_phase_def m_def split: if_splits)
    have "length m \<le> unat MAX_MSG_SIZE" "length m \<le> length (bc_buf s)"
      using request_lengths [OF r] len by (simp_all add: MAX_MSG_SIZE_def)
    then obtain rb where rd: "sb_ring_buffer_read (sb_ring s) (bc_buf s) MAX_MSG_SIZE =
        Some (True, rb, m @ drop (length m) (bc_buf s), word_of_nat (length m))"
      and h': "sb_holds rb []" and lm: "length m \<le> length (bc_buf s)"
      using sbq.read_ok [OF h] by blast
    obtain x where rb: "rb = (sb_ring s)\<lparr>sb_read_pos := x\<rparr>"
      using rd by (auto simp: sb_ring_buffer_read_def)
    have t: "t = s\<lparr>sb_ring := rb, bc_buf := m @ drop (length m) (bc_buf s), bc_msg_size := word_of_nat (length m),
        bc_pc := D_clear, hist_rcvd := hist_rcvd s @ [m]\<rparr>"
      using step D_read rd request_lengths [OF r] by (simp add: sb_client_step_def)
    have "sb_deal t"
      using R sc h' r by (simp add: t rb sb_deal_def client_out_def sb_out_def m_def [symmetric])
    moreover have "echo_step0 (sb_abs s) (sb_abs t)"
      using D_read R sc
      by (intro echo_step0_intros(4)) (simp_all add: t rb sb_abs_def sb_phase_def client_out_def calm_phase_calm m_def)
    ultimately show ?thesis
      using D_read parts lm
      by (intro fin) (auto simp: t rb sb_mutex_inv_def client_critical_def sb_wake_inv_def sb_blocks_inv_def
          sb_stats_inv_def m_def [symmetric])
  next
    case D_clear
    have t: "t = s\<lparr>sb_ring := (sb_ring s)\<lparr>sb_response_available := False\<rparr>, bc_pc := D_unlock\<rparr>"
      using step D_clear by (simp add: sb_client_step_def)
    have "sb_deal t \<and> sb_abs t = sb_abs s"
      using D_clear parts(3) by (simp add: t sb_deal_def client_out_def sb_out_def sb_abs_def sb_phase_def)
    moreover have "\<not> server_critical (bs_pc s)"
      using sb_mutex_excl [OF parts(1)] D_clear by (auto simp: client_critical_def)
    ultimately show ?thesis
      using D_clear parts
      by (intro fin) (simp_all add: t sb_mutex_inv_def client_critical_def sb_wake_inv_def sb_blocks_inv_def sb_stats_inv_def)
  qed (use pc in simp_all)
qed


lemma sb_spurious:
  assumes inv: "sb_run_inv s"
  shows "bs_pc s = B_asleep \<Longrightarrow> sb_keeps s (s\<lparr>bs_pc := B_reacquire\<rparr>)"
    and "bc_pc s = D_asleep \<Longrightarrow> sb_keeps s (s\<lparr>bc_pc := D_reacquire\<rparr>)"
    and "sb_keeps s (s\<lparr>sb_clock := now\<rparr>)"
proof -
  have parts: "sb_mutex_inv s" "sb_wake_inv s" "sb_deal s" "sb_blocks_inv s" "sb_stats_inv s"
    using inv by (simp_all add: sb_run_inv_split)
  show "sb_keeps s (s\<lparr>bs_pc := B_reacquire\<rparr>)" if "bs_pc s = B_asleep"
    using that parts sb_deal_calm [OF parts(3), of "s\<lparr>bs_pc := B_reacquire\<rparr>"]
    by (simp add: sb_keeps_def sb_run_inv_split sb_mutex_inv_def server_critical_def sb_wake_inv_def
        sb_blocks_inv_def server_calm_def)
  show "sb_keeps s (s\<lparr>bc_pc := D_reacquire\<rparr>)" if "bc_pc s = D_asleep"
    using that parts sb_deal_in [OF parts(3), of "s\<lparr>bc_pc := D_reacquire\<rparr>"]
    by (simp add: sb_keeps_def sb_run_inv_split sb_mutex_inv_def client_critical_def sb_wake_inv_def
        sb_blocks_inv_def sb_stats_inv_def client_out_def)
  have "sb_deal (s\<lparr>sb_clock := now\<rparr>) = sb_deal s"
    by (simp add: sb_deal_def sb_out_def sb_exchange_def)
  then show "sb_keeps s (s\<lparr>sb_clock := now\<rparr>)"
    using parts
    by (simp add: sb_keeps_def sb_run_inv_split sb_mutex_inv_def sb_wake_inv_def sb_blocks_inv_def sb_abs_def sb_phase_def)
qed

lemma sb_client_server_pc:
  "sb_client_move p alloc rnd s = Some t \<Longrightarrow> bs_pc t = bs_pc s \<or> bs_pc s = B_asleep \<and> bs_pc t = B_reacquire"
  by (cases "bc_pc s")
    (auto simp: sb_client_move_def sb_client_step_def sb_client_setup_step_def mutex_lock_def server_cond_signal_def Let_def
      split: if_splits option.splits bind_splits bool.splits)

lemma sb_run_step:
  assumes inv: "sb_run_inv s" and ns: "\<not> sb_in_setup (bs_pc s)" and step: "sb_step p s t" and live: "sb_live s" "sb_live t"
  shows "sb_keeps s t \<and> \<not> sb_in_setup (bs_pc t)"
  using step
proof cases
  case (sb_server alloc)
  then have move: "sb_server_step p alloc s = Some t"
    using ns live(1) by (simp add: sb_server_move_def sb_live_def)
  have "sb_keeps s t"
    using sb_server_calm_steps [OF inv move live] sb_server_busy_steps [OF inv move live] by blast
  moreover have "\<not> sb_in_setup (bs_pc t)"
    using move by (cases "bs_pc s") (auto simp: sb_server_step_def sb_in_setup_def mutex_lock_def client_cond_signal_def
        Let_def split: if_splits option.splits)
  ultimately show ?thesis by simp
next
  case (sb_client rnd alloc)
  have "sb_keeps s t"
  proof (cases "bc_pc s \<in> {D_write, D_flag, D_signal, D_check, D_test, D_reacquire, D_read, D_clear}")
    case True
    then show ?thesis using sb_client_in_steps [OF inv] sb_client by blast
  next
    case False
    have "bc_pc s \<notin> {D_asleep, D_done, D_crash, D_abandon}"
      using inv sb_client(2) by (auto simp: sb_run_inv_split sb_blocks_inv_def sb_client_move_def sb_client_step_def)
    then have "bc_pc s \<in> {DI_ready, D_malloc, D_loop, D_build, D_lock, D_unlock, D_account, D_stats}"
      using False by (cases "bc_pc s") auto
    then show ?thesis using sb_client_out_steps [OF inv] sb_client by blast
  qed
  moreover have "bs_pc t = bs_pc s \<or> bs_pc t = B_reacquire"
    using sb_client_server_pc [OF sb_client(2)] by blast
  ultimately show ?thesis using ns by (auto simp: sb_in_setup_def)
qed (use sb_spurious [OF inv] ns in \<open>simp_all add: sb_in_setup_def\<close>)

lemma sb_step_inv:
  assumes inv: "sb_inv p s" and sz: "sb_size_ok p" and step: "sb_step p s t" and live: "sb_live s" "sb_live t"
  shows "sb_inv p t \<and> echo_step0 (sb_abs s) (sb_abs t)"
proof (cases "sb_in_setup (bs_pc s)")
  case False
  then show ?thesis
    using sb_run_step [OF _ False step live] inv by (simp add: sb_inv_def sb_keeps_def)
next
  case True
  then have i: "sb_setup_inv p s" using inv by (simp add: sb_inv_def)
  show ?thesis
    using step
  proof cases
    case (sb_server alloc)
    then have "t = s\<lparr>sb_ring := fst (sb_setup_step p (bs_pc s) (sb_ring s)), bs_pc := snd (sb_setup_step p (bs_pc s) (sb_ring s))\<rparr>"
      using True by (simp add: sb_server_move_def split_def Let_def)
    then show ?thesis using sb_setup_keeps [OF i True sz] by simp
  next
    case (sb_client rnd alloc)
    then have "t = s"
      using i by (simp add: sb_setup_inv_def sb_client_move_def sb_client_setup_step_def sb_zero_def)
    then show ?thesis using inv by simp
  next
    case (sb_tick now)
    then show ?thesis
      using i True by (simp add: sb_inv_def sb_setup_inv_def sb_abs_def sb_phase_def)
  qed (use i True in \<open>simp_all add: sb_in_setup_def sb_setup_inv_def\<close>)
qed

lemma sb_free_step:
  assumes "sb_step p s t" "sb_in_free (bs_pc s) \<or> bs_pc s = B_done"
  shows "sb_in_free (bs_pc t) \<or> bs_pc t = B_done"
  using assms(1)
proof cases
  case (sb_server alloc)
  have "\<not> sb_in_setup (bs_pc s)" using assms(2) by (auto simp: sb_in_setup_def sb_in_free_def)
  then show ?thesis
    using sb_server assms(2)
    by (auto simp: sb_server_move_def sb_in_free_def sb_free_server_step_def sb_server_step_def mutex_lock_def
        server_cond_signal_def client_cond_signal_def split: if_splits)
next
  case (sb_client rnd alloc)
  then have "bs_pc t = bs_pc s \<or> bs_pc s = B_asleep"
    using sb_client_server_pc by blast
  then show ?thesis using assms(2) by (auto simp: sb_in_free_def)
qed (use assms(2) in \<open>auto simp: sb_in_free_def\<close>)

interpretation sb: echo_implementation "sb_step p" "\<lambda>s. sb_boot p s \<and> sb_size_ok p"
  "\<lambda>s. sb_live s \<and> sb_size_ok p" "sb_inv p" sb_abs
proof unfold_locales
  fix s assume b: "sb_boot p s \<and> sb_size_ok p"
  then show "sb_inv p s"
    by (simp add: sb_boot_def sb_inv_def sb_in_setup_def sb_setup_inv_def sb_zero_def)
  show "sb_abs s = echo_init"
    using b by (simp add: sb_boot_def sb_abs_def sb_phase_def client_out_def echo_init_def)
next
  fix s t
  show "sb_step p s t \<Longrightarrow> sb_live t \<and> sb_size_ok p \<Longrightarrow> sb_live s \<and> sb_size_ok p"
    using sb_free_step by (auto simp: sb_live_def)
qed (use sb_step_inv in blast)+


subsection \<open>What the invariant gives\<close>

text \<open>While the client has not finished, one of the two processes can move: nobody waits for a mutex whose
  holder waits, and the two never sleep on their conditions together.\<close>

lemma sb_server_moves:
  assumes "sb_run_inv s" "sb_live s" "\<not> sb_in_setup (bs_pc s)" "bs_pc s \<noteq> B_asleep"
    and "bs_pc s \<in> {B_lock, B_reacquire, B_relock} \<Longrightarrow> sb_mutex (sb_ring s) = None"
  shows "sb_server_move p True s \<noteq> None"
proof -
  have "sb_server_move p True s = sb_server_step p True s"
    using assms(2,3) by (simp add: sb_server_move_def sb_live_def)
  moreover have "bs_pc s \<notin> {BF_lock, BF_ready, BF_response, BF_server, BF_client, BF_unlock, BF_unmap, B_done, B_crash}"
    using assms(1,2) by (auto simp: sb_live_def sb_in_free_def sb_run_inv_split sb_blocks_inv_def)
  ultimately show ?thesis
    using assms(3-5) by (cases "bs_pc s") (auto simp: sb_server_step_def sb_in_setup_def mutex_lock_def Let_def
        split: option.splits)
qed

lemma sb_client_moves:
  assumes "sb_run_inv s" "bc_pc s \<noteq> D_asleep" "bc_pc s \<noteq> D_done"
    and "bc_pc s \<in> {D_lock, D_reacquire} \<Longrightarrow> sb_mutex (sb_ring s) = None"
  shows "sb_client_move p True 0 s \<noteq> None"
proof -
  have "bc_pc s \<noteq> D_crash"
    using assms(1) by (simp add: sb_run_inv_split sb_blocks_inv_def)
  then show ?thesis
    using assms(2-4) by (cases "bc_pc s")
      (auto simp: sb_client_move_def sb_client_step_def sb_client_setup_step_def mutex_lock_def Let_def
        split: option.splits bind_splits bool.splits)
qed

lemma sb_not_both_asleep:
  assumes "sb_run_inv s" "bs_pc s = B_asleep"
  shows "bc_pc s \<noteq> D_asleep"
proof
  assume d: "bc_pc s = D_asleep"
  then have e: "sb_exchange s" and w: "sb_wake_inv s"
    using assms(1) by (simp_all add: sb_run_inv_split sb_deal_def client_out_def)
  show False
    using e w d assms(2) by (cases "sb_response_available (sb_ring s)")
      (simp_all add: sb_exchange_def sb_wake_inv_def calm_phase_def Let_def)
qed

lemma sb_can_move:
  assumes inv: "sb_run_inv s" and live: "sb_live s" "\<not> sb_in_setup (bs_pc s)" and nd: "bc_pc s \<noteq> D_done"
  shows "sb_server_move p True s \<noteq> None \<or> sb_client_move p True 0 s \<noteq> None"
proof (cases "sb_mutex (sb_ring s)")
  case None
  then show ?thesis
    using sb_server_moves [OF inv live] sb_client_moves [OF inv _ nd] sb_not_both_asleep [OF inv] by blast
next
  case (Some w)
  have mi: "sb_mutex_inv s" using inv by (simp add: sb_run_inv_split)
  show ?thesis
  proof (cases w)
    case Server
    then have "server_critical (bs_pc s)" using mi Some by (simp add: sb_mutex_inv_def)
    then show ?thesis
      using sb_server_moves [OF inv live] by (auto simp: server_critical_def)
  next
    case Client
    then have "client_critical (bc_pc s)" using mi Some by (simp add: sb_mutex_inv_def)
    then show ?thesis
      using sb_client_moves [OF inv _ nd] by (auto simp: client_critical_def)
  qed
qed

lemma sb_inv_valid:
  assumes "sb_run_inv s"
  shows "bs_pc s = B_validate \<Longrightarrow> validate_message (bs_buf s) (bs_msg_size s) = Some True"
    and "bc_pc s = D_account \<Longrightarrow> validate_message (bc_buf s) (bc_msg_size s) = Some True"
proof -
  have d: "sb_deal s" and b: "sb_blocks_inv s" using assms by (simp_all add: sb_run_inv_split)
  show "validate_message (bc_buf s) (bc_msg_size s) = Some True" if "bc_pc s = D_account"
    using that d b request_validates [of "last (hist_sent s)" "bc_buf s"]
    by (simp add: sb_deal_def client_out_def sb_out_def sb_blocks_inv_def)
  assume pc: "bs_pc s = B_validate"
  then have "sb_exchange s" using d by (auto simp: sb_deal_def sb_out_def server_calm_def split: if_splits)
  then show "validate_message (bs_buf s) (bs_msg_size s) = Some True"
    using pc request_validates [of "last (hist_sent s)" "bs_buf s"]
    by (simp add: sb_exchange_def Let_def calm_phase_def)
qed

subsection \<open>Mutual exclusion\<close>

text \<open>A move that neither reads nor writes the ring struct, but for the mutex: with any other contents it does
  the same, and leaves those contents as they are.\<close>

definition ignores_ring :: "(sb_state \<Rightarrow> sb_state option) \<Rightarrow> sb_state \<Rightarrow> BlockingRingBuffer \<Rightarrow> bool" where
  "ignores_ring move s rb \<longleftrightarrow>
     move (s\<lparr>sb_ring := rb\<rparr>) = map_option (\<lambda>t. t\<lparr>sb_ring := rb\<lparr>sb_mutex := sb_mutex (sb_ring t)\<rparr>\<rparr>) (move s)"

text \<open>A move of \<open>who\<close> takes the mutex only when it is free and releases only its own.\<close>

definition keeps_mutex :: "owner \<Rightarrow> (sb_state \<Rightarrow> sb_state option) \<Rightarrow> sb_state \<Rightarrow> bool" where
  "keeps_mutex who move s \<longleftrightarrow> (case move s of None \<Rightarrow> True | Some t \<Rightarrow>
     sb_mutex (sb_ring t) = sb_mutex (sb_ring s) \<or>
     sb_mutex (sb_ring s) = None \<and> sb_mutex (sb_ring t) = Some who \<or>
     sb_mutex (sb_ring s) = Some who \<and> sb_mutex (sb_ring t) = None)"

lemma same_mutex: "sb_mutex rb = m \<Longrightarrow> rb\<lparr>sb_mutex := m\<rparr> = rb"
  by (cases rb) simp

lemma sb_server_ignores:
  assumes "\<not> server_critical (bs_pc s)" "\<not> sb_in_setup (bs_pc s)" "sb_live s" "sb_mutex rb = sb_mutex (sb_ring s)"
  shows "ignores_ring (sb_server_move p alloc) s rb"
proof -
  have "sb_server_move p alloc (s\<lparr>sb_ring := r\<rparr>) = sb_server_step p alloc (s\<lparr>sb_ring := r\<rparr>)" for r
    using assms(2,3) by (simp add: sb_server_move_def sb_live_def)
  moreover have "sb_server_move p alloc s = sb_server_step p alloc s"
    using assms(2,3) by (simp add: sb_server_move_def sb_live_def)
  ultimately show ?thesis
    using assms by (cases "bs_pc s") (simp_all add: ignores_ring_def sb_server_step_def same_mutex mutex_lock_def
        server_critical_def sb_live_def sb_in_setup_def sb_in_free_def split: option.splits)
qed

lemma sb_client_ignores:
  assumes "\<not> client_critical (bc_pc s)" "sb_mutex rb = sb_mutex (sb_ring s)"
    and "bc_pc s = DI_ready \<Longrightarrow> sb_ready rb = sb_ready (sb_ring s)"
  shows "ignores_ring (sb_client_move p alloc rnd) s rb"
  using assms
  by (cases "bc_pc s") (simp_all add: ignores_ring_def sb_client_move_def sb_client_setup_step_def sb_client_step_def same_mutex mutex_lock_def
        client_critical_def split: option.splits bool.splits)

lemma sb_write_mutex: "sb_ring_buffer_write rb data len = Some (ok, rb') \<Longrightarrow> sb_mutex rb' = sb_mutex rb"
  by (auto simp: sb_ring_buffer_write_def Option.bind_eq_Some_conv)

lemma sb_read_mutex: "sb_ring_buffer_read rb data len = Some (ok, rb', buf, n) \<Longrightarrow> sb_mutex rb' = sb_mutex rb"
  by (auto simp: sb_ring_buffer_read_def Option.bind_eq_Some_conv)

lemma sb_server_keeps_mutex:
  assumes "sb_mutex_inv s" "\<not> sb_in_setup (bs_pc s)" "sb_live s"
  shows "keeps_mutex Server (sb_server_move p alloc) s"
proof -
  have "sb_server_move p alloc s = sb_server_step p alloc s"
    using assms(2,3) by (simp add: sb_server_move_def sb_live_def)
  then show ?thesis
    using assms by (cases "bs_pc s") (auto simp: keeps_mutex_def sb_server_step_def mutex_lock_def mutex_unlock_def sb_mutex_inv_def
        server_critical_def client_cond_signal_def Let_def dest!: sb_write_mutex sb_read_mutex split: option.splits)
qed

lemma sb_client_keeps_mutex:
  assumes "sb_mutex_inv s"
  shows "keeps_mutex Client (sb_client_move p alloc rnd) s"
  using assms
  by (cases "bc_pc s") (auto simp: keeps_mutex_def sb_client_move_def sb_client_setup_step_def sb_client_step_def mutex_lock_def mutex_unlock_def sb_mutex_inv_def
        client_critical_def server_cond_signal_def Let_def Option.bind_eq_Some_conv dest!: sb_write_mutex sb_read_mutex split: option.splits bool.splits)

subsection \<open>Properties\<close>

text \<open>C14: from the server's first store until it leaves its loop the mutex backend implements the echo
  protocol: while the server runs, the answers received are, byte for byte and in order, the requests
  sent, the server took them in that order, and at most one is outstanding.\<close>

theorem shm_echo:
  assumes "reach (sb_step p) s0 s" "sb_boot p s0" "sb_size_ok p" "sb_live s"
  shows "reach echo_step echo_init (sb_abs s) \<and>
    prefix (hist_rcvd s) (hist_served s) \<and> prefix (hist_served s) (hist_sent s) \<and>
    length (hist_sent s) \<le> Suc (length (hist_rcvd s))"
proof -
  have "echo_inv (sb_abs s)" using sb.reach_inv [of p s0 s] assms by blast
  then have "prefix (hist_rcvd s) (hist_served s) \<and> prefix (hist_served s) (hist_sent s) \<and>
      length (hist_sent s) \<le> Suc (length (hist_rcvd s))"
    using echo_inv_prefix by (fastforce simp: sb_abs_def)
  then show ?thesis using sb.reach_abs [of p s0 s] assms by blast
qed

text \<open>C15: no deadlock. From the server's first store until it leaves its loop, and until the client has
  finished, one of the two processes can always move: no wait
  for a mutex whose holder sleeps, no lost condition signal.\<close>

theorem shm_no_deadlock:
  assumes "reach (sb_step p) s0 s" "sb_boot p s0" "sb_size_ok p" "sb_live s" "bc_pc s \<noteq> D_done"
  shows "sb_server_move p True s \<noteq> None \<or> sb_client_move p True 0 s \<noteq> None"
proof -
  have i: "sb_inv p s" using sb.reach_inv [of p s0 s] assms by blast
  show ?thesis
  proof (cases "sb_in_setup (bs_pc s)")
    case True
    then show ?thesis by (simp add: sb_server_move_def split_def Let_def)
  next
    case False
    then show ?thesis using sb_can_move i assms(4,5) by (simp add: sb_inv_def)
  qed
qed

text \<open>C16: mutual exclusion. After the server's set-up and while the server runs, a process that does not hold
  the mutex neither reads nor writes the ring, its positions, its size or the flags: its next move is the
  same, and leaves them alone, whatever they contain, the client's polling of \<open>ready\<close> during its
  set-up excepted. And the mutex passes from free to the process that moves and from its holder to
  free only, so that no two processes hold it.\<close>

theorem shm_mutual_exclusion:
  assumes "reach (sb_step p) s0 s" "sb_boot p s0" "sb_size_ok p" "sb_live s" "\<not> sb_in_setup (bs_pc s)"
    and "sb_mutex rb = sb_mutex (sb_ring s)" "bc_pc s = DI_ready \<Longrightarrow> sb_ready rb = sb_ready (sb_ring s)"
  shows "(sb_mutex (sb_ring s) \<noteq> Some Server \<longrightarrow> ignores_ring (sb_server_move p alloc) s rb) \<and>
    (sb_mutex (sb_ring s) \<noteq> Some Client \<longrightarrow> ignores_ring (sb_client_move p alloc rnd) s rb) \<and>
    keeps_mutex Server (sb_server_move p alloc) s \<and> keeps_mutex Client (sb_client_move p alloc rnd) s"
proof -
  have "sb_inv p s" using sb.reach_inv [of p s0 s] assms(1-4) by blast
  then have m: "sb_mutex_inv s" using assms(5) by (simp add: sb_inv_def sb_run_inv_split)
  then show ?thesis
    using sb_server_ignores [OF _ assms(5,4,6), of p alloc] sb_client_ignores [OF _ assms(6,7), of p alloc rnd]
      sb_server_keeps_mutex [OF m assms(5,4)] sb_client_keeps_mutex [OF m] by (simp add: sb_mutex_inv_def)
qed

text \<open>C17: safety. No access leaves its block, no validation and no ring operation fails while the server
  runs, so that neither the \<open>continue\<close> of the server nor a \<open>break\<close> of the client is taken, and between
  exchanges the statistics count the answers received.\<close>

theorem shm_no_corruption:
  assumes "reach (sb_step p) s0 s" "sb_boot p s0" "sb_size_ok p" "sb_live s" "\<not> sb_in_setup (bs_pc s)"
  shows "bs_pc s \<notin> {B_crash, B_read_failed} \<and> bc_pc s \<notin> {D_crash, D_abandon} \<and>
    (bs_pc s = B_validate \<longrightarrow> validate_message (bs_buf s) (bs_msg_size s) = Some True) \<and>
    (bc_pc s = D_account \<longrightarrow> validate_message (bc_buf s) (bc_msg_size s) = Some True) \<and>
    (bc_pc s = D_loop \<longrightarrow> bc_ops s = word_of_nat (length (hist_rcvd s)) \<and>
       bc_bytes s = word_of_nat (sum_list (map length (hist_rcvd s))))"
proof -
  have "sb_inv p s" using sb.reach_inv [of p s0 s] assms by blast
  then have i: "sb_run_inv s" using assms(5) by (simp add: sb_inv_def)
  have "bc_pc s = D_loop \<Longrightarrow> bc_ops s = word_of_nat (length (hist_rcvd s)) \<and>
       bc_bytes s = word_of_nat (sum_list (map length (hist_rcvd s)))"
    using i by (simp add: sb_run_inv_split sb_stats_inv_def)
  then show ?thesis
    using sb_inv_valid [OF i] i by (simp add: sb_run_inv_split sb_blocks_inv_def)
qed


subsection \<open>Instances\<close>

text \<open>The benchmark's parameters, and a run up to the client's first request in the ring.\<close>

definition sb_params0 :: sb_params where
  "sb_params0 = \<lparr>sbp_size = BUFFER_SIZE, sbp_server_secs = RUN_DURATION, sbp_client_secs = RUN_DURATION, sbp_cpu = (0, 0)\<rparr>"

definition sb_boot0 :: sb_state where
  "sb_boot0 = \<lparr>sb_ring = sb_zero (unat BUFFER_SIZE), sb_clock = 1, bs_pc = BI_sync, bs_end = 0,
     bs_buf = replicate (unat MAX_MSG_SIZE) 0, bs_msg_size = 0, bc_pc = DI_ready, bc_end = 0,
     bc_buf = replicate (unat MAX_MSG_SIZE) 0, bc_msg_size = 0, bc_ops = 0, bc_bytes = 0, bc_lat = [], bc_report = None,
     hist_sent = [], hist_served = [], hist_rcvd = []\<rparr>"

definition sb_up0 :: sb_state where
  "sb_up0 = sb_boot0\<lparr>sb_ring := (sb_ring sb_boot0)\<lparr>sb_size := BUFFER_SIZE, sb_ready := True\<rparr>, bs_pc := B_malloc\<rparr>"

lemma sb_instance: "sb_boot sb_params0 sb_boot0" "sb_size_ok sb_params0"
  by (simp_all add: sb_boot_def sb_boot0_def sb_params0_def sb_size_ok_def BUFFER_SIZE_def)

lemma sb_reach_server:
  "reach (sb_step p) a s \<Longrightarrow> sb_server_move p True s = Some t \<Longrightarrow> reach (sb_step p) a t"
  by (rule reach.step) (auto intro: sb_step.sb_server)

lemma sb_reach_client:
  "reach (sb_step p) a s \<Longrightarrow> sb_client_move p True 0 s = Some t \<Longrightarrow> reach (sb_step p) a t"
  by (rule reach.step) (auto intro: sb_step.sb_client [of 0])

lemma sb_instance_up: "reach (sb_step sb_params0) sb_boot0 sb_up0"
proof -
  define s where "s rp pc = sb_boot0\<lparr>sb_ring := (sb_ring sb_boot0)\<lparr>sb_size := rp\<rparr>, bs_pc := pc\<rparr>" for rp pc
  have s0: "sb_boot0 = s 0 BI_sync" by (simp add: s_def sb_boot0_def sb_zero_def)
  have m: "sb_server_move sb_params0 True (s 0 BI_sync) = Some (s 0 BI_read_pos)"
    "sb_server_move sb_params0 True (s 0 BI_read_pos) = Some (s 0 BI_write_pos)"
    "sb_server_move sb_params0 True (s 0 BI_write_pos) = Some (s 0 BI_size)"
    "sb_server_move sb_params0 True (s 0 BI_size) = Some (s BUFFER_SIZE BI_message)"
    "sb_server_move sb_params0 True (s BUFFER_SIZE BI_message) = Some (s BUFFER_SIZE BI_response)"
    "sb_server_move sb_params0 True (s BUFFER_SIZE BI_response) = Some (s BUFFER_SIZE BI_ready)"
    "sb_server_move sb_params0 True (s BUFFER_SIZE BI_ready) = Some sb_up0"
    by (simp_all add: s_def sb_boot0_def sb_up0_def sb_zero_def sb_params0_def sb_server_move_def sb_in_setup_def)
  show ?thesis
    unfolding s0
    by (rule sb_reach_server [OF _ m(7)], rule sb_reach_server [OF _ m(6)], rule sb_reach_server [OF _ m(5)],
        rule sb_reach_server [OF _ m(4)], rule sb_reach_server [OF _ m(3)], rule sb_reach_server [OF _ m(2)],
        rule sb_reach_server [OF _ m(1)], rule reach.init)
qed

lemma sb_instance_request:
  "\<exists>s m. reach (sb_step sb_params0) sb_boot0 s \<and> hist_sent s = [m] \<and> bs_pc s = B_malloc \<and> bc_pc s = D_flag"
proof -
  obtain b0 where b0: "store32 (bc_buf sb_up0) off_seq 0 = Some b0" and l0: "length b0 = unat MAX_MSG_SIZE"
    using store32_in [of off_seq "bc_buf sb_up0" 0] store_length(1)
    by (fastforce simp: MAX_MSG_SIZE_def sb_up0_def sb_boot0_def)
  obtain buf n where buf: "next_request 0 1 b0 = Some buf" "length buf = length b0"
    "load32 buf off_size = Some n" "unat n < 4132"
    using next_request_effect [OF l0] by blast
  have h: "sb_holds ((sb_ring sb_up0)\<lparr>sb_mutex := Some Client\<rparr>) []"
    by (auto simp: sb_holds_def sb_up0_def sb_boot0_def sb_zero_def BUFFER_SIZE_def ring_wf_def intro!: ring_holds_empty)
  have "unat (ucast n :: u64) \<le> length buf" using buf l0 by (simp add: MAX_MSG_SIZE_def)
  then obtain rb where w: "sb_ring_buffer_write ((sb_ring sb_up0)\<lparr>sb_mutex := Some Client\<rparr>) buf (ucast n) = Some (True, rb)"
    using sbq.write_ok [OF h, of "ucast n" buf] sb_room_empty [OF h] buf(4)
    by (auto simp: sb_up0_def sb_boot0_def BUFFER_SIZE_def)
  define s1 where "s1 = sb_up0\<lparr>bc_pc := D_malloc\<rparr>"
  define s2 where "s2 = s1\<lparr>bc_buf := b0, bc_ops := 0, bc_bytes := 0, bc_lat := [],
    bc_end := sb_clock s1 + sb_us (sbp_client_secs sb_params0), bc_pc := D_loop\<rparr>"
  define s4 where "s4 = s2\<lparr>bc_buf := buf, bc_pc := D_lock\<rparr>"
  define s5 where "s5 = s4\<lparr>sb_ring := (sb_ring sb_up0)\<lparr>sb_mutex := Some Client\<rparr>, bc_pc := D_write\<rparr>"
  define s6 where "s6 = s5\<lparr>sb_ring := rb, bc_pc := D_flag, hist_sent := [take (unat n) buf]\<rparr>"
  have m: "sb_client_move sb_params0 True 0 sb_up0 = Some s1"
    "sb_client_move sb_params0 True 0 s1 = Some s2"
    "sb_client_move sb_params0 True 0 s2 = Some (s2\<lparr>bc_pc := D_build\<rparr>)"
    "sb_client_move sb_params0 True 0 (s2\<lparr>bc_pc := D_build\<rparr>) = Some s4"
    "sb_client_move sb_params0 True 0 s4 = Some s5"
    "sb_client_move sb_params0 True 0 s5 = Some s6"
    using b0 buf w
    by (simp_all add: sb_client_move_def sb_client_setup_step_def sb_client_step_def s1_def s2_def s4_def s5_def s6_def
        sb_up0_def sb_boot0_def sb_zero_def sb_params0_def RUN_DURATION_def mutex_lock_def)
  have "reach (sb_step sb_params0) sb_boot0 s6"
    by (rule sb_reach_client [OF _ m(6)], rule sb_reach_client [OF _ m(5)], rule sb_reach_client [OF _ m(4)],
        rule sb_reach_client [OF _ m(3)], rule sb_reach_client [OF _ m(2)], rule sb_reach_client [OF _ m(1)],
        rule sb_instance_up)
  moreover have "hist_sent s6 = [take (unat n) buf]" "bs_pc s6 = B_malloc" "bc_pc s6 = D_flag"
    by (simp_all add: s6_def s5_def s4_def s2_def s1_def sb_up0_def)
  ultimately show ?thesis by blast
qed

theorem shm_echo_witness:
  "\<exists>s m. reach (sb_step sb_params0) sb_boot0 s \<and> hist_sent s = [m] \<and> reach echo_step echo_init (sb_abs s)"
proof -
  obtain s m where s: "reach (sb_step sb_params0) sb_boot0 s" "hist_sent s = [m]" "bs_pc s = B_malloc"
    using sb_instance_request by blast
  then have "sb_live s" by (simp add: sb_live_def sb_in_free_def)
  then show ?thesis using s shm_echo [OF s(1) sb_instance] by blast
qed

theorem shm_no_deadlock_witness:
  "\<exists>s. reach (sb_step sb_params0) sb_boot0 s \<and> bc_pc s = D_flag \<and>
     (sb_server_move sb_params0 True s \<noteq> None \<or> sb_client_move sb_params0 True 0 s \<noteq> None)"
proof -
  obtain s m where s: "reach (sb_step sb_params0) sb_boot0 s" "bc_pc s = D_flag" "bs_pc s = B_malloc"
    using sb_instance_request by blast
  then have "sb_live s" by (simp add: sb_live_def sb_in_free_def)
  then show ?thesis using s shm_no_deadlock [OF s(1) sb_instance] by auto
qed

theorem shm_mutual_exclusion_witness:
  "\<exists>s. reach (sb_step sb_params0) sb_boot0 s \<and> bc_pc s = D_flag \<and>
     ignores_ring (sb_server_move sb_params0 True) s ((sb_ring s)\<lparr>sb_message_available := True, sb_buffer := []\<rparr>)"
proof -
  obtain s m where s: "reach (sb_step sb_params0) sb_boot0 s" "bc_pc s = D_flag" "bs_pc s = B_malloc"
    using sb_instance_request by blast
  then have l: "sb_live s" "\<not> sb_in_setup (bs_pc s)" by (simp_all add: sb_live_def sb_in_free_def sb_in_setup_def)
  have "sb_inv sb_params0 s" using sb.reach_inv [of sb_params0 sb_boot0 s] s(1) sb_instance l(1) by blast
  then have "sb_mutex (sb_ring s) = Some Client"
    using l(2) s(2) by (simp add: sb_inv_def sb_run_inv_split sb_mutex_inv_def client_critical_def)
  then show ?thesis
    using s shm_mutual_exclusion [OF s(1) sb_instance l, of "(sb_ring s)\<lparr>sb_message_available := True, sb_buffer := []\<rparr>" True 0]
    by (intro exI [of _ s]) simp
qed

theorem shm_no_corruption_witness:
  "\<exists>s m. reach (sb_step sb_params0) sb_boot0 s \<and> hist_sent s = [m] \<and> bs_pc s \<notin> {B_crash, B_read_failed}"
proof -
  obtain s m where s: "reach (sb_step sb_params0) sb_boot0 s" "hist_sent s = [m]" "bs_pc s = B_malloc"
    using sb_instance_request by blast
  then have "sb_live s" "\<not> sb_in_setup (bs_pc s)" by (simp_all add: sb_live_def sb_in_free_def sb_in_setup_def)
  then show ?thesis using s shm_no_corruption [OF s(1) sb_instance] by blast
qed

end
