(* ===== verification/Os_Resources.thy ===== *)
theory Os_Resources
  imports IPC_Prelude "HOL-Library.Multiset"
begin

section \<open>Resources the set-up and tear-down code acquires and releases\<close>

text \<open>
  The set-up functions are long sequences of system calls with a clean-up on every failure path. The
  answers of the calls are arguments; the functions return their result and the trace of what was
  acquired and released, so that leaks are statements about the trace. A descriptor is negative when
  the call that should return it failed.
\<close>

datatype resource =
    Heap                    \<comment> \<open>a block of \<open>malloc\<close>\<close>
  | Fd int                  \<comment> \<open>an open descriptor\<close>
  | Path string             \<comment> \<open>a file-system entry: a bound socket or a shared-memory object\<close>
  | Mapping nat             \<comment> \<open>a mapping of so many pages\<close>

datatype os_event = Acquire resource | Release resource

text \<open>What is still held after a trace that started with \<open>held\<close>. Releasing something that is not held
  (unlinking a path that does not exist) changes nothing.\<close>

fun holding :: "resource multiset \<Rightarrow> os_event list \<Rightarrow> resource multiset" where
  "holding held [] = held"
| "holding held (Acquire r # es) = holding (add_mset r held) es"
| "holding held (Release r # es) = holding (held - {#r#}) es"

lemma holding_append [simp]: "holding held (xs @ ys) = holding (holding held xs) ys"
  by (induction held xs rule: holding.induct) simp_all

end
