(* ===== verification/Interrupts.thy ===== *)
theory Interrupts
  imports Os_Resources
begin

section \<open>Interrupts: a wake-up channel between threads (interrupt.h, interrupt.c)\<close>

text \<open>
  Creation and destruction with their resources, and the operations over the kernel object behind the
  descriptors: an eventfd counter (opened without \<open>EFD_NONBLOCK\<close>) or a pipe whose read end does not block.
\<close>

subsection \<open>Creation and destruction\<close>

record Interrupt =
  in_fd :: int
  in_write_fd :: int
  in_is_eventfd :: bool

text \<open>\<open>event\<close>: what \<open>eventfd\<close> returns, \<open>enoent\<close>: \<open>errno\<close> is \<open>ENOENT\<close> when it fails; \<open>pipe\<close>: the two descriptors,
  if the call succeeds; \<open>getfl\<close>, \<open>setfl\<close>: what the two \<open>fcntl\<close> return.\<close>

definition interrupt_create ::
  "bool \<Rightarrow> int \<Rightarrow> bool \<Rightarrow> (int \<times> int) option \<Rightarrow> int \<Rightarrow> int \<Rightarrow> Interrupt option \<times> os_event list" where
  "interrupt_create heap event enoent pipe getfl setfl =
     (if \<not> heap then (None, [])
      else if event \<noteq> -1 then
        (Some \<lparr>in_fd = event, in_write_fd = event, in_is_eventfd = True\<rparr>, [Acquire Heap, Acquire (Fd event)])
      else if \<not> enoent then (None, [Acquire Heap, Release Heap])
      else case pipe of
        None \<Rightarrow> (None, [Acquire Heap, Release Heap])
      | Some (r, w) \<Rightarrow>
          if getfl = -1 \<or> setfl = -1 then
            (None, [Acquire Heap, Acquire (Fd r), Acquire (Fd w), Release (Fd r), Release (Fd w), Release Heap])
          else (Some \<lparr>in_fd = r, in_write_fd = w, in_is_eventfd = False\<rparr>,
                [Acquire Heap, Acquire (Fd r), Acquire (Fd w)]))"

fun interrupt_destroy :: "Interrupt option \<Rightarrow> os_event list" where
  "interrupt_destroy None = []"
| "interrupt_destroy (Some intr) =
     (if in_is_eventfd intr then [Release (Fd (in_fd intr))]
      else [Release (Fd (in_fd intr)), Release (Fd (in_write_fd intr))]) @ [Release Heap]"

fun interrupt_get_fd :: "Interrupt option \<Rightarrow> int" where
  "interrupt_get_fd None = -1"
| "interrupt_get_fd (Some intr) = in_fd intr"

subsection \<open>The kernel objects\<close>

datatype channel = Eventfd u64 | Pipe bytes

datatype read_answer = Read_bytes nat | Read_again | Read_fails
  \<comment> \<open>so many bytes; \<open>EAGAIN\<close> or \<open>EWOULDBLOCK\<close>; another error\<close>

text \<open>\<open>write\<close> of an eight-byte value: an eventfd blocks when the counter would pass \<open>2 ^ 64 - 2\<close>, a pipe when its
  64 KiB are full. \<open>read\<close> of eight bytes: an eventfd blocks on zero and else clears the counter, a pipe takes
  out what there is. \<open>None\<close>: the call blocks.\<close>

fun sys_write :: "channel \<Rightarrow> u64 \<Rightarrow> (int \<times> channel) option" where
  "sys_write (Eventfd c) v = (if unat c + unat v > 2 ^ 64 - 2 then None else Some (8, Eventfd (c + v)))"
| "sys_write (Pipe bs) v = (if length bs + 8 > 65536 then None else Some (8, Pipe (bs @ le_bytes 8 v)))"

fun sys_read :: "channel \<Rightarrow> (read_answer \<times> channel) option" where
  "sys_read (Eventfd c) = (if c = 0 then None else Some (Read_bytes 8, Eventfd 0))"
| "sys_read (Pipe bs) =
     Some (if bs = [] then (Read_again, Pipe []) else (Read_bytes (min 8 (length bs)), Pipe (drop 8 bs)))"

subsection \<open>The operations\<close>

text \<open>A missing interrupt is the null pointer.\<close>

fun interrupt_signal :: "channel option \<Rightarrow> (int \<times> channel option) option" where
  "interrupt_signal None = Some (-1, None)"
| "interrupt_signal (Some ch) =
     map_option (\<lambda>(ret, ch'). (if ret \<noteq> 8 then -1 else 0, Some ch')) (sys_write ch 1)"

fun interrupt_clear :: "channel option \<Rightarrow> (int \<times> channel option) option" where
  "interrupt_clear None = Some (-1, None)"
| "interrupt_clear (Some ch) =
     map_option (\<lambda>(ret, ch'). (case ret of
         Read_bytes n \<Rightarrow> 0
       | Read_again \<Rightarrow> 0
       | Read_fails \<Rightarrow> -1, Some ch')) (sys_read ch)"

text \<open>The loop of \<open>interrupt_wait\<close>, with its reads. What the surroundings contribute to an iteration: whether the
  read fails with an error, what \<open>poll\<close> returns after \<open>EAGAIN\<close> and whether \<open>POLLIN\<close> is set, and the channel as
  the other threads have left it by then. \<open>None\<close>: it waits in \<open>read\<close>, or in the \<open>poll\<close> after the last
  iteration given.\<close>

record wait_answers =
  wa_fails :: bool
  wa_ret :: int
  wa_pollin :: bool
  wa_after :: channel

fun interrupt_wait :: "channel option \<Rightarrow> wait_answers list \<Rightarrow> (int \<times> channel option) option" where
  "interrupt_wait None as = Some (-1, None)"
| "interrupt_wait (Some ch) [] = do {
     (n, ch') \<leftarrow> sys_read ch;
     if n = Read_bytes 8 then Some (0, Some ch')
     else if n \<noteq> Read_again then Some (-1, Some ch')
     else None
   }"
| "interrupt_wait (Some ch) (a # as) = do {
     (n, ch') \<leftarrow> (if wa_fails a then Some (Read_fails, ch) else sys_read ch);
     if n = Read_bytes 8 then Some (0, Some ch')
     else if n \<noteq> Read_again then Some (-1, Some ch')
     else if wa_ret a < 0 then Some (-1, Some ch')
     else if wa_ret a = 0 then Some (-1, Some ch')
     else if \<not> wa_pollin a then Some (-1, Some ch')
     else interrupt_wait (Some (wa_after a)) as
   }"

text \<open>Signals that have not been waited for.\<close>

fun pending :: "channel \<Rightarrow> nat" where
  "pending (Eventfd c) = unat c"
| "pending (Pipe bs) = length bs div 8"

fun well_formed :: "channel \<Rightarrow> bool" where
  "well_formed (Eventfd c) = True"
| "well_formed (Pipe bs) = (8 dvd length bs)"

subsection \<open>Laws\<close>

lemma le_8 [simp]: "length (le_bytes 8 (w :: u64)) = 8" "le_bytes 8 (w :: u64) \<noteq> []"
proof -
  show "length (le_bytes 8 w) = 8" by simp
  then show "le_bytes 8 w \<noteq> []" by (metis list.size(3) zero_neq_numeral)
qed

lemma signal_channel:
  assumes "pending ch < 8192" "well_formed ch"
  shows "\<exists>ch'. interrupt_signal (Some ch) = Some (0, Some ch') \<and> pending ch' = Suc (pending ch) \<and> well_formed ch'"
proof (cases ch)
  case (Eventfd c)
  then show ?thesis using assms by (simp add: unat_add_u64)
next
  case (Pipe bs)
  then obtain k where "length bs = 8 * k" using assms(2) by (auto simp: dvd_def)
  then show ?thesis using Pipe assms by auto
qed

lemma div8_0: "8 dvd n \<Longrightarrow> n div 8 = 0 \<longleftrightarrow> n = (0 :: nat)"
  by (auto simp: dvd_div_eq_0_iff)

lemma wait_blocks: "well_formed ch \<Longrightarrow> interrupt_wait (Some ch) [] = None \<longleftrightarrow> pending ch = 0"
  by (cases ch) (auto simp: unat_eq_zero div8_0 dvd_imp_le dest!: dvd_imp_le)

lemma wait_returns:
  assumes "well_formed ch" "0 < pending ch"
  shows "\<exists>ch'. interrupt_wait (Some ch) [] = Some (0, Some ch') \<and> well_formed ch' \<and>
    pending ch' = (case ch of Eventfd c \<Rightarrow> 0 | Pipe bs \<Rightarrow> pending ch - 1)"
proof (cases ch)
  case (Eventfd c)
  then show ?thesis using assms by auto
next
  case (Pipe bs)
  then have "8 \<le> length bs" using assms(2) by (simp add: div_greater_zero_iff)
  moreover have "(length bs - 8) div 8 = length bs div 8 - 1" using calculation by (simp add: le_div_geq)
  ultimately show ?thesis using Pipe assms by (auto simp: dvd_diff_nat min_def)
qed

text \<open>The contract the client thread and the main thread rely on: a quiet channel blocks the waiter, a signal
  raises it, and the wait that follows takes the signal back.\<close>

locale wakeup =
  fixes quiet raised :: "'c \<Rightarrow> bool" and signal wait :: "'c \<Rightarrow> 'c option"
  assumes quiet_blocks: "quiet c \<Longrightarrow> wait c = None"
    and quiet_signal: "quiet c \<Longrightarrow> \<exists>c'. signal c = Some c' \<and> raised c'"
    and raised_wait: "raised c \<Longrightarrow> \<exists>c'. wait c = Some c' \<and> quiet c'"
begin

lemma handshake: "quiet c \<Longrightarrow> \<exists>c' c''. signal c = Some c' \<and> wait c' = Some c'' \<and> quiet c''"
  using quiet_signal raised_wait by blast

lemma not_both: "quiet c \<Longrightarrow> \<not> raised c"
  using quiet_blocks raised_wait by fastforce

end

definition ch_quiet :: "channel \<Rightarrow> bool" where "ch_quiet ch \<longleftrightarrow> well_formed ch \<and> pending ch = 0"

definition ch_raised :: "channel \<Rightarrow> bool" where "ch_raised ch \<longleftrightarrow> well_formed ch \<and> pending ch = 1"

text \<open>The threads of the notification backend ignore what \<open>interrupt_signal\<close> and \<open>interrupt_wait\<close> return. In their
  steps no read of an interrupt fails with an error.\<close>

definition ch_signal :: "channel \<Rightarrow> channel option" where
  "ch_signal ch = interrupt_signal (Some ch) \<bind> snd"

definition ch_wait :: "channel \<Rightarrow> channel option" where
  "ch_wait ch = interrupt_wait (Some ch) [] \<bind> snd"

interpretation intr: wakeup ch_quiet ch_raised ch_signal ch_wait
proof unfold_locales
  fix c
  show "ch_wait c = None" if "ch_quiet c"
    using wait_blocks [of c] that by (simp add: ch_quiet_def ch_wait_def)
  show "\<exists>c'. ch_signal c = Some c' \<and> ch_raised c'" if "ch_quiet c"
    using signal_channel [of c] that by (auto simp: ch_quiet_def ch_raised_def ch_signal_def)
  show "\<exists>c'. ch_wait c = Some c' \<and> ch_quiet c'" if "ch_raised c"
    using wait_returns [of c] that
    by (cases c) (auto simp: ch_quiet_def ch_raised_def ch_wait_def)
qed

subsection \<open>Properties\<close>

text \<open>Several signals, several waits, each of which must return 0: \<open>None\<close> if one blocks or returns anything
  else.\<close>

fun succeeded :: "int \<times> channel option \<Rightarrow> channel option" where
  "succeeded (ret, ch) = (if ret = 0 then ch else None)"

fun signal_times :: "nat \<Rightarrow> channel \<Rightarrow> channel option" where
  "signal_times 0 ch = Some ch"
| "signal_times (Suc n) ch = interrupt_signal (Some ch) \<bind> succeeded \<bind> signal_times n"

fun wait_times :: "nat \<Rightarrow> channel \<Rightarrow> channel option" where
  "wait_times 0 ch = Some ch"
| "wait_times (Suc n) ch = interrupt_wait (Some ch) [] \<bind> succeeded \<bind> wait_times n"

lemma signal_times_eventfd: "k + n \<le> 2 ^ 64 - 2 \<Longrightarrow>
    signal_times n (Eventfd (word_of_nat k)) = Some (Eventfd (word_of_nat (k + n)))"
proof (induction n arbitrary: k)
  case (Suc n)
  have "sys_write (Eventfd (word_of_nat k)) 1 = Some (8, Eventfd (word_of_nat (Suc k)))"
    using Suc.prems by (simp add: unat_of_nat_u64 add.commute)
  then show ?case using Suc.IH [of "Suc k"] Suc.prems by simp
qed simp

lemma signal_times_eventfd_full: "k \<le> 2 ^ 64 - 2 \<Longrightarrow> 2 ^ 64 - 2 < k + n \<Longrightarrow>
    signal_times n (Eventfd (word_of_nat k)) = None"
proof (induction n arbitrary: k)
  case (Suc n)
  show ?case
  proof (cases "k = 2 ^ 64 - 2")
    case True
    then show ?thesis by (simp add: unat_of_nat_u64)
  next
    case False
    then have "sys_write (Eventfd (word_of_nat k)) 1 = Some (8, Eventfd (word_of_nat (Suc k)))"
      using Suc.prems(1) by (simp add: unat_of_nat_u64 add.commute)
    then show ?thesis using Suc.IH [of "Suc k"] Suc.prems False by simp
  qed
qed simp

lemma signal_times_pipe: "length bs = 8 * k \<Longrightarrow> k \<le> 8192 \<Longrightarrow>
    (if k + n \<le> 8192 then \<exists>bs'. signal_times n (Pipe bs) = Some (Pipe bs') \<and> length bs' = 8 * (k + n)
     else signal_times n (Pipe bs) = None)"
proof (induction n arbitrary: bs k)
  case (Suc n)
  show ?case
    using Suc.IH [of "bs @ le_bytes 8 (1 :: u64)" "Suc k"] Suc.prems by (cases "k = 8192") auto
qed simp

lemma wait_times_pipe: "length bs = 8 * n \<Longrightarrow> wait_times n (Pipe bs) = Some (Pipe [])"
proof (induction n arbitrary: bs)
  case (Suc n)
  then have "sys_read (Pipe bs) = Some (Read_bytes 8, Pipe (drop 8 bs))" by auto
  then show ?case using Suc.IH [of "drop 8 bs"] Suc.prems by simp
qed simp

text \<open>C36: signals are not lost, and how they add up depends on the kernel object. \<open>n\<close> signals all return 0 up
  to the capacity, \<open>2 ^ 64 - 2\<close> for an eventfd and 8192 for a pipe of 64 KiB, and one more blocks. After
  them an eventfd lets exactly one wait return 0, a pipe exactly \<open>n\<close>; then the wait blocks. And a
  waiter that found the pipe empty returns 0, and takes the signal, when the poll reports it.\<close>

theorem interrupt_signals_counted:
  assumes "0 < n"
  shows "signal_times n (Eventfd 0) \<bind> wait_times 1 = (if n \<le> 2 ^ 64 - 2 then Some (Eventfd 0) else None) \<and>
    signal_times n (Pipe []) \<bind> wait_times n = (if n \<le> 8192 then Some (Pipe []) else None) \<and>
    interrupt_wait (Some (Eventfd 0)) [] = None \<and> interrupt_wait (Some (Pipe [])) [] = None \<and>
    interrupt_signal (Some (Pipe [])) = Some (0, Some (Pipe (le_bytes 8 (1 :: u64)))) \<and>
    interrupt_wait (Some (Pipe []))
      [\<lparr>wa_fails = False, wa_ret = 1, wa_pollin = True, wa_after = Pipe (le_bytes 8 (1 :: u64))\<rparr>]
      = Some (0, Some (Pipe []))"
proof -
  have "signal_times n (Eventfd 0) \<bind> wait_times 1 = (if n \<le> 2 ^ 64 - 2 then Some (Eventfd 0) else None)"
  proof (cases "n \<le> 2 ^ 64 - 2")
    case True
    then have "(word_of_nat n :: u64) \<noteq> 0" using assms by (simp add: word_eq_unat unat_of_nat_u64)
    then show ?thesis using signal_times_eventfd [of 0 n] True by simp
  next
    case False
    then show ?thesis using signal_times_eventfd_full [of 0 n] by simp
  qed
  moreover have "signal_times n (Pipe []) \<bind> wait_times n = (if n \<le> 8192 then Some (Pipe []) else None)"
    using signal_times_pipe [of "[]" 0 n] by (auto simp: wait_times_pipe split: if_splits)
  ultimately show ?thesis by simp
qed

text \<open>\<open>interrupt_clear\<close> with nothing pending returns 0 on a pipe, as its comment says, but blocks on an
  eventfd; and with several signals pending it removes all of them from an eventfd but only one from a
  pipe.\<close>

theorem interrupt_clear_cases:
  assumes "0 < n" "n \<le> 8192"
  shows "interrupt_clear (Some (Eventfd 0)) = None \<and> interrupt_clear (Some (Pipe [])) = Some (0, Some (Pipe [])) \<and>
    (\<forall>ch. signal_times n (Eventfd 0) = Some ch \<longrightarrow> interrupt_clear (Some ch) = Some (0, Some (Eventfd 0))) \<and>
    (\<forall>ch. signal_times n (Pipe []) = Some ch \<longrightarrow>
       (\<exists>ch'. interrupt_clear (Some ch) = Some (0, Some ch') \<and> pending ch' = n - 1))"
proof -
  have "(word_of_nat n :: u64) \<noteq> 0" using assms by (simp add: word_eq_unat unat_of_nat_u64)
  moreover obtain bs where "signal_times n (Pipe []) = Some (Pipe bs)" "length bs = 8 * n"
    using signal_times_pipe [of "[]" 0 n] assms(2) by auto
  moreover have "(8 * n - 8) div 8 = n - 1" for n :: nat
    by (metis diff_mult_distrib2 mult.right_neutral nonzero_mult_div_cancel_left zero_neq_numeral)
  ultimately show ?thesis
    using signal_times_eventfd [of 0 n] assms by (auto split: if_splits)
qed

text \<open>No leaks. Every failing path of \<open>interrupt_create\<close> releases the block and the descriptors, and
  \<open>interrupt_destroy\<close> releases everything a successful one acquired.\<close>

theorem interrupt_no_leak:
  "holding {#} (snd (interrupt_create heap event enoent pipe getfl setfl) @
     interrupt_destroy (fst (interrupt_create heap event enoent pipe getfl setfl))) = {#}"
  by (auto simp: interrupt_create_def split: option.splits prod.splits)

theorem interrupt_signals_counted_witness:
  "signal_times 8192 (Pipe []) \<bind> wait_times 8192 = Some (Pipe []) \<and>
   signal_times 3 (Eventfd 0) \<bind> wait_times 1 = Some (Eventfd 0)"
  using interrupt_signals_counted [of 8192] interrupt_signals_counted [of 3] by simp

theorem interrupt_clear_cases_witness:
  "signal_times 2 (Eventfd 0) = Some (Eventfd 2) \<and> interrupt_clear (Some (Eventfd 2)) = Some (0, Some (Eventfd 0)) \<and>
   interrupt_clear (Some (Eventfd 0)) = None"
  using interrupt_clear_cases [of 2] signal_times_eventfd [of 0 2] by simp

end
