(* ===== verification/Shm_Nonblocking.thy ===== *)
theory Shm_Nonblocking
  imports Ring_Buffer Messages Echo_Protocol Interrupts Shm_Blocking
begin

section \<open>Shared memory with notification (shm\_nonblocking.h, shm\_nonblocking.c)\<close>

text \<open>
  Three threads of control over one shared state: the server process; the client's worker thread, which
  does all operations on the segment; and the client's main thread, which exchanges one message block
  with the worker through two interrupts. One step is one access to shared state, as in the blocking
  backend. The server's program points and the owners of the mutex are those of the blocking backend.
\<close>

subsection \<open>The ring struct\<close>

record NonBlockingRingBuffer =
  nb_mutex :: "owner option"
  nb_read_pos :: u64
  nb_write_pos :: u64
  nb_size :: u64
  nb_message_available :: bool
  nb_response_available :: bool
  nb_message_processed :: bool
  nb_ready :: bool
  nb_buffer :: bytes

definition nb_ring_buffer_read ::
  "NonBlockingRingBuffer \<Rightarrow> bytes \<Rightarrow> u64 \<Rightarrow> (bool \<times> NonBlockingRingBuffer \<times> bytes \<times> u64) option" where
  "nb_ring_buffer_read rb data max_len =
     map_option (\<lambda>(ok, rp, data', n). (ok, rb\<lparr>nb_read_pos := rp\<rparr>, data', n))
       (ring64_read (nb_buffer rb) (nb_size rb) (nb_read_pos rb) (nb_write_pos rb) data max_len)"

definition nb_ring_buffer_write ::
  "NonBlockingRingBuffer \<Rightarrow> bytes \<Rightarrow> u64 \<Rightarrow> (bool \<times> NonBlockingRingBuffer) option" where
  "nb_ring_buffer_write rb data len =
     map_option (\<lambda>(ok, buf, wp). (ok, rb\<lparr>nb_buffer := buf, nb_write_pos := wp\<rparr>))
       (ring64_write (nb_buffer rb) (nb_size rb) (nb_read_pos rb) (nb_write_pos rb) data len)"

definition nb_mutex_lock :: "owner \<Rightarrow> NonBlockingRingBuffer \<Rightarrow> NonBlockingRingBuffer option" where
  "nb_mutex_lock who rb = (if nb_mutex rb = None then Some (rb\<lparr>nb_mutex := Some who\<rparr>) else None)"

definition nb_mutex_unlock :: "NonBlockingRingBuffer \<Rightarrow> NonBlockingRingBuffer" where
  "nb_mutex_unlock rb = rb\<lparr>nb_mutex := None\<rparr>"

subsection \<open>The state\<close>

datatype nb_thread_pc =
    T_none
  | T_loop | T_wait | T_lock | T_write | T_abandon | T_flag | T_signal | T_check
  | T_fail | T_fail_size | T_fail_notify | T_fail_unlock
  | T_test | T_asleep | T_reacquire | T_read | T_success | T_size | T_clear | T_unlock | T_notify
  | T_done | T_crash

datatype nb_main_pc =
    M_ready
  | M_malloc | M_create | M_start | M_loop | M_build | M_signal | M_wait | M_success | M_account
  | M_exit | M_notify_read | M_notify_write | M_join | M_stats | M_done | M_crash

text \<open>\<open>nb_msg\<close>, \<open>nb_msg_size\<close>, \<open>nb_read_success\<close> and \<open>nb_should_exit\<close> are what \<open>ThreadData\<close> refers to; the
  \<open>nt_\<close> fields are the worker's locals; the last three fields are histories no step reads.\<close>

record nb_state =
  nb_ring :: NonBlockingRingBuffer
  nb_clock :: u64
  ns_pc :: sb_server_pc
  ns_end :: u64
  ns_buf :: bytes
  ns_msg_size :: u64
  nt_pc :: nb_thread_pc
  nt_ok :: bool
  nt_msg_size :: u64
  nm_pc :: nb_main_pc
  nm_end :: u64
  nb_msg :: bytes
  nb_msg_size :: u64
  nb_read_success :: bool
  nb_should_exit :: bool
  nb_read_intr :: channel
  nb_write_intr :: channel
  nm_ops :: u64
  nm_bytes :: u64
  nm_lat :: "u64 list"
  nm_report :: "BenchmarkStats option"
  nb_sent :: "bytes list"
  nb_served :: "bytes list"
  nb_rcvd :: "bytes list"

text \<open>\<open>pthread_cond_signal\<close> on the two conditions.\<close>

definition nb_server_cond_signal :: "nb_state \<Rightarrow> nb_state" where
  "nb_server_cond_signal s = (if ns_pc s = B_asleep then s\<lparr>ns_pc := B_reacquire\<rparr> else s)"

definition nb_client_cond_signal :: "nb_state \<Rightarrow> nb_state" where
  "nb_client_cond_signal s = (if nt_pc s = T_asleep then s\<lparr>nt_pc := T_reacquire\<rparr> else s)"

subsection \<open>The server\<close>

fun nb_setup_step ::
  "sb_params \<Rightarrow> sb_server_pc \<Rightarrow> NonBlockingRingBuffer \<Rightarrow> NonBlockingRingBuffer \<times> sb_server_pc" where
  "nb_setup_step p BI_sync rb = (rb\<lparr>nb_mutex := None\<rparr>, BI_read_pos)"
| "nb_setup_step p BI_read_pos rb = (rb\<lparr>nb_read_pos := 0\<rparr>, BI_write_pos)"
| "nb_setup_step p BI_write_pos rb = (rb\<lparr>nb_write_pos := 0\<rparr>, BI_size)"
| "nb_setup_step p BI_size rb = (rb\<lparr>nb_size := sbp_size p\<rparr>, BI_message)"
| "nb_setup_step p BI_message rb = (rb\<lparr>nb_message_available := False\<rparr>, BI_response)"
| "nb_setup_step p BI_response rb = (rb\<lparr>nb_response_available := False\<rparr>, BI_ready)"
| "nb_setup_step p BI_ready rb = (rb\<lparr>nb_ready := True\<rparr>, B_malloc)"
| "nb_setup_step p pc rb = (rb, pc)"

definition nb_server_step :: "sb_params \<Rightarrow> bool \<Rightarrow> nb_state \<Rightarrow> nb_state option" where
  "nb_server_step p alloc s =
     (case ns_pc s of
        B_malloc \<Rightarrow>
          if \<not> alloc then Some (s\<lparr>ns_pc := BF_lock\<rparr>)
          else Some (s\<lparr>ns_pc := B_loop, ns_end := nb_clock s + sb_us (sbp_server_secs p)\<rparr>)
      | B_loop \<Rightarrow> Some (s\<lparr>ns_pc := if nb_clock s < ns_end s then B_lock else BF_lock\<rparr>)
      | B_lock \<Rightarrow> map_option (\<lambda>rb. s\<lparr>nb_ring := rb, ns_pc := B_test\<rparr>) (nb_mutex_lock Server (nb_ring s))
      | B_test \<Rightarrow>
          Some (if \<not> nb_message_available (nb_ring s)
                then s\<lparr>nb_ring := nb_mutex_unlock (nb_ring s), ns_pc := B_asleep\<rparr>
                else s\<lparr>ns_pc := B_read\<rparr>)
      | B_asleep \<Rightarrow> None
      | B_reacquire \<Rightarrow> map_option (\<lambda>rb. s\<lparr>nb_ring := rb, ns_pc := B_test\<rparr>) (nb_mutex_lock Server (nb_ring s))
      | B_read \<Rightarrow>
          (case nb_ring_buffer_read (nb_ring s) (ns_buf s) MAX_MSG_SIZE of
             None \<Rightarrow> Some (s\<lparr>ns_pc := B_crash\<rparr>)
           | Some (ok, rb, buf, n) \<Rightarrow>
               let s' = s\<lparr>nb_ring := rb, ns_buf := buf, ns_msg_size := n\<rparr>
               in Some (if ok
                        then s'\<lparr>ns_pc := B_clear, nb_served := nb_served s @ [take (unat n) buf]\<rparr>
                        else s'\<lparr>ns_pc := B_read_failed\<rparr>))
      | B_read_failed \<Rightarrow> Some (s\<lparr>nb_ring := nb_mutex_unlock (nb_ring s), ns_pc := B_loop\<rparr>)
      | B_clear \<Rightarrow> Some (s\<lparr>nb_ring := (nb_ring s)\<lparr>nb_message_available := False\<rparr>, ns_pc := B_unlock\<rparr>)
      | B_unlock \<Rightarrow> Some (s\<lparr>nb_ring := nb_mutex_unlock (nb_ring s), ns_pc := B_validate\<rparr>)
      | B_validate \<Rightarrow>
          (case validate_message (ns_buf s) (ns_msg_size s) of
             None \<Rightarrow> Some (s\<lparr>ns_pc := B_crash\<rparr>)
           | Some ok \<Rightarrow> Some (s\<lparr>ns_pc := if ok then B_relock else B_loop\<rparr>))
      | B_relock \<Rightarrow> map_option (\<lambda>rb. s\<lparr>nb_ring := rb, ns_pc := B_write\<rparr>) (nb_mutex_lock Server (nb_ring s))
      | B_write \<Rightarrow>
          (case nb_ring_buffer_write (nb_ring s) (ns_buf s) (ns_msg_size s) of
             None \<Rightarrow> Some (s\<lparr>ns_pc := B_crash\<rparr>)
           | Some (ok, rb) \<Rightarrow> Some (s\<lparr>nb_ring := rb, ns_pc := if ok then B_respond else B_release\<rparr>))
      | B_respond \<Rightarrow> Some (s\<lparr>nb_ring := (nb_ring s)\<lparr>nb_response_available := True\<rparr>, ns_pc := B_signal\<rparr>)
      | B_signal \<Rightarrow> Some ((nb_client_cond_signal s)\<lparr>ns_pc := B_release\<rparr>)
      | B_release \<Rightarrow> Some (s\<lparr>nb_ring := nb_mutex_unlock (nb_ring s), ns_pc := B_loop\<rparr>)
      | _ \<Rightarrow> None)"

definition nb_free_server_step :: "nb_state \<Rightarrow> nb_state option" where
  "nb_free_server_step s =
     (case ns_pc s of
        BF_lock \<Rightarrow> map_option (\<lambda>rb. s\<lparr>nb_ring := rb, ns_pc := BF_ready\<rparr>) (nb_mutex_lock Server (nb_ring s))
      | BF_ready \<Rightarrow> Some (s\<lparr>nb_ring := (nb_ring s)\<lparr>nb_ready := False\<rparr>, ns_pc := BF_response\<rparr>)
      | BF_response \<Rightarrow> Some (s\<lparr>nb_ring := (nb_ring s)\<lparr>nb_response_available := True\<rparr>, ns_pc := BF_server\<rparr>)
      | BF_server \<Rightarrow> Some ((nb_server_cond_signal s)\<lparr>ns_pc := BF_client\<rparr>)
      | BF_client \<Rightarrow> Some ((nb_client_cond_signal s)\<lparr>ns_pc := BF_unlock\<rparr>)
      | BF_unlock \<Rightarrow> Some (s\<lparr>nb_ring := nb_mutex_unlock (nb_ring s), ns_pc := BF_unmap\<rparr>)
      | BF_unmap \<Rightarrow> Some (s\<lparr>ns_pc := B_done\<rparr>)
      | _ \<Rightarrow> None)"

definition nb_server_move :: "sb_params \<Rightarrow> bool \<Rightarrow> nb_state \<Rightarrow> nb_state option" where
  "nb_server_move p alloc s =
     (if sb_in_setup (ns_pc s)
      then let (rb, pc) = nb_setup_step p (ns_pc s) (nb_ring s) in Some (s\<lparr>nb_ring := rb, ns_pc := pc\<rparr>)
      else if sb_in_free (ns_pc s) then nb_free_server_step s
      else nb_server_step p alloc s)"

subsection \<open>The worker thread\<close>

text \<open>\<open>run_client_thread\<close>. After a failed write it leaves its loop without notifying the main thread.\<close>

definition run_client_thread_step :: "nb_state \<Rightarrow> nb_state option" where
  "run_client_thread_step s =
     (case nt_pc s of
        T_loop \<Rightarrow> Some (s\<lparr>nt_pc := if nb_should_exit s then T_done else T_wait\<rparr>)
      | T_wait \<Rightarrow> map_option (\<lambda>ch. s\<lparr>nb_write_intr := ch, nt_pc := T_lock\<rparr>) (ch_wait (nb_write_intr s))
      | T_lock \<Rightarrow> map_option (\<lambda>rb. s\<lparr>nb_ring := rb, nt_pc := T_write\<rparr>) (nb_mutex_lock Client (nb_ring s))
      | T_write \<Rightarrow>
          (case load32 (nb_msg s) off_size \<bind>
                  (\<lambda>n. nb_ring_buffer_write (nb_ring s) (nb_msg s) (ucast n) \<bind>
                    (\<lambda>(ok, rb). Some (n, ok, rb))) of
             None \<Rightarrow> Some (s\<lparr>nt_pc := T_crash\<rparr>)
           | Some (n, ok, rb) \<Rightarrow>
               Some (if ok
                     then s\<lparr>nb_ring := rb, nt_pc := T_flag, nb_sent := nb_sent s @ [take (unat n) (nb_msg s)]\<rparr>
                     else s\<lparr>nb_ring := rb, nt_pc := T_abandon\<rparr>))
      | T_abandon \<Rightarrow> Some (s\<lparr>nb_ring := nb_mutex_unlock (nb_ring s), nt_pc := T_done\<rparr>)
      | T_flag \<Rightarrow> Some (s\<lparr>nb_ring := (nb_ring s)\<lparr>nb_message_available := True\<rparr>, nt_pc := T_signal\<rparr>)
      | T_signal \<Rightarrow> Some ((nb_server_cond_signal s)\<lparr>nt_pc := T_check\<rparr>)
      | T_check \<Rightarrow> Some (s\<lparr>nt_pc := if nb_ready (nb_ring s) then T_test else T_fail\<rparr>)
      | T_fail \<Rightarrow> Some (s\<lparr>nb_read_success := False, nt_pc := T_fail_size\<rparr>)
      | T_fail_size \<Rightarrow> Some (s\<lparr>nb_msg_size := 0, nt_pc := T_fail_notify\<rparr>)
      | T_fail_notify \<Rightarrow> map_option (\<lambda>ch. s\<lparr>nb_read_intr := ch, nt_pc := T_fail_unlock\<rparr>) (ch_signal (nb_read_intr s))
      | T_fail_unlock \<Rightarrow> Some (s\<lparr>nb_ring := nb_mutex_unlock (nb_ring s), nt_pc := T_done\<rparr>)
      | T_test \<Rightarrow>
          Some (if \<not> nb_response_available (nb_ring s)
                then s\<lparr>nb_ring := nb_mutex_unlock (nb_ring s), nt_pc := T_asleep\<rparr>
                else s\<lparr>nt_pc := T_read\<rparr>)
      | T_asleep \<Rightarrow> None
      | T_reacquire \<Rightarrow> map_option (\<lambda>rb. s\<lparr>nb_ring := rb, nt_pc := T_test\<rparr>) (nb_mutex_lock Client (nb_ring s))
      | T_read \<Rightarrow>
          (case nb_ring_buffer_read (nb_ring s) (nb_msg s) MAX_MSG_SIZE of
             None \<Rightarrow> Some (s\<lparr>nt_pc := T_crash\<rparr>)
           | Some (ok, rb, buf, n) \<Rightarrow>
               Some (s\<lparr>nb_ring := rb, nb_msg := buf, nt_ok := ok, nt_msg_size := n, nt_pc := T_success,
                       nb_rcvd := if ok then nb_rcvd s @ [take (unat n) buf] else nb_rcvd s\<rparr>))
      | T_success \<Rightarrow> Some (s\<lparr>nb_read_success := nt_ok s, nt_pc := T_size\<rparr>)
      | T_size \<Rightarrow> Some (s\<lparr>nb_msg_size := nt_msg_size s, nt_pc := T_clear\<rparr>)
      | T_clear \<Rightarrow> Some (s\<lparr>nb_ring := (nb_ring s)\<lparr>nb_response_available := False\<rparr>, nt_pc := T_unlock\<rparr>)
      | T_unlock \<Rightarrow> Some (s\<lparr>nb_ring := nb_mutex_unlock (nb_ring s), nt_pc := T_notify\<rparr>)
      | T_notify \<Rightarrow> map_option (\<lambda>ch. s\<lparr>nb_read_intr := ch, nt_pc := T_loop\<rparr>) (ch_signal (nb_read_intr s))
      | _ \<Rightarrow> None)"

subsection \<open>The main thread\<close>

text \<open>The polling loop of the set-up, then \<open>run_shm_nonblocking_client\<close>. \<open>alloc\<close>: the allocations, the
  creation of the interrupts and of the thread succeed.\<close>

definition nb_main_step :: "sb_params \<Rightarrow> bool \<Rightarrow> int \<Rightarrow> nb_state \<Rightarrow> nb_state option" where
  "nb_main_step p alloc rnd s =
     (case nm_pc s of
        M_ready \<Rightarrow> Some (if nb_ready (nb_ring s) then s\<lparr>nm_pc := M_malloc\<rparr> else s)
      | M_malloc \<Rightarrow> Some (s\<lparr>nm_pc := if alloc then M_create else M_done\<rparr>)
      | M_create \<Rightarrow>
          Some (if alloc
                then s\<lparr>nb_msg_size := 0, nb_read_success := False, nb_should_exit := False,
                       nt_pc := T_loop, nm_pc := M_start\<rparr>
                else s\<lparr>nm_pc := M_done\<rparr>)
      | M_start \<Rightarrow>
          Some (s\<lparr>nm_ops := 0, nm_bytes := 0, nm_lat := [], nm_end := nb_clock s + sb_us (sbp_client_secs p),
                  nm_pc := M_loop\<rparr>)
      | M_loop \<Rightarrow> Some (s\<lparr>nm_pc := if nb_clock s < nm_end s then M_build else M_exit\<rparr>)
      | M_build \<Rightarrow>
          (case next_request rnd (nb_clock s) (nb_msg s) of
             None \<Rightarrow> Some (s\<lparr>nm_pc := M_crash\<rparr>)
           | Some buf \<Rightarrow> Some (s\<lparr>nb_msg := buf, nm_pc := M_signal\<rparr>))
      | M_signal \<Rightarrow> map_option (\<lambda>ch. s\<lparr>nb_write_intr := ch, nm_pc := M_wait\<rparr>) (ch_signal (nb_write_intr s))
      | M_wait \<Rightarrow> map_option (\<lambda>ch. s\<lparr>nb_read_intr := ch, nm_pc := M_success\<rparr>) (ch_wait (nb_read_intr s))
      | M_success \<Rightarrow> Some (s\<lparr>nm_pc := if nb_read_success s then M_account else M_exit\<rparr>)
      | M_account \<Rightarrow>
          (case validate_message (nb_msg s) (nb_msg_size s) \<bind>
                  (\<lambda>valid. load64 (nb_msg s) off_timestamp) of
             None \<Rightarrow> Some (s\<lparr>nm_pc := M_crash\<rparr>)
           | Some sent_at \<Rightarrow>
               Some (s\<lparr>nm_lat := if length (nm_lat s) < MAX_LATENCIES
                                 then nm_lat s @ [nb_clock s - sent_at] else nm_lat s,
                       nm_ops := nm_ops s + 1, nm_bytes := nm_bytes s + nb_msg_size s, nm_pc := M_loop\<rparr>))
      | M_exit \<Rightarrow> Some (s\<lparr>nb_should_exit := True, nm_pc := M_notify_read\<rparr>)
      | M_notify_read \<Rightarrow> map_option (\<lambda>ch. s\<lparr>nb_read_intr := ch, nm_pc := M_notify_write\<rparr>) (ch_signal (nb_read_intr s))
      | M_notify_write \<Rightarrow> map_option (\<lambda>ch. s\<lparr>nb_write_intr := ch, nm_pc := M_join\<rparr>) (ch_signal (nb_write_intr s))
      | M_join \<Rightarrow> if nt_pc s = T_done then Some (s\<lparr>nm_pc := M_stats\<rparr>) else None
      | M_stats \<Rightarrow>
          (case run_report (sbp_cpu p) (sbp_client_secs p) (nm_lat s) (nm_ops s) (nm_bytes s) of
             None \<Rightarrow> Some (s\<lparr>nm_pc := M_crash\<rparr>)
           | Some st \<Rightarrow> Some (s\<lparr>nm_report := Some st, nm_pc := M_done\<rparr>))
      | _ \<Rightarrow> None)"

subsection \<open>The system\<close>

inductive nb_step :: "sb_params \<Rightarrow> nb_state \<Rightarrow> nb_state \<Rightarrow> bool" for p where
  nb_server: "nb_server_move p alloc s = Some t \<Longrightarrow> nb_step p s t"
| nb_thread: "run_client_thread_step s = Some t \<Longrightarrow> nb_step p s t"
| nb_main: "0 \<le> rnd \<Longrightarrow> nb_main_step p alloc rnd s = Some t \<Longrightarrow> nb_step p s t"
| nb_tick: "nb_clock s \<le> now \<Longrightarrow> nb_step p s (s\<lparr>nb_clock := now\<rparr>)"
| nb_spurious_server: "ns_pc s = B_asleep \<Longrightarrow> nb_step p s (s\<lparr>ns_pc := B_reacquire\<rparr>)"
| nb_spurious_thread: "nt_pc s = T_asleep \<Longrightarrow> nb_step p s (s\<lparr>nt_pc := T_reacquire\<rparr>)"

definition nb_zero :: "nat \<Rightarrow> NonBlockingRingBuffer" where
  "nb_zero n = \<lparr>nb_mutex = None, nb_read_pos = 0, nb_write_pos = 0, nb_size = 0,
     nb_message_available = False, nb_response_available = False, nb_message_processed = False,
     nb_ready = False, nb_buffer = replicate n 0\<rparr>"

definition nb_boot :: "sb_params \<Rightarrow> nb_state \<Rightarrow> bool" where
  "nb_boot p s \<longleftrightarrow> ns_pc s = BI_sync \<and> nb_ring s = nb_zero (unat (sbp_size p)) \<and>
     nm_pc s = M_ready \<and> nt_pc s = T_none \<and> ch_quiet (nb_read_intr s) \<and> ch_quiet (nb_write_intr s) \<and>
     \<not> nb_should_exit s \<and>
     length (ns_buf s) = unat MAX_MSG_SIZE \<and> length (nb_msg s) = unat MAX_MSG_SIZE \<and>
     nm_ops s = 0 \<and> nm_bytes s = 0 \<and> nm_lat s = [] \<and>
     nb_sent s = [] \<and> nb_served s = [] \<and> nb_rcvd s = []"

end
