(* ===== verification/Shm_Nonblocking_Proofs.thy ===== *)
theory Shm_Nonblocking_Proofs
  imports Shm_Nonblocking Shm_Blocking_Proofs
begin

section \<open>Shared memory with notification: the client's two threads act as one\<close>

text \<open>
  The worker and the main thread together are simulated by the client of the blocking backend
  (\<open>nb_abs\<close>): while one of them works the other waits on an interrupt (\<open>hand\<close>). So the invariant of that
  backend holds here too, and with it the echo protocol, as long as the server runs and the main thread is
  in its benchmark loop. What happens outside of that is stated at the end.
\<close>

subsection \<open>The client's two threads as the client of the blocking backend\<close>

definition ring_abs :: "NonBlockingRingBuffer \<Rightarrow> BlockingRingBuffer" where
  "ring_abs rb = \<lparr>sb_mutex = nb_mutex rb, sb_read_pos = nb_read_pos rb, sb_write_pos = nb_write_pos rb,
     sb_size = nb_size rb, sb_message_available = nb_message_available rb,
     sb_response_available = nb_response_available rb, sb_ready = nb_ready rb, sb_buffer = nb_buffer rb\<rparr>"

text \<open>The place of the pair: the worker's while the main thread waits for it, else the main thread's.\<close>

fun worker_place :: "nb_thread_pc \<Rightarrow> bool \<Rightarrow> sb_client_pc" where
  "worker_place T_loop asked = (if asked then D_lock else D_account)"
| "worker_place T_wait asked = (if asked then D_lock else D_account)"
| "worker_place T_lock asked = D_lock"
| "worker_place T_write asked = D_write"
| "worker_place T_flag asked = D_flag"
| "worker_place T_signal asked = D_signal"
| "worker_place T_check asked = D_check"
| "worker_place T_test asked = D_test"
| "worker_place T_asleep asked = D_asleep"
| "worker_place T_reacquire asked = D_reacquire"
| "worker_place T_read asked = D_read"
| "worker_place T_success asked = D_clear"
| "worker_place T_size asked = D_clear"
| "worker_place T_clear asked = D_clear"
| "worker_place T_unlock asked = D_unlock"
| "worker_place T_notify asked = D_account"
| "worker_place _ asked = D_abandon"

fun pair_place :: "nb_main_pc \<Rightarrow> nb_thread_pc \<Rightarrow> bool \<Rightarrow> sb_client_pc" where
  "pair_place M_ready w asked = DI_ready"
| "pair_place M_malloc w asked = D_malloc"
| "pair_place M_create w asked = D_malloc"
| "pair_place M_start w asked = D_malloc"
| "pair_place M_loop w asked = D_loop"
| "pair_place M_build w asked = D_build"
| "pair_place M_signal w asked = D_lock"
| "pair_place M_wait w asked = worker_place w asked"
| "pair_place M_success w asked = D_account"
| "pair_place M_account w asked = D_account"
| "pair_place M_crash w asked = D_crash"
| "pair_place _ w asked = D_done"

definition nb_abs :: "nb_state \<Rightarrow> sb_state" where
  "nb_abs s = \<lparr>sb_ring = ring_abs (nb_ring s), sb_clock = nb_clock s,
     bs_pc = ns_pc s, bs_end = ns_end s, bs_buf = ns_buf s, bs_msg_size = ns_msg_size s,
     bc_pc = pair_place (nm_pc s) (nt_pc s) (ch_raised (nb_write_intr s)), bc_end = nm_end s, bc_buf = nb_msg s,
     bc_msg_size = (if nt_pc s = T_success \<or> nt_pc s = T_size then nt_msg_size s else nb_msg_size s),
     bc_ops = nm_ops s, bc_bytes = nm_bytes s, bc_lat = nm_lat s, bc_report = nm_report s,
     hist_sent = nb_sent s, hist_served = nb_served s, hist_rcvd = nb_rcvd s\<rparr>"

text \<open>The main thread is still in its benchmark loop.\<close>

definition nb_in_loop :: "nb_main_pc \<Rightarrow> bool" where
  "nb_in_loop pc \<longleftrightarrow> pc \<in> {M_ready, M_malloc, M_create, M_start, M_loop, M_build, M_signal, M_wait, M_success, M_account}"

text \<open>How the two threads hand the block to each other.\<close>

definition hand ::
  "nb_main_pc \<Rightarrow> nb_thread_pc \<Rightarrow> channel \<Rightarrow> channel \<Rightarrow> bool \<Rightarrow> bool \<Rightarrow> bool \<Rightarrow> bool" where
  "hand m w wi ri ok success exiting \<longleftrightarrow> \<not> exiting \<and>
     (if m = M_wait then
        (if w = T_loop \<or> w = T_wait
         then ch_raised wi \<and> ch_quiet ri \<or> ch_quiet wi \<and> ch_raised ri \<and> success
         else w \<in> {T_lock, T_write, T_flag, T_signal, T_check, T_test, T_asleep, T_reacquire, T_read,
                T_success, T_size, T_clear, T_unlock, T_notify} \<and>
              ch_quiet wi \<and> ch_quiet ri \<and> (w = T_success \<longrightarrow> ok) \<and>
              (w \<in> {T_size, T_clear, T_unlock, T_notify} \<longrightarrow> success))
      else ch_quiet wi \<and> ch_quiet ri \<and>
           (if m \<in> {M_ready, M_malloc, M_create} then w = T_none else w = T_loop \<or> w = T_wait) \<and>
           (m = M_success \<or> m = M_account \<longrightarrow> success))"

definition nb_handshake :: "nb_state \<Rightarrow> bool" where
  "nb_handshake s \<longleftrightarrow> hand (nm_pc s) (nt_pc s) (nb_write_intr s) (nb_read_intr s) (nt_ok s) (nb_read_success s) (nb_should_exit s)"

definition nb_inv :: "sb_params \<Rightarrow> nb_state \<Rightarrow> bool" where
  "nb_inv p s \<longleftrightarrow> nb_in_loop (nm_pc s) \<and> nb_handshake s \<and> sb_inv p (nb_abs s)"

definition nb_live :: "nb_state \<Rightarrow> bool" where
  "nb_live s \<longleftrightarrow> nb_in_loop (nm_pc s) \<and> sb_live (nb_abs s)"

lemma ring_abs_simps [simp]:
  "ring_abs (rb\<lparr>nb_mutex := m\<rparr>) = (ring_abs rb)\<lparr>sb_mutex := m\<rparr>"
  "ring_abs (rb\<lparr>nb_read_pos := r\<rparr>) = (ring_abs rb)\<lparr>sb_read_pos := r\<rparr>"
  "ring_abs (rb\<lparr>nb_write_pos := w\<rparr>) = (ring_abs rb)\<lparr>sb_write_pos := w\<rparr>"
  "ring_abs (rb\<lparr>nb_size := z\<rparr>) = (ring_abs rb)\<lparr>sb_size := z\<rparr>"
  "ring_abs (rb\<lparr>nb_message_available := b\<rparr>) = (ring_abs rb)\<lparr>sb_message_available := b\<rparr>"
  "ring_abs (rb\<lparr>nb_response_available := b\<rparr>) = (ring_abs rb)\<lparr>sb_response_available := b\<rparr>"
  "ring_abs (rb\<lparr>nb_ready := b\<rparr>) = (ring_abs rb)\<lparr>sb_ready := b\<rparr>"
  "ring_abs (rb\<lparr>nb_buffer := buf\<rparr>) = (ring_abs rb)\<lparr>sb_buffer := buf\<rparr>"
  by (simp_all add: ring_abs_def)

lemma ring_abs_select [simp]:
  "sb_mutex (ring_abs rb) = nb_mutex rb" "sb_read_pos (ring_abs rb) = nb_read_pos rb"
  "sb_write_pos (ring_abs rb) = nb_write_pos rb" "sb_size (ring_abs rb) = nb_size rb"
  "sb_message_available (ring_abs rb) = nb_message_available rb"
  "sb_response_available (ring_abs rb) = nb_response_available rb"
  "sb_ready (ring_abs rb) = nb_ready rb" "sb_buffer (ring_abs rb) = nb_buffer rb"
  by (simp_all add: ring_abs_def)

lemma ring_abs_ops:
  "sb_ring_buffer_read (ring_abs rb) data n =
     map_option (\<lambda>(ok, rb', d, k). (ok, ring_abs rb', d, k)) (nb_ring_buffer_read rb data n)"
  "sb_ring_buffer_write (ring_abs rb) data n =
     map_option (\<lambda>(ok, rb'). (ok, ring_abs rb')) (nb_ring_buffer_write rb data n)"
  "mutex_lock who (ring_abs rb) = map_option ring_abs (nb_mutex_lock who rb)"
  "mutex_unlock (ring_abs rb) = ring_abs (nb_mutex_unlock rb)"
  by (simp_all add: sb_ring_buffer_read_def nb_ring_buffer_read_def sb_ring_buffer_write_def
      nb_ring_buffer_write_def mutex_lock_def nb_mutex_lock_def mutex_unlock_def nb_mutex_unlock_def
      option.map_comp comp_def split_def)

lemma nb_handshake_asleep: "nb_handshake s \<Longrightarrow> nt_pc s = T_asleep \<Longrightarrow> nm_pc s = M_wait"
  by (auto simp: nb_handshake_def hand_def split: if_splits)

lemma worker_asleep: "worker_place w asked = D_asleep \<longleftrightarrow> w = T_asleep"
  by (cases w) auto

lemma pair_asleep: "nb_handshake s \<Longrightarrow> bc_pc (nb_abs s) = D_asleep \<longleftrightarrow> nt_pc s = T_asleep"
  by (cases "nm_pc s") (auto simp: nb_abs_def nb_handshake_def hand_def worker_asleep split: if_splits)

lemma nb_client_signal_abs:
  assumes "nb_handshake s"
  shows "nb_abs (nb_client_cond_signal s) = client_cond_signal (nb_abs s) \<and> nb_handshake (nb_client_cond_signal s)"
proof (cases "nt_pc s = T_asleep")
  case True
  then have "nm_pc s = M_wait" by (rule nb_handshake_asleep [OF assms])
  then show ?thesis
    using True assms by (simp add: nb_client_cond_signal_def client_cond_signal_def nb_abs_def nb_handshake_def hand_def)
next
  case False
  then have "bc_pc (nb_abs s) \<noteq> D_asleep" using pair_asleep [OF assms] by simp
  then show ?thesis using False assms by (simp add: nb_client_cond_signal_def client_cond_signal_def)
qed

lemma nb_server_signal_abs:
  "nb_abs (nb_server_cond_signal s) = server_cond_signal (nb_abs s)"
  "nb_handshake (nb_server_cond_signal s) = nb_handshake s" "nm_pc (nb_server_cond_signal s) = nm_pc s"
  "nt_pc (nb_server_cond_signal s) = nt_pc s"
  by (simp_all add: nb_server_cond_signal_def server_cond_signal_def nb_abs_def nb_handshake_def)

text \<open>The server's fields do not matter to the client's two threads.\<close>

lemma nb_handshake_server [simp]:
  "nb_handshake (s\<lparr>ns_pc := pc\<rparr>) = nb_handshake s"
  "nb_handshake (s\<lparr>nb_ring := rb\<rparr>) = nb_handshake s"
  "nb_handshake (s\<lparr>ns_buf := buf\<rparr>) = nb_handshake s"
  "nb_handshake (s\<lparr>ns_msg_size := n\<rparr>) = nb_handshake s"
  "nb_handshake (s\<lparr>ns_end := e\<rparr>) = nb_handshake s"
  "nb_handshake (s\<lparr>nb_served := h\<rparr>) = nb_handshake s"
  "nb_handshake (s\<lparr>nb_clock := c\<rparr>) = nb_handshake s"
  by (simp_all add: nb_handshake_def)

lemma nb_abs_server [simp]:
  "nb_abs (s\<lparr>ns_pc := pc\<rparr>) = (nb_abs s)\<lparr>bs_pc := pc\<rparr>"
  "nb_abs (s\<lparr>nb_ring := rb\<rparr>) = (nb_abs s)\<lparr>sb_ring := ring_abs rb\<rparr>"
  "nb_abs (s\<lparr>ns_buf := buf\<rparr>) = (nb_abs s)\<lparr>bs_buf := buf\<rparr>"
  "nb_abs (s\<lparr>ns_msg_size := n\<rparr>) = (nb_abs s)\<lparr>bs_msg_size := n\<rparr>"
  "nb_abs (s\<lparr>ns_end := e\<rparr>) = (nb_abs s)\<lparr>bs_end := e\<rparr>"
  "nb_abs (s\<lparr>nb_served := h\<rparr>) = (nb_abs s)\<lparr>hist_served := h\<rparr>"
  "nb_abs (s\<lparr>nb_clock := c\<rparr>) = (nb_abs s)\<lparr>sb_clock := c\<rparr>"
  by (simp_all add: nb_abs_def)

lemma nb_abs_select [simp]:
  "bs_pc (nb_abs s) = ns_pc s" "sb_ring (nb_abs s) = ring_abs (nb_ring s)" "bs_buf (nb_abs s) = ns_buf s"
  "bs_msg_size (nb_abs s) = ns_msg_size s" "bs_end (nb_abs s) = ns_end s" "sb_clock (nb_abs s) = nb_clock s"
  "hist_served (nb_abs s) = nb_served s" "hist_sent (nb_abs s) = nb_sent s" "hist_rcvd (nb_abs s) = nb_rcvd s"
  "bc_end (nb_abs s) = nm_end s" "bc_buf (nb_abs s) = nb_msg s" "bc_ops (nb_abs s) = nm_ops s"
  "bc_bytes (nb_abs s) = nm_bytes s" "bc_lat (nb_abs s) = nm_lat s"
  by (simp_all add: nb_abs_def)

lemma nb_server_abs:
  assumes "nb_server_step p alloc s = Some t" "nb_handshake s"
  shows "sb_server_step p alloc (nb_abs s) = Some (nb_abs t) \<and> nb_handshake t \<and> nm_pc t = nm_pc s"
proof (cases "ns_pc s = B_signal")
  case True
  then have t: "t = (nb_client_cond_signal s)\<lparr>ns_pc := B_release\<rparr>"
    using assms(1) by (simp add: nb_server_step_def)
  have "nm_pc (nb_client_cond_signal s) = nm_pc s" by (simp add: nb_client_cond_signal_def)
  then show ?thesis
    using True nb_client_signal_abs [OF assms(2)] by (simp add: t sb_server_step_def)
next
  case False
  then show ?thesis
    using assms
    by (cases "ns_pc s")
      (auto simp: nb_server_step_def sb_server_step_def ring_abs_ops Let_def split: option.splits if_splits)
qed

lemma nb_setup_abs:
  "sb_setup_step p pc (ring_abs rb) = (ring_abs (fst (nb_setup_step p pc rb)), snd (nb_setup_step p pc rb))"
  by (cases pc) simp_all

lemma nb_server_move_abs:
  assumes "nb_server_move p alloc s = Some t" "nb_handshake s" "sb_live (nb_abs s)"
  shows "sb_server_move p alloc (nb_abs s) = Some (nb_abs t) \<and> nb_handshake t \<and> nm_pc t = nm_pc s"
proof (cases "sb_in_setup (ns_pc s)")
  case True
  then have "t = s\<lparr>nb_ring := fst (nb_setup_step p (ns_pc s) (nb_ring s)), ns_pc := snd (nb_setup_step p (ns_pc s) (nb_ring s))\<rparr>"
    using assms(1) by (simp add: nb_server_move_def split_def Let_def)
  then show ?thesis
    using True assms(2) by (simp add: sb_server_move_def nb_setup_abs)
next
  case False
  moreover have "\<not> sb_in_free (ns_pc s)" using assms(3) by (simp add: sb_live_def)
  ultimately show ?thesis
    using nb_server_abs [of p alloc s t] assms(1,2) by (simp add: nb_server_move_def sb_server_move_def)
qed


text \<open>A client step of the blocking backend never abandons an exchange while the server is live.\<close>

lemma sb_client_excl:
  assumes "sb_inv p s" "sb_size_ok p" "sb_live s" "\<not> sb_in_setup (bs_pc s)"
    and "sb_client_move p alloc rnd s = Some u" "0 \<le> rnd"
  shows "sb_inv p u \<and> echo_step0 (sb_abs s) (sb_abs u) \<and> bc_pc u \<noteq> D_abandon \<and> bc_pc u \<noteq> D_crash \<and> sb_live u"
proof -
  have pc: "bs_pc u = bs_pc s \<or> bs_pc u = B_reacquire" using sb_client_server_pc [OF assms(5)] by blast
  then have live: "sb_live u" using assms(3) by (auto simp: sb_live_def sb_in_free_def)
  have k: "sb_inv p u \<and> echo_step0 (sb_abs s) (sb_abs u)"
    using sb_step_inv [OF assms(1,2) sb_step.sb_client [OF assms(6,5)] assms(3) live] .
  moreover have "\<not> sb_in_setup (bs_pc u)" using pc assms(4) by (auto simp: sb_in_setup_def)
  ultimately have "sb_blocks_inv u" by (simp add: sb_inv_def sb_run_inv_split)
  then show ?thesis using k live by (simp add: sb_blocks_inv_def)
qed

lemmas nb_thread_defs = run_client_thread_step_def nb_handshake_def hand_def

text \<open>The worker's steps that only concern the two threads.\<close>

lemma nb_thread_local:
  assumes "run_client_thread_step s = Some t" "nb_handshake s"
    and "nt_pc s \<in> {T_loop, T_wait, T_success, T_size, T_notify}"
  shows "nb_handshake t \<and> nm_pc t = nm_pc s \<and> nb_abs t = nb_abs s"
proof -
  consider "nt_pc s = T_loop" | "nt_pc s = T_wait" | "nt_pc s = T_success" | "nt_pc s = T_size" | "nt_pc s = T_notify"
    using assms(3) by auto
  then show ?thesis
  proof cases
    case 1
    then have t: "t = s\<lparr>nt_pc := T_wait\<rparr>" using assms(1,2) by (simp add: nb_thread_defs)
    show ?thesis using 1 assms(2) by (cases "nm_pc s") (simp_all add: t nb_handshake_def hand_def nb_abs_def)
  next
    case 2
    then obtain ch where ch: "ch_wait (nb_write_intr s) = Some ch" "t = s\<lparr>nb_write_intr := ch, nt_pc := T_lock\<rparr>"
      using assms(1) by (auto simp: run_client_thread_step_def)
    have "ch_raised (nb_write_intr s) \<and> ch_quiet (nb_read_intr s) \<and> nm_pc s = M_wait"
      using assms(2) 2 ch(1) intr.quiet_blocks [of "nb_write_intr s"] by (auto simp: nb_handshake_def hand_def split: if_splits)
    moreover then have "ch_quiet ch" using intr.raised_wait [of "nb_write_intr s"] ch(1) by auto
    ultimately show ?thesis using 2 assms(2) by (simp add: ch(2) nb_handshake_def hand_def nb_abs_def)
  next
    case 3
    then have t: "t = s\<lparr>nb_read_success := nt_ok s, nt_pc := T_size\<rparr>" using assms(1) by (simp add: run_client_thread_step_def)
    have "nm_pc s = M_wait" using 3 assms(2) by (simp add: nb_handshake_def hand_def split: if_splits)
    then show ?thesis using 3 assms(2) by (simp add: t nb_handshake_def hand_def nb_abs_def)
  next
    case 4
    then have t: "t = s\<lparr>nb_msg_size := nt_msg_size s, nt_pc := T_clear\<rparr>" using assms(1) by (simp add: run_client_thread_step_def)
    have "nm_pc s = M_wait" using 4 assms(2) by (simp add: nb_handshake_def hand_def split: if_splits)
    then show ?thesis using 4 assms(2) by (simp add: t nb_handshake_def hand_def nb_abs_def)
  next
    case 5
    then obtain ch where ch: "ch_signal (nb_read_intr s) = Some ch" "t = s\<lparr>nb_read_intr := ch, nt_pc := T_loop\<rparr>"
      using assms(1) by (auto simp: run_client_thread_step_def)
    have q: "nm_pc s = M_wait" "ch_quiet (nb_read_intr s)" "ch_quiet (nb_write_intr s)" "nb_read_success s"
      using 5 assms(2) by (simp_all add: nb_handshake_def hand_def split: if_splits)
    then have "ch_raised ch" "\<not> ch_raised (nb_write_intr s)"
      using intr.quiet_signal [of "nb_read_intr s"] intr.not_both ch(1) by auto
    then show ?thesis using 5 q assms(2) by (simp add: ch(2) nb_handshake_def hand_def nb_abs_def)
  qed
qed

text \<open>The worker's steps on the segment are the client's steps of the blocking backend.\<close>

lemma nb_thread_shared:
  assumes "run_client_thread_step s = Some t" "nb_handshake s"
    and "nt_pc s \<in> {T_lock, T_write, T_flag, T_signal, T_check, T_test, T_reacquire, T_read, T_clear, T_unlock}"
    and inv: "sb_inv p (nb_abs s)" "sb_size_ok p" "sb_live (nb_abs s)"
  shows "nb_handshake t \<and> nm_pc t = nm_pc s \<and> sb_client_move p True 0 (nb_abs s) = Some (nb_abs t)"
proof -
  have w: "nm_pc s = M_wait" using assms(2,3) by (auto simp: nb_handshake_def hand_def split: if_splits)
  then have ns: "\<not> sb_in_setup (ns_pc s)"
    using inv(1) assms(3) by (auto simp: sb_inv_def sb_setup_inv_def nb_abs_def)
  have ex: "bc_pc u \<noteq> D_abandon \<and> bc_pc u \<noteq> D_crash" if "sb_client_move p True 0 (nb_abs s) = Some u" for u
    using sb_client_excl [OF inv _ that] ns by simp
  have h: "ch_quiet (nb_write_intr s)" "ch_quiet (nb_read_intr s)" "\<not> nb_should_exit s"
      "nt_pc s \<in> {T_clear, T_unlock} \<longrightarrow> nb_read_success s"
    using assms(2,3) w by (auto simp: nb_handshake_def hand_def split: if_splits)
  have c: "bc_pc (nb_abs s) = worker_place (nt_pc s) False"
    using intr.not_both [OF h(1)] w by (simp add: nb_abs_def)
  have n: "\<not> ch_raised (nb_write_intr s)" using intr.not_both [OF h(1)] .
  note defs = nb_handshake_def hand_def nb_abs_def
  note client = sb_client_move_def sb_client_step_def ring_abs_ops c
  consider (lck) "nt_pc s = T_lock" | (rel) "nt_pc s = T_reacquire" | (flag) "nt_pc s = T_flag" | (clr) "nt_pc s = T_clear"
    | (unl) "nt_pc s = T_unlock" | (tst) "nt_pc s = T_test"
    | (sig) "nt_pc s = T_signal" | (chk) "nt_pc s = T_check" | (wr) "nt_pc s = T_write" | (rd) "nt_pc s = T_read"
    using assms(3) by auto
  then show ?thesis
  proof cases
    case lck
    then obtain rb where rb: "nb_mutex_lock Client (nb_ring s) = Some rb" "t = s\<lparr>nb_ring := rb, nt_pc := T_write\<rparr>"
      using assms(1) by (auto simp: run_client_thread_step_def)
    have "sb_client_move p True 0 (nb_abs s) = Some ((nb_abs s)\<lparr>sb_ring := ring_abs rb, bc_pc := D_write\<rparr>)"
      using rb(1) lck by (simp add: client)
    then show ?thesis using lck h w by (simp add: rb(2)) (simp add: defs)
  next
    case rel
    then obtain rb where rb: "nb_mutex_lock Client (nb_ring s) = Some rb" "t = s\<lparr>nb_ring := rb, nt_pc := T_test\<rparr>"
      using assms(1) by (auto simp: run_client_thread_step_def)
    have "sb_client_move p True 0 (nb_abs s) = Some ((nb_abs s)\<lparr>sb_ring := ring_abs rb, bc_pc := D_test\<rparr>)"
      using rb(1) rel by (simp add: client)
    then show ?thesis using rel h w by (simp add: rb(2)) (simp add: defs)
  next
    case flag
    then have t: "t = s\<lparr>nb_ring := (nb_ring s)\<lparr>nb_message_available := True\<rparr>, nt_pc := T_signal\<rparr>"
      using assms(1) by (simp add: run_client_thread_step_def)
    have "sb_client_move p True 0 (nb_abs s)
        = Some ((nb_abs s)\<lparr>sb_ring := (ring_abs (nb_ring s))\<lparr>sb_message_available := True\<rparr>, bc_pc := D_signal\<rparr>)"
      using flag by (simp add: client)
    then show ?thesis using flag h w by (simp add: t) (simp add: defs)
  next
    case clr
    then have t: "t = s\<lparr>nb_ring := (nb_ring s)\<lparr>nb_response_available := False\<rparr>, nt_pc := T_unlock\<rparr>"
      using assms(1) by (simp add: run_client_thread_step_def)
    have "sb_client_move p True 0 (nb_abs s)
        = Some ((nb_abs s)\<lparr>sb_ring := (ring_abs (nb_ring s))\<lparr>sb_response_available := False\<rparr>, bc_pc := D_unlock\<rparr>)"
      using clr by (simp add: client)
    then show ?thesis using clr h w by (simp add: t) (simp add: defs)
  next
    case unl
    then have t: "t = s\<lparr>nb_ring := nb_mutex_unlock (nb_ring s), nt_pc := T_notify\<rparr>"
      using assms(1) by (simp add: run_client_thread_step_def)
    have "sb_client_move p True 0 (nb_abs s)
        = Some ((nb_abs s)\<lparr>sb_ring := ring_abs (nb_mutex_unlock (nb_ring s)), bc_pc := D_account\<rparr>)"
      using unl by (simp add: client)
    then show ?thesis using unl h w by (simp add: t) (simp add: defs)
  next
    case tst
    show ?thesis
    proof (cases "nb_response_available (nb_ring s)")
      case True
      then have t: "t = s\<lparr>nt_pc := T_read\<rparr>" using tst assms(1) by (simp add: run_client_thread_step_def)
      have "sb_client_move p True 0 (nb_abs s) = Some ((nb_abs s)\<lparr>bc_pc := D_read\<rparr>)"
        using tst True by (simp add: client)
      then show ?thesis using tst h w by (simp add: t) (simp add: defs)
    next
      case False
      then have t: "t = s\<lparr>nb_ring := nb_mutex_unlock (nb_ring s), nt_pc := T_asleep\<rparr>"
        using tst assms(1) by (simp add: run_client_thread_step_def)
      have "sb_client_move p True 0 (nb_abs s)
          = Some ((nb_abs s)\<lparr>sb_ring := ring_abs (nb_mutex_unlock (nb_ring s)), bc_pc := D_asleep\<rparr>)"
        using tst False by (simp add: client)
      then show ?thesis using tst h w by (simp add: t) (simp add: defs)
    qed
  next
    case sig
    then have t: "t = (nb_server_cond_signal s)\<lparr>nt_pc := T_check\<rparr>" using assms(1) by (simp add: run_client_thread_step_def)
    have "sb_client_move p True 0 (nb_abs s) = Some ((nb_abs (nb_server_cond_signal s))\<lparr>bc_pc := D_check\<rparr>)"
      using sig by (simp add: client nb_server_signal_abs)
    then show ?thesis using sig h w by (simp add: t) (simp add: defs nb_server_cond_signal_def)
  next
    case chk
    have m: "sb_client_move p True 0 (nb_abs s)
        = Some ((nb_abs s)\<lparr>bc_pc := if nb_ready (nb_ring s) then D_test else D_abandon\<rparr>)"
      using chk by (simp add: client)
    then have r: "nb_ready (nb_ring s)" using ex [OF m] by (simp split: if_splits)
    then have t: "t = s\<lparr>nt_pc := T_test\<rparr>" using chk assms(1) by (simp add: run_client_thread_step_def)
    show ?thesis using chk h w m r by (simp add: t) (simp add: defs)
  next
    case wr
    let ?nb = "load32 (nb_msg s) off_size \<bind>
        (\<lambda>n. nb_ring_buffer_write (nb_ring s) (nb_msg s) (ucast n) \<bind> (\<lambda>(ok, rb). Some (n, ok, rb)))"
    let ?sb = "load32 (nb_msg s) off_size \<bind>
        (\<lambda>n. sb_ring_buffer_write (ring_abs (nb_ring s)) (nb_msg s) (ucast n) \<bind> (\<lambda>(ok, rb). Some (n, ok, rb)))"
    have e: "?sb = map_option (\<lambda>(n, ok, rb). (n, ok, ring_abs rb)) ?nb"
      by (simp add: ring_abs_ops split: bind_splits)
    have m: "sb_client_move p True 0 (nb_abs s) =
        (case ?sb of
           None \<Rightarrow> Some ((nb_abs s)\<lparr>bc_pc := D_crash\<rparr>)
         | Some (n, ok, rb) \<Rightarrow>
             Some (if ok then (nb_abs s)\<lparr>sb_ring := rb, bc_pc := D_flag,
                         hist_sent := hist_sent (nb_abs s) @ [take (unat n) (bc_buf (nb_abs s))]\<rparr>
                   else (nb_abs s)\<lparr>sb_ring := rb, bc_pc := D_abandon\<rparr>))"
      using wr by (simp add: sb_client_move_def sb_client_step_def c)
    show ?thesis
    proof (cases ?nb)
      case None
      then show ?thesis using m ex e by simp
    next
      case (Some x)
      obtain n ok rb where x: "x = (n, ok, rb)" by (cases x)
      have m': "sb_client_move p True 0 (nb_abs s) =
             Some (if ok then (nb_abs s)\<lparr>sb_ring := ring_abs rb, bc_pc := D_flag,
                         hist_sent := nb_sent s @ [take (unat n) (nb_msg s)]\<rparr>
                   else (nb_abs s)\<lparr>sb_ring := ring_abs rb, bc_pc := D_abandon\<rparr>)"
        using m e Some x by simp
      then have ok: "ok" using ex [OF m'] by (simp split: if_splits)
      then have t: "t = s\<lparr>nb_ring := rb, nt_pc := T_flag, nb_sent := nb_sent s @ [take (unat n) (nb_msg s)]\<rparr>"
        using assms(1) wr Some x by (simp add: run_client_thread_step_def)
      show ?thesis using wr h w m' ok by (simp add: t) (simp add: defs)
    qed
  next
    case rd
    let ?nb = "nb_ring_buffer_read (nb_ring s) (nb_msg s) MAX_MSG_SIZE"
    show ?thesis
    proof (cases ?nb)
      case None
      then have "sb_client_move p True 0 (nb_abs s) = Some ((nb_abs s)\<lparr>bc_pc := D_crash\<rparr>)"
        using rd by (simp add: client)
      then show ?thesis using ex by force
    next
      case (Some x)
      obtain ok rb buf n where x: "x = (ok, rb, buf, n)" by (cases x)
      have m: "sb_client_move p True 0 (nb_abs s) =
          Some (if ok then (nb_abs s)\<lparr>sb_ring := ring_abs rb, bc_buf := buf, bc_msg_size := n, bc_pc := D_clear,
                         hist_rcvd := nb_rcvd s @ [take (unat n) buf]\<rparr>
                else (nb_abs s)\<lparr>sb_ring := ring_abs rb, bc_buf := buf, bc_msg_size := n, bc_pc := D_abandon\<rparr>)"
        using rd Some x by (simp add: client Let_def)
      then have ok: "ok" using ex [OF m] by (simp split: if_splits)
      then have t: "t = s\<lparr>nb_ring := rb, nb_msg := buf, nt_ok := True, nt_msg_size := n, nt_pc := T_success,
          nb_rcvd := nb_rcvd s @ [take (unat n) buf]\<rparr>"
        using assms(1) rd Some x by (simp add: run_client_thread_step_def)
      show ?thesis using rd h w m ok by (simp add: t) (simp add: defs)
    qed
  qed
qed


text \<open>The thread cannot move before it is created, and its other places are excluded by the handshake.\<close>

lemma nb_thread_abs:
  assumes "run_client_thread_step s = Some t" "nb_inv p s" "sb_size_ok p" "sb_live (nb_abs s)"
  shows "nb_inv p t \<and> echo_step0 (sb_abs (nb_abs s)) (sb_abs (nb_abs t))"
proof -
  have i: "nb_handshake s" "sb_inv p (nb_abs s)" "nb_in_loop (nm_pc s)" using assms(2) by (simp_all add: nb_inv_def)
  have "nt_pc s \<in> {T_loop, T_wait, T_success, T_size, T_notify} \<or>
      nt_pc s \<in> {T_lock, T_write, T_flag, T_signal, T_check, T_test, T_reacquire, T_read, T_clear, T_unlock}"
    using assms(1) i(1)
    by (cases "nt_pc s") (simp_all add: run_client_thread_step_def nb_handshake_def hand_def split: if_splits)
  then show ?thesis
  proof
    assume l: "nt_pc s \<in> {T_loop, T_wait, T_success, T_size, T_notify}"
    show ?thesis using nb_thread_local [OF assms(1) i(1) l] i by (simp add: nb_inv_def)
  next
    assume l: "nt_pc s \<in> {T_lock, T_write, T_flag, T_signal, T_check, T_test, T_reacquire, T_read, T_clear, T_unlock}"
    have m: "nb_handshake t \<and> nm_pc t = nm_pc s \<and> sb_client_move p True 0 (nb_abs s) = Some (nb_abs t)"
      by (rule nb_thread_shared [OF assms(1) i(1) l i(2) assms(3,4)])
    have "nm_pc s = M_wait" using i(1) l by (auto simp: nb_handshake_def hand_def split: if_splits)
    then have "\<not> sb_in_setup (ns_pc s)"
      using i(2) l by (auto simp: sb_inv_def sb_setup_inv_def nb_abs_def)
    then show ?thesis
      using sb_client_excl [OF i(2) assms(3,4) _ m [THEN conjunct2, THEN conjunct2]] m i(3) by (simp add: nb_inv_def)
  qed
qed

text \<open>Before the first exchange the client's own fields do not matter.\<close>

lemma sb_inv_fresh:
  assumes "sb_inv p s" "bc_pc s = D_malloc" "length buf = unat MAX_MSG_SIZE"
  shows "sb_inv p (s\<lparr>bc_msg_size := n\<rparr>)" "sb_abs (s\<lparr>bc_msg_size := n\<rparr>) = sb_abs s"
    and "sb_inv p (s\<lparr>bc_ops := 0, bc_bytes := 0, bc_lat := [], bc_end := e, bc_pc := D_loop\<rparr>)"
    and "sb_abs (s\<lparr>bc_ops := 0, bc_bytes := 0, bc_lat := [], bc_end := e, bc_pc := D_loop\<rparr>) = sb_abs s"
proof -
  have r: "\<not> sb_in_setup (bs_pc s)" "sb_run_inv s"
    using assms(1,2) by (auto simp: sb_inv_def sb_setup_inv_def split: if_splits)
  note parts = sb_inv_def sb_run_inv_def sb_mutex_inv_def sb_wake_inv_def sb_blocks_inv_def sb_stats_inv_def
    sb_out_def client_out_def client_critical_def sb_abs_def sb_phase_def
  show "sb_inv p (s\<lparr>bc_msg_size := n\<rparr>)" "sb_abs (s\<lparr>bc_msg_size := n\<rparr>) = sb_abs s"
    using r assms(2) by (simp_all add: parts)
  show "sb_inv p (s\<lparr>bc_ops := 0, bc_bytes := 0, bc_lat := [], bc_end := e, bc_pc := D_loop\<rparr>)"
    "sb_abs (s\<lparr>bc_ops := 0, bc_bytes := 0, bc_lat := [], bc_end := e, bc_pc := D_loop\<rparr>) = sb_abs s"
    using r assms(2) by (simp_all add: parts)
qed

lemma nb_main_abs:
  assumes "nb_main_step p alloc rnd s = Some t" "0 \<le> rnd" "nb_inv p s" "sb_size_ok p" "sb_live (nb_abs s)"
    and "nb_in_loop (nm_pc t)"
  shows "nb_inv p t \<and> echo_step0 (sb_abs (nb_abs s)) (sb_abs (nb_abs t))"
proof -
  have i: "nb_handshake s" "sb_inv p (nb_abs s)" "nb_in_loop (nm_pc s)" using assms(3) by (simp_all add: nb_inv_def)
  have stutter: ?thesis if "nb_handshake t" "nb_abs t = nb_abs s"
    using that i(2) assms(6) by (simp add: nb_inv_def)
  have move: ?thesis if "nb_handshake t" "sb_client_move p alloc rnd (nb_abs s) = Some (nb_abs t)" "\<not> sb_in_setup (ns_pc s)"
    using sb_client_excl [OF i(2) assms(4,5) _ that(2) assms(2)] that(1,3) assms(6) by (simp add: nb_inv_def)
  have run: "\<not> sb_in_setup (ns_pc s)" if "bc_pc (nb_abs s) \<noteq> DI_ready"
    using that i(2) by (auto simp: sb_inv_def sb_setup_inv_def split: if_splits)
  show ?thesis
  proof (cases "nm_pc s")
    case M_ready
    show ?thesis
    proof (cases "nb_ready (nb_ring s)")
      case True
      then have t: "t = s\<lparr>nm_pc := M_malloc\<rparr>" using assms(1) M_ready by (simp add: nb_main_step_def)
      have m: "sb_client_move p alloc rnd (nb_abs s) = Some (nb_abs t)"
        using True M_ready i(1) by (simp add: t) (simp add: nb_abs_def sb_client_move_def sb_client_setup_step_def)
      have "\<not> sb_in_setup (ns_pc s)"
        using i(2) True by (auto simp: sb_inv_def sb_setup_inv_def sb_zero_def ring_abs_def)
      then show ?thesis using i(1) M_ready by (intro move [OF _ m]) (simp_all add: t nb_handshake_def hand_def)
    next
      case False
      then show ?thesis using assms(1,3) M_ready by (simp add: nb_main_step_def)
    qed
  next
    case M_malloc
    then have t: "t = s\<lparr>nm_pc := M_create\<rparr>"
      using assms(1,6) by (auto simp: nb_main_step_def nb_in_loop_def split: if_splits)
    show ?thesis using i(1) M_malloc by (intro stutter) (simp_all add: t nb_handshake_def hand_def nb_abs_def)
  next
    case M_create
    then have t: "t = s\<lparr>nb_msg_size := 0, nb_read_success := False, nb_should_exit := False,
                       nt_pc := T_loop, nm_pc := M_start\<rparr>"
      using assms(1,6) by (auto simp: nb_main_step_def nb_in_loop_def split: if_splits)
    have a: "nb_abs t = (nb_abs s)\<lparr>bc_msg_size := 0\<rparr>"
      using i(1) M_create by (simp add: t nb_abs_def nb_handshake_def hand_def)
    have l: "length (bc_buf (nb_abs s)) = unat MAX_MSG_SIZE"
      using i(2) by (auto simp: sb_inv_def sb_setup_inv_def sb_run_inv_def sb_blocks_inv_def split: if_splits)
    have "bc_pc (nb_abs s) = D_malloc" using M_create by (simp add: nb_abs_def)
    note f = sb_inv_fresh [OF i(2) this l]
    have "nb_handshake t" using i(1) M_create by (simp add: t nb_handshake_def hand_def)
    then show ?thesis using f(1,2) assms(6) by (simp add: nb_inv_def a)
  next
    case M_start
    then have t: "t = s\<lparr>nm_ops := 0, nm_bytes := 0, nm_lat := [],
        nm_end := nb_clock s + sb_us (sbp_client_secs p), nm_pc := M_loop\<rparr>"
      using assms(1) by (simp add: nb_main_step_def)
    have a: "nb_abs t = (nb_abs s)\<lparr>bc_ops := 0, bc_bytes := 0, bc_lat := [],
        bc_end := nb_clock s + sb_us (sbp_client_secs p), bc_pc := D_loop\<rparr>"
      by (simp add: t nb_abs_def)
    have l: "length (bc_buf (nb_abs s)) = unat MAX_MSG_SIZE"
      using i(2) by (auto simp: sb_inv_def sb_setup_inv_def sb_run_inv_def sb_blocks_inv_def split: if_splits)
    have "bc_pc (nb_abs s) = D_malloc" using M_start by (simp add: nb_abs_def)
    note f = sb_inv_fresh [OF i(2) this l]
    have "nb_handshake t" using i(1) M_start by (simp add: t nb_handshake_def hand_def)
    then show ?thesis using f(3,4) assms(6) by (simp add: nb_inv_def a)
  next
    case M_loop
    then have t: "t = s\<lparr>nm_pc := M_build\<rparr>" "nb_clock s < nm_end s"
      using assms(1,6) by (auto simp: nb_main_step_def nb_in_loop_def split: if_splits)
    have c: "bc_pc (nb_abs s) = D_loop" using M_loop by (simp add: nb_abs_def)
    then have "sb_client_move p alloc rnd (nb_abs s) = Some ((nb_abs s)\<lparr>bc_pc := D_build\<rparr>)"
      using t(2) by (simp add: sb_client_move_def sb_client_step_def)
    then have m: "sb_client_move p alloc rnd (nb_abs s) = Some (nb_abs t)" by (simp add: t nb_abs_def)
    show ?thesis using i(1) M_loop run c by (intro move [OF _ m]) (simp_all add: t nb_handshake_def hand_def)
  next
    case M_build
    obtain buf where b: "next_request rnd (nb_clock s) (nb_msg s) = Some buf" "t = s\<lparr>nb_msg := buf, nm_pc := M_signal\<rparr>"
      using assms(1,6) M_build by (auto simp: nb_main_step_def nb_in_loop_def split: option.splits)
    have c: "bc_pc (nb_abs s) = D_build" using M_build by (simp add: nb_abs_def)
    then have "sb_client_move p alloc rnd (nb_abs s) = Some ((nb_abs s)\<lparr>bc_buf := buf, bc_pc := D_lock\<rparr>)"
      using b(1) by (simp add: sb_client_move_def sb_client_step_def)
    then have m: "sb_client_move p alloc rnd (nb_abs s) = Some (nb_abs t)" by (simp add: b(2) nb_abs_def)
    show ?thesis using i(1) M_build run c by (intro move [OF _ m]) (simp_all add: b(2) nb_handshake_def hand_def)
  next
    case M_signal
    then have q: "ch_quiet (nb_write_intr s)" "ch_quiet (nb_read_intr s)" "nt_pc s = T_loop \<or> nt_pc s = T_wait"
      using i(1) by (simp_all add: nb_handshake_def hand_def)
    obtain ch where ch: "ch_signal (nb_write_intr s) = Some ch" "ch_raised ch" "t = s\<lparr>nb_write_intr := ch, nm_pc := M_wait\<rparr>"
      using assms(1) M_signal intr.quiet_signal [OF q(1)] by (auto simp: nb_main_step_def)
    show ?thesis
      using i(1) q ch(2) M_signal by (intro stutter) (auto simp: ch(3) nb_handshake_def hand_def nb_abs_def)
  next
    case M_wait
    then obtain ch where ch: "ch_wait (nb_read_intr s) = Some ch" "t = s\<lparr>nb_read_intr := ch, nm_pc := M_success\<rparr>"
      using assms(1) by (auto simp: nb_main_step_def)
    then have "\<not> ch_quiet (nb_read_intr s)" using intr.quiet_blocks [of "nb_read_intr s"] by auto
    then have q: "ch_quiet (nb_write_intr s)" "ch_raised (nb_read_intr s)" "nb_read_success s" "\<not> nb_should_exit s"
        "nt_pc s = T_loop \<or> nt_pc s = T_wait"
      using i(1) M_wait by (auto simp: nb_handshake_def hand_def split: if_splits)
    have "ch_quiet ch" using intr.raised_wait [OF q(2)] ch(1) by auto
    then show ?thesis
      using q intr.not_both [OF q(1)] M_wait by (intro stutter) (auto simp: ch(2) nb_handshake_def hand_def nb_abs_def)
  next
    case M_success
    then have "nb_read_success s" using i(1) by (simp add: nb_handshake_def hand_def)
    then have t: "t = s\<lparr>nm_pc := M_account\<rparr>" using assms(1) M_success by (simp add: nb_main_step_def)
    show ?thesis using i(1) M_success by (intro stutter) (simp_all add: t nb_handshake_def hand_def nb_abs_def)
  next
    case M_account
    then have c: "bc_pc (nb_abs s) = D_account" "nt_pc s \<noteq> T_success" "nt_pc s \<noteq> T_size"
      using i(1) by (auto simp: nb_abs_def nb_handshake_def hand_def)
    have "sb_run_inv (nb_abs s)" using i(2) run c(1) by (simp add: sb_inv_def)
    then have v: "validate_message (nb_msg s) (nb_msg_size s) = Some True"
      using sb_inv_valid(2) [of "nb_abs s"] c by (simp add: nb_abs_def)
    then obtain ts where ts: "load64 (nb_msg s) off_timestamp = Some ts" "t = s\<lparr>nm_lat := if length (nm_lat s) < MAX_LATENCIES
                                 then nm_lat s @ [nb_clock s - ts] else nm_lat s,
                       nm_ops := nm_ops s + 1, nm_bytes := nm_bytes s + nb_msg_size s, nm_pc := M_loop\<rparr>"
      using assms(1,6) M_account by (auto simp: nb_main_step_def nb_in_loop_def split: option.splits)
    have "bc_msg_size (nb_abs s) = nb_msg_size s" using c by (simp add: nb_abs_def)
    then have "sb_client_move p alloc rnd (nb_abs s) = Some ((nb_abs s)\<lparr>bc_lat := if length (nm_lat s) < MAX_LATENCIES
          then nm_lat s @ [nb_clock s - ts] else nm_lat s, bc_ops := nm_ops s + 1,
          bc_bytes := nm_bytes s + nb_msg_size s, bc_pc := D_loop\<rparr>)"
      using c(1) v ts(1) by (simp add: sb_client_move_def sb_client_step_def)
    then have m: "sb_client_move p alloc rnd (nb_abs s) = Some (nb_abs t)" using c by (simp add: ts(2) nb_abs_def)
    show ?thesis using i(1) M_account run c(1) by (intro move [OF _ m]) (simp_all add: ts(2) nb_handshake_def hand_def)
  qed (use i(3) in \<open>simp_all add: nb_in_loop_def\<close>)
qed


text \<open>The loop once left is never entered again, and a server that shuts down does not come back.\<close>

lemma nb_live_back:
  assumes "nb_step p s t" "nb_live t"
  shows "nb_live s"
proof -
  have "nb_in_loop (nm_pc s)"
    using assms
  proof cases
    case (nb_server alloc)
    then have "nm_pc t = nm_pc s"
      by (cases "ns_pc s")
        (auto simp: nb_server_move_def nb_server_step_def nb_free_server_step_def split_def Let_def
          nb_client_cond_signal_def nb_server_cond_signal_def split: if_splits option.splits)
    then show ?thesis using assms(2) by (simp add: nb_live_def)
  next
    case nb_thread
    then have "nm_pc t = nm_pc s"
      by (cases "nt_pc s")
        (auto simp: run_client_thread_step_def nb_server_cond_signal_def split: if_splits option.splits)
    then show ?thesis using assms(2) by (simp add: nb_live_def)
  next
    case (nb_main rnd alloc)
    then show ?thesis
      using assms(2) by (cases "nm_pc s")
        (auto simp: nb_main_step_def nb_live_def nb_in_loop_def split: if_splits option.splits)
  qed (use assms(2) in \<open>simp_all add: nb_live_def nb_abs_def\<close>)
  moreover have "sb_live (nb_abs s)"
  proof (rule ccontr)
    assume "\<not> sb_live (nb_abs s)"
    then have n: "sb_in_free (ns_pc s) \<or> ns_pc s = B_done" by (simp add: sb_live_def)
    have "sb_in_free (ns_pc t) \<or> ns_pc t = B_done"
      using assms(1)
    proof cases
      case (nb_server alloc)
      have "\<not> sb_in_setup (ns_pc s)" using n by (auto simp: sb_in_setup_def sb_in_free_def)
      then show ?thesis
        using nb_server n
        by (auto simp: nb_server_move_def sb_in_free_def nb_free_server_step_def nb_server_step_def
            nb_server_cond_signal_def nb_client_cond_signal_def split: if_splits)
    next
      case nb_thread
      then have "ns_pc t = ns_pc s \<or> ns_pc s = B_asleep"
        by (cases "nt_pc s")
          (auto simp: run_client_thread_step_def nb_server_cond_signal_def split: if_splits option.splits)
      then show ?thesis using n by (auto simp: sb_in_free_def)
    next
      case (nb_main rnd alloc)
      then have "ns_pc t = ns_pc s"
        by (cases "nm_pc s") (auto simp: nb_main_step_def split: if_splits option.splits)
      then show ?thesis using n by simp
    qed (use n in \<open>auto simp: sb_in_free_def\<close>)
    then show False using assms(2) by (auto simp: nb_live_def sb_live_def)
  qed
  ultimately show ?thesis by (simp add: nb_live_def)
qed

lemma nb_step_inv:
  assumes inv: "nb_inv p s" and step: "nb_step p s t" and live: "nb_live s" "nb_live t" and sz: "sb_size_ok p"
  shows "nb_inv p t \<and> echo_step0 (sb_abs (nb_abs s)) (sb_abs (nb_abs t))"
proof -
  have i: "nb_handshake s" "sb_inv p (nb_abs s)" "nb_in_loop (nm_pc s)" using inv by (simp_all add: nb_inv_def)
  have l: "sb_live (nb_abs s)" "sb_live (nb_abs t)" "nb_in_loop (nm_pc t)" using live by (simp_all add: nb_live_def)
  have sim: ?thesis if "nb_handshake t" "sb_step p (nb_abs s) (nb_abs t)"
    using that sb_step_inv [OF i(2) sz that(2) l(1,2)] l(3) by (simp add: nb_inv_def)
  show ?thesis
    using step
  proof cases
    case (nb_server alloc)
    then show ?thesis
      using nb_server_move_abs [OF nb_server i(1) l(1)] by (intro sim) (auto intro: sb_step.sb_server)
  next
    case nb_thread
    then show ?thesis by (rule nb_thread_abs [OF _ inv sz l(1)])
  next
    case (nb_main rnd alloc)
    then show ?thesis by (intro nb_main_abs [OF _ _ inv sz l(1,3)])
  next
    case (nb_tick now)
    then show ?thesis using i(1) sb_step.sb_tick [of "nb_abs s" now p] by (intro sim) simp_all
  next
    case nb_spurious_server
    then show ?thesis using i(1) sb_step.sb_spurious_server [of "nb_abs s" p] by (intro sim) simp_all
  next
    case nb_spurious_thread
    then have w: "nm_pc s = M_wait" using nb_handshake_asleep [OF i(1)] by blast
    then have "bc_pc (nb_abs s) = D_asleep" using nb_spurious_thread(2) by (simp add: nb_abs_def)
    then have "sb_step p (nb_abs s) ((nb_abs s)\<lparr>bc_pc := D_reacquire\<rparr>)" by (rule sb_step.sb_spurious_client)
    moreover have "nb_abs t = (nb_abs s)\<lparr>bc_pc := D_reacquire\<rparr>" using nb_spurious_thread w by (simp add: nb_abs_def)
    ultimately show ?thesis
      using i(1) nb_spurious_thread w by (intro sim) (simp_all add: nb_handshake_def hand_def)
  qed
qed

interpretation nb: echo_implementation "nb_step p" "\<lambda>s. nb_boot p s \<and> sb_size_ok p"
  "\<lambda>s. nb_live s \<and> sb_size_ok p" "nb_inv p" "\<lambda>s. sb_abs (nb_abs s)"
proof unfold_locales
  fix s assume b: "nb_boot p s \<and> sb_size_ok p"
  then have a: "sb_boot p (nb_abs s)"
    by (simp add: nb_boot_def sb_boot_def nb_zero_def sb_zero_def ring_abs_def nb_abs_def)
  then show "nb_inv p s"
    using b sb.start_inv [of p "nb_abs s"] by (simp add: nb_inv_def nb_boot_def nb_in_loop_def nb_handshake_def hand_def)
  show "sb_abs (nb_abs s) = echo_init" using a b sb.start_abs [of p "nb_abs s"] by simp
qed (use nb_step_inv nb_live_back in blast)+


subsection \<open>Somebody can move\<close>

lemma nb_server_stuck:
  assumes "nb_server_move p True s = None" "nb_handshake s" "sb_live (nb_abs s)"
  shows "sb_server_move p True (nb_abs s) = None"
proof -
  have n: "\<not> sb_in_setup (ns_pc s)" "\<not> sb_in_free (ns_pc s)"
    using assms(1,3) by (auto simp: nb_server_move_def sb_live_def split_def Let_def split: if_splits)
  then have "nb_server_step p True s = None" using assms(1) by (simp add: nb_server_move_def)
  then have "sb_server_step p True (nb_abs s) = None"
    using n by (cases "ns_pc s")
      (auto simp: nb_server_step_def sb_server_step_def ring_abs_ops Let_def sb_in_setup_def sb_in_free_def
        split: option.splits if_splits)
  then show ?thesis using n by (simp add: sb_server_move_def)
qed

lemma nb_worker_stuck:
  assumes "run_client_thread_step s = None" "nb_handshake s" "nm_pc s = M_wait" "\<not> ch_raised (nb_read_intr s)"
  shows "sb_client_move p True 0 (nb_abs s) = None"
proof -
  have h: "hand M_wait (nt_pc s) (nb_write_intr s) (nb_read_intr s) (nt_ok s) (nb_read_success s) (nb_should_exit s)"
    using assms(2,3) by (simp add: nb_handshake_def)
  have "nt_pc s \<noteq> T_loop" using assms(1) by (auto simp: run_client_thread_step_def)
  moreover have "nt_pc s \<noteq> T_wait"
  proof
    assume w: "nt_pc s = T_wait"
    then have "ch_raised (nb_write_intr s)" using h assms(4) by (simp add: hand_def)
    then show False using assms(1) w intr.raised_wait by (force simp: run_client_thread_step_def)
  qed
  ultimately have q: "ch_quiet (nb_write_intr s)" "ch_quiet (nb_read_intr s)"
    "nt_pc s \<in> {T_lock, T_write, T_flag, T_signal, T_check, T_test, T_asleep, T_reacquire, T_read,
                T_success, T_size, T_clear, T_unlock, T_notify}"
    using h by (simp_all add: hand_def)
  have "nt_pc s \<noteq> T_notify"
    using assms(1) intr.quiet_signal [OF q(2)] by (auto simp: run_client_thread_step_def)
  moreover have "nt_pc s \<notin> {T_write, T_flag, T_signal, T_check, T_test, T_read, T_success, T_size, T_clear, T_unlock}"
    using assms(1) by (intro notI, elim insertE emptyE) (simp_all add: run_client_thread_step_def split: option.splits if_splits prod.splits)
  ultimately have h: "nt_pc s \<in> {T_lock, T_asleep, T_reacquire}" "\<not> ch_raised (nb_write_intr s)"
    using q(3) intr.not_both [OF q(1)] by blast+
  then have "bc_pc (nb_abs s) = worker_place (nt_pc s) False" using assms(3) by (simp add: nb_abs_def)
  then show ?thesis
    using h assms(1)
    by (auto simp: run_client_thread_step_def sb_client_move_def sb_client_step_def ring_abs_ops)
qed

lemma hand_places:
  assumes "hand m w wi ri ok success exiting"
  shows "m \<noteq> M_wait \<Longrightarrow> w = T_none \<or> w = T_loop \<or> w = T_wait"
    and "m \<in> {M_build, M_success, M_account} \<Longrightarrow> w = T_loop \<or> w = T_wait"
    and "w \<notin> {T_abandon, T_fail, T_crash}"
  using assms by (simp_all add: hand_def split: if_splits) auto

lemma nb_main_moves:
  assumes "nb_handshake s" "nb_in_loop (nm_pc s)" "nm_pc s = M_wait \<longrightarrow> ch_raised (nb_read_intr s)"
  shows "nb_main_step p True 0 s \<noteq> None"
proof -
  consider "nm_pc s = M_signal" | "nm_pc s = M_wait"
    | "nm_pc s \<in> {M_ready, M_malloc, M_create, M_start, M_loop, M_build, M_success, M_account}"
    using assms(2) by (auto simp: nb_in_loop_def)
  then show ?thesis
  proof cases
    case 1
    then have "ch_quiet (nb_write_intr s)" using assms(1) by (simp add: nb_handshake_def hand_def)
    then show ?thesis using 1 intr.quiet_signal [of "nb_write_intr s"] by (auto simp: nb_main_step_def)
  next
    case 2
    then show ?thesis using assms(3) intr.raised_wait [of "nb_read_intr s"] by (auto simp: nb_main_step_def)
  next
    case 3
    then show ?thesis by (elim insertE emptyE) (simp_all add: nb_main_step_def split: option.split)
  qed
qed

subsection \<open>Properties\<close>

text \<open>C21: while the server runs and the client's main loop goes on, the notification backend, with two
  threads on the client's side, is a run of the echo protocol: the answers received are the requests sent, in
  order and byte for byte, the server took them in that order, and at most one is outstanding.\<close>

theorem notification_echo:
  assumes "reach (nb_step p) s0 s" "nb_boot p s0" "sb_size_ok p" "nb_live s"
  shows "reach echo_step echo_init (sb_abs (nb_abs s)) \<and>
    prefix (nb_rcvd s) (nb_served s) \<and> prefix (nb_served s) (nb_sent s) \<and>
    length (nb_sent s) \<le> Suc (length (nb_rcvd s))"
proof -
  have "echo_inv (sb_abs (nb_abs s))" using nb.reach_inv [of p s0 s] assms by blast
  then have "prefix (nb_rcvd s) (nb_served s) \<and> prefix (nb_served s) (nb_sent s) \<and>
      length (nb_sent s) \<le> Suc (length (nb_rcvd s))"
    using echo_inv_prefix [of "sb_abs (nb_abs s)"] by (simp add: sb_abs_def)
  then show ?thesis using nb.reach_abs [of p s0 s] assms by blast
qed

text \<open>The places where a thread touches the block, the size or the success flag the two share.\<close>

definition main_uses_block :: "nb_main_pc \<Rightarrow> bool" where
  "main_uses_block pc \<longleftrightarrow> pc \<in> {M_build, M_success, M_account}"

definition worker_uses_block :: "nb_thread_pc \<Rightarrow> bool" where
  "worker_uses_block pc \<longleftrightarrow> pc \<in> {T_write, T_fail, T_fail_size, T_read, T_success, T_size}"

text \<open>C22: ownership. While the server runs and the client's main loop goes on, the two interrupts hand the
  message block back and forth. Together they hold at most one signal, and only while the main thread waits
  and the worker is between two exchanges. Main thread and worker never use the block together,
  although no lock protects it; the worker never fails an exchange; no access leaves its block; what the
  main thread counts validates; and between exchanges its statistics are exact.\<close>

theorem notification_ownership:
  assumes "reach (nb_step p) s0 s" "nb_boot p s0" "sb_size_ok p" "nb_live s"
  shows "pending (nb_write_intr s) + pending (nb_read_intr s) \<le> 1 \<and>
    (0 < pending (nb_write_intr s) + pending (nb_read_intr s) \<longrightarrow> nm_pc s = M_wait \<and> nt_pc s \<in> {T_loop, T_wait}) \<and>
    \<not> (main_uses_block (nm_pc s) \<and> worker_uses_block (nt_pc s)) \<and>
    nt_pc s \<notin> {T_abandon, T_fail, T_crash} \<and> nm_pc s \<noteq> M_crash \<and> ns_pc s \<notin> {B_crash, B_read_failed} \<and>
    (nm_pc s = M_account \<longrightarrow> validate_message (nb_msg s) (nb_msg_size s) = Some True) \<and>
    (nm_pc s = M_loop \<longrightarrow> nm_ops s = word_of_nat (length (nb_rcvd s)) \<and>
       nm_bytes s = word_of_nat (sum_list (map length (nb_rcvd s))))"
proof -
  have "nb_inv p s" using nb.reach_inv [of p s0 s] assms by blast
  then have i: "nb_handshake s" "sb_inv p (nb_abs s)" "nb_in_loop (nm_pc s)" by (simp_all add: nb_inv_def)
  have sg: "pending (nb_write_intr s) + pending (nb_read_intr s) \<le> 1"
    "0 < pending (nb_write_intr s) + pending (nb_read_intr s) \<Longrightarrow> nm_pc s = M_wait \<and> nt_pc s \<in> {T_loop, T_wait}"
    using i(1) by (auto simp: nb_handshake_def hand_def ch_quiet_def ch_raised_def split: if_splits)
  have h: "main_uses_block (nm_pc s) \<Longrightarrow> nt_pc s = T_loop \<or> nt_pc s = T_wait"
    "nt_pc s \<notin> {T_abandon, T_fail, T_crash}" "nm_pc s \<noteq> M_crash"
    "nm_pc s = M_account \<Longrightarrow> nt_pc s \<noteq> T_success \<and> nt_pc s \<noteq> T_size"
    using hand_places [OF i(1) [unfolded nb_handshake_def]] i(3) by (auto simp: main_uses_block_def nb_in_loop_def)
  then have ex: "\<not> (main_uses_block (nm_pc s) \<and> worker_uses_block (nt_pc s))"
    by (auto simp: worker_uses_block_def)
  show ?thesis
  proof (cases "sb_in_setup (ns_pc s)")
    case True
    then have "bc_pc (nb_abs s) = DI_ready" using i(2) by (simp add: sb_inv_def sb_setup_inv_def)
    then have "nm_pc s \<noteq> M_loop" "nm_pc s \<noteq> M_account" by (auto simp: nb_abs_def)
    then show ?thesis using sg h(2,3) ex True by (auto simp: sb_in_setup_def)
  next
    case False
    then have r: "sb_run_inv (nb_abs s)" using i(2) by (simp add: sb_inv_def)
    then have b: "sb_blocks_inv (nb_abs s)" "sb_stats_inv (nb_abs s)" by (simp_all add: sb_run_inv_def)
    have v: "validate_message (nb_msg s) (nb_msg_size s) = Some True" if "nm_pc s = M_account"
      using sb_inv_valid(2) [OF r] h(4) [OF that] that by (simp add: nb_abs_def)
    have st: "nm_ops s = word_of_nat (length (nb_rcvd s)) \<and> nm_bytes s = word_of_nat (sum_list (map length (nb_rcvd s)))"
      if "nm_pc s = M_loop"
      using b(2) that by (simp add: sb_stats_inv_def nb_abs_def)
    have "ns_pc s \<notin> {B_crash, B_read_failed}" using b(1) by (simp add: sb_blocks_inv_def)
    then show ?thesis using sg h(2,3) ex v st by blast
  qed
qed

text \<open>C23: no deadlock. While the server runs and the client's loop goes on one of server, worker and main thread
  can move: no interrupt and no condition signal is lost.\<close>

theorem notification_no_deadlock:
  assumes "reach (nb_step p) s0 s" "nb_boot p s0" "sb_size_ok p" "nb_live s"
  shows "nb_server_move p True s \<noteq> None \<or> run_client_thread_step s \<noteq> None \<or> nb_main_step p True 0 s \<noteq> None"
proof -
  have "nb_inv p s" using nb.reach_inv [of p s0 s] assms by blast
  then have i: "nb_handshake s" "sb_inv p (nb_abs s)" "nb_in_loop (nm_pc s)" by (simp_all add: nb_inv_def)
  have l: "sb_live (nb_abs s)" using assms(4) by (simp add: nb_live_def)
  show ?thesis
  proof (cases "nm_pc s = M_wait \<and> \<not> ch_raised (nb_read_intr s)")
    case False
    then show ?thesis using nb_main_moves [OF i(1,3)] by blast
  next
    case w: True
    have pc: "bc_pc (nb_abs s) \<noteq> DI_ready" "bc_pc (nb_abs s) \<noteq> D_done"
      using w by (cases "nt_pc s"; simp add: nb_abs_def)+
    then have ns: "\<not> sb_in_setup (bs_pc (nb_abs s))" and r: "sb_run_inv (nb_abs s)"
      using i(2) by (auto simp: sb_inv_def sb_setup_inv_def split: if_splits)
    then show ?thesis
      using sb_can_move [OF r l ns pc(2), of p] nb_server_stuck [of p s, OF _ i(1) l] nb_worker_stuck [of s p, OF _ i(1)] w by auto
  qed
qed

text \<open>C24: a worker that gives up is never noticed. When its write fails it leaves its loop without raising the
  interrupt the main thread waits for; from then on the main thread stays in \<open>interrupt_wait\<close> for ever,
  past the end of its run.\<close>

theorem notification_lost_worker:
  assumes "nm_pc s = M_wait" "nt_pc s = T_write" "ch_quiet (nb_read_intr s)"
    and "load32 (nb_msg s) off_size = Some n"
    and "nb_ring_buffer_write (nb_ring s) (nb_msg s) (ucast n) = Some (False, rb)"
  shows "\<exists>u. reach (nb_step p) s u \<and> nt_pc u = T_done \<and>
    (\<forall>t. reach (nb_step p) u t \<longrightarrow> nm_pc t = M_wait \<and> (\<forall>alloc rnd. nb_main_step p alloc rnd t = None))"
proof -
  define u1 where "u1 = s\<lparr>nb_ring := rb, nt_pc := T_abandon\<rparr>"
  define u where "u = u1\<lparr>nb_ring := nb_mutex_unlock rb, nt_pc := T_done\<rparr>"
  have "run_client_thread_step s = Some u1"
    using assms(2,4,5) by (simp add: run_client_thread_step_def u1_def)
  moreover have "run_client_thread_step u1 = Some u" by (simp add: run_client_thread_step_def u1_def u_def)
  ultimately have r: "reach (nb_step p) s u" by (blast intro: reach.intros nb_step.nb_thread)
  have gone: "nm_pc t = M_wait \<and> nt_pc t = T_done \<and> ch_quiet (nb_read_intr t)" if "reach (nb_step p) u t" for t
    using that
  proof (induction rule: reach.induct)
    case init
    then show ?case using assms(1,3) by (simp add: u_def u1_def)
  next
    case (step a b)
    from step.hyps(2) show ?case
    proof cases
      case (nb_server alloc)
      then show ?thesis using step.IH
        by (cases "ns_pc a")
          (auto simp: nb_server_move_def nb_server_step_def nb_free_server_step_def split_def Let_def
            nb_client_cond_signal_def nb_server_cond_signal_def split: if_splits option.splits)
    next
      case nb_thread
      then show ?thesis using step.IH by (simp add: run_client_thread_step_def)
    next
      case (nb_main rnd alloc)
      then show ?thesis
        using step.IH intr.quiet_blocks [of "nb_read_intr a"] by (simp add: nb_main_step_def)
    qed (use step.IH in simp_all)
  qed
  have "nb_main_step p alloc rnd t = None" if "reach (nb_step p) u t" for t alloc rnd
    using gone [OF that] intr.quiet_blocks [of "nb_read_intr t"] by (simp add: nb_main_step_def)
  then show ?thesis using r gone by (intro exI [of _ u]) (auto simp: u_def)
qed

text \<open>C25: the extra message. After the main loop the worker, woken only to see \<open>should_exit\<close>, tests the flag at the
  head of its loop but not after its wait: it sends the block once more, a message the statistics do not
  count, while the main thread waits for it to end.\<close>

theorem notification_extra_message:
  assumes "nm_pc s = M_join" "nb_should_exit s" "nt_pc s = T_wait" "ch_raised (nb_write_intr s)"
    and "nb_mutex (nb_ring s) = None" "load32 (nb_msg s) off_size = Some n"
    and "nb_ring_buffer_write ((nb_ring s)\<lparr>nb_mutex := Some Client\<rparr>) (nb_msg s) (ucast n) = Some (True, rb)"
  shows "(\<forall>alloc rnd. nb_main_step p alloc rnd s = None) \<and>
    (\<exists>t. reach (nb_step p) s t \<and> nm_pc t = M_join \<and> nb_should_exit t \<and> nb_ring t = rb \<and>
       nb_sent t = nb_sent s @ [take (unat n) (nb_msg s)] \<and> nm_ops t = nm_ops s)"
proof -
  obtain ch where ch: "ch_wait (nb_write_intr s) = Some ch" using intr.raised_wait [OF assms(4)] by blast
  define u where "u = s\<lparr>nb_write_intr := ch, nt_pc := T_lock\<rparr>"
  define v where "v = u\<lparr>nb_ring := (nb_ring s)\<lparr>nb_mutex := Some Client\<rparr>, nt_pc := T_write\<rparr>"
  define t where "t = v\<lparr>nb_ring := rb, nt_pc := T_flag, nb_sent := nb_sent s @ [take (unat n) (nb_msg s)]\<rparr>"
  have "run_client_thread_step s = Some u" "run_client_thread_step u = Some v" "run_client_thread_step v = Some t"
    using assms ch by (simp_all add: run_client_thread_step_def u_def v_def t_def nb_mutex_lock_def)
  then have "reach (nb_step p) s t" by (blast intro: reach.intros nb_step.nb_thread)
  moreover have "nm_pc t = M_join" "nb_should_exit t" "nb_ring t = rb" "nm_ops t = nm_ops s"
    "nb_sent t = nb_sent s @ [take (unat n) (nb_msg s)]"
    using assms(1,2) by (simp_all add: t_def v_def u_def)
  moreover have "nb_main_step p alloc rnd s = None" for alloc rnd
    using assms(1,3) by (simp add: nb_main_step_def)
  ultimately show ?thesis by blast
qed


subsection \<open>Instances\<close>

definition nb_boot0 :: nb_state where
  "nb_boot0 = \<lparr>nb_ring = nb_zero (unat BUFFER_SIZE), nb_clock = 1, ns_pc = BI_sync, ns_end = 0,
     ns_buf = replicate (unat MAX_MSG_SIZE) 0, ns_msg_size = 0, nt_pc = T_none, nt_ok = False, nt_msg_size = 0,
     nm_pc = M_ready, nm_end = 0, nb_msg = replicate (unat MAX_MSG_SIZE) 0, nb_msg_size = 0,
     nb_read_success = False, nb_should_exit = False, nb_read_intr = Eventfd 0, nb_write_intr = Eventfd 0,
     nm_ops = 0, nm_bytes = 0, nm_lat = [], nm_report = None, nb_sent = [], nb_served = [], nb_rcvd = []\<rparr>"

lemma eventfd_channel [simp]:
  "ch_quiet (Eventfd 0)" "ch_raised (Eventfd 1)" "ch_signal (Eventfd 0) = Some (Eventfd 1)"
  "ch_wait (Eventfd 1) = Some (Eventfd 0)" "\<not> ch_raised (Eventfd 0)"
  by (simp_all add: ch_quiet_def ch_raised_def ch_signal_def ch_wait_def)

lemma nb_instance: "nb_boot sb_params0 nb_boot0"
  by (simp add: nb_boot_def nb_boot0_def sb_params0_def)

text \<open>The segment when the server is up, and the client's first request.\<close>

definition nb_up_ring :: NonBlockingRingBuffer where
  "nb_up_ring = (nb_zero (unat BUFFER_SIZE))\<lparr>nb_size := BUFFER_SIZE, nb_ready := True\<rparr>"

lemma nb_instance_write:
  obtains buf n rb where "next_request 0 1 (nb_msg nb_boot0) = Some buf" "length buf = unat MAX_MSG_SIZE"
    "load32 buf off_size = Some n"
    "nb_ring_buffer_write (nb_up_ring\<lparr>nb_mutex := Some Client\<rparr>) buf (ucast n) = Some (True, rb)"
proof -
  have l0: "length (nb_msg nb_boot0) = unat MAX_MSG_SIZE" by (simp add: nb_boot0_def)
  obtain buf n where buf: "next_request 0 1 (nb_msg nb_boot0) = Some buf" "length buf = length (nb_msg nb_boot0)"
    "load32 buf off_size = Some n" "unat n < 4132"
    using next_request_effect [OF l0] by blast
  let ?rb = "nb_up_ring\<lparr>nb_mutex := Some Client\<rparr>"
  have h: "sb_holds (ring_abs ?rb) []"
    by (auto simp: sb_holds_def nb_up_ring_def nb_zero_def BUFFER_SIZE_def ring_wf_def intro!: ring_holds_empty)
  have "unat (ucast n :: u64) \<le> length buf" using buf l0 by (simp add: MAX_MSG_SIZE_def)
  then obtain rb' where "sb_ring_buffer_write (ring_abs ?rb) buf (ucast n) = Some (True, rb')"
    using sbq.write_ok [OF h, of "ucast n" buf] sb_room_empty [OF h] buf(4)
    by (auto simp: nb_up_ring_def nb_zero_def BUFFER_SIZE_def)
  then obtain rb where "nb_ring_buffer_write ?rb buf (ucast n) = Some (True, rb)"
    unfolding ring_abs_ops(2) by auto
  then show thesis using that buf l0 by metis
qed

lemma nb_reach_server: "reach (nb_step p) a s \<Longrightarrow> nb_server_move p True s = Some t \<Longrightarrow> reach (nb_step p) a t"
  by (rule reach.step) (auto intro: nb_step.nb_server)

lemma nb_reach_main: "reach (nb_step p) a s \<Longrightarrow> nb_main_step p True 0 s = Some t \<Longrightarrow> reach (nb_step p) a t"
  by (rule reach.step) (auto intro: nb_step.nb_main [of 0])

lemma nb_reach_thread: "reach (nb_step p) a s \<Longrightarrow> run_client_thread_step s = Some t \<Longrightarrow> reach (nb_step p) a t"
  by (rule reach.step) (auto intro: nb_step.nb_thread)

lemma nb_instance_up: "reach (nb_step sb_params0) nb_boot0 (nb_boot0\<lparr>nb_ring := nb_up_ring, ns_pc := B_malloc\<rparr>)"
proof -
  define s where "s rp pc = nb_boot0\<lparr>nb_ring := (nb_ring nb_boot0)\<lparr>nb_size := rp\<rparr>, ns_pc := pc\<rparr>" for rp pc
  have s0: "nb_boot0 = s 0 BI_sync" by (simp add: s_def nb_boot0_def nb_zero_def)
  have m: "nb_server_move sb_params0 True (s 0 BI_sync) = Some (s 0 BI_read_pos)"
    "nb_server_move sb_params0 True (s 0 BI_read_pos) = Some (s 0 BI_write_pos)"
    "nb_server_move sb_params0 True (s 0 BI_write_pos) = Some (s 0 BI_size)"
    "nb_server_move sb_params0 True (s 0 BI_size) = Some (s BUFFER_SIZE BI_message)"
    "nb_server_move sb_params0 True (s BUFFER_SIZE BI_message) = Some (s BUFFER_SIZE BI_response)"
    "nb_server_move sb_params0 True (s BUFFER_SIZE BI_response) = Some (s BUFFER_SIZE BI_ready)"
    "nb_server_move sb_params0 True (s BUFFER_SIZE BI_ready) = Some (nb_boot0\<lparr>nb_ring := nb_up_ring, ns_pc := B_malloc\<rparr>)"
    by (simp_all add: s_def nb_boot0_def nb_up_ring_def nb_zero_def sb_params0_def nb_server_move_def sb_in_setup_def)
  have "reach (nb_step sb_params0) (s 0 BI_sync) (nb_boot0\<lparr>nb_ring := nb_up_ring, ns_pc := B_malloc\<rparr>)"
    by (rule nb_reach_server [OF _ m(7)], rule nb_reach_server [OF _ m(6)], rule nb_reach_server [OF _ m(5)],
        rule nb_reach_server [OF _ m(4)], rule nb_reach_server [OF _ m(3)], rule nb_reach_server [OF _ m(2)],
        rule nb_reach_server [OF _ m(1)], rule reach.init)
  then show ?thesis using s0 by simp
qed

lemma nb_instance_request:
  "\<exists>s m. reach (nb_step sb_params0) nb_boot0 s \<and> nb_sent s = [m] \<and> nb_live s \<and> nm_pc s = M_wait \<and> nt_pc s = T_flag"
proof -
  obtain buf n rb where b: "next_request 0 1 (nb_msg nb_boot0) = Some buf" "length buf = unat MAX_MSG_SIZE"
    "load32 buf off_size = Some n"
    "nb_ring_buffer_write (nb_up_ring\<lparr>nb_mutex := Some Client\<rparr>) buf (ucast n) = Some (True, rb)"
    by (rule nb_instance_write)
  define s0 where "s0 = nb_boot0\<lparr>nb_ring := nb_up_ring, ns_pc := B_malloc\<rparr>"
  define s1 where "s1 = s0\<lparr>nm_pc := M_start, nt_pc := T_loop\<rparr>"
  define s2 where "s2 = s1\<lparr>nm_end := 1 + sb_us RUN_DURATION, nm_pc := M_loop\<rparr>"
  define s3 where "s3 = s2\<lparr>nb_msg := buf, nm_pc := M_signal\<rparr>"
  define s4 where "s4 = s3\<lparr>nb_write_intr := Eventfd 1, nm_pc := M_wait\<rparr>"
  define s5 where "s5 = s4\<lparr>nb_write_intr := Eventfd 0, nt_pc := T_lock\<rparr>"
  define s6 where "s6 = s5\<lparr>nb_ring := nb_up_ring\<lparr>nb_mutex := Some Client\<rparr>, nt_pc := T_write\<rparr>"
  define s7 where "s7 = s6\<lparr>nb_ring := rb, nt_pc := T_flag, nb_sent := [take (unat n) buf]\<rparr>"
  note ds = s1_def s2_def s3_def s4_def s5_def s6_def s7_def s0_def nb_boot0_def nb_zero_def
  have m: "nb_main_step sb_params0 True 0 s0 = Some (s0\<lparr>nm_pc := M_malloc\<rparr>)"
    "nb_main_step sb_params0 True 0 (s0\<lparr>nm_pc := M_malloc\<rparr>) = Some (s0\<lparr>nm_pc := M_create\<rparr>)"
    "nb_main_step sb_params0 True 0 (s0\<lparr>nm_pc := M_create\<rparr>) = Some s1"
    "nb_main_step sb_params0 True 0 s1 = Some s2"
    "nb_main_step sb_params0 True 0 s2 = Some (s2\<lparr>nm_pc := M_build\<rparr>)"
    "nb_main_step sb_params0 True 0 s3 = Some s4"
    by (simp_all add: nb_main_step_def ds nb_up_ring_def sb_params0_def RUN_DURATION_def)
  have m6: "nb_main_step sb_params0 True 0 (s2\<lparr>nm_pc := M_build\<rparr>) = Some s3"
  proof -
    have "nb_clock s2 = 1" "nb_msg s2 = nb_msg nb_boot0" by (simp_all add: s2_def s1_def s0_def) (simp add: nb_boot0_def)
    then show ?thesis using b(1) by (simp add: nb_main_step_def s3_def)
  qed
  have w: "run_client_thread_step s4 = Some (s4\<lparr>nt_pc := T_wait\<rparr>)"
    "run_client_thread_step (s4\<lparr>nt_pc := T_wait\<rparr>) = Some s5"
    "run_client_thread_step s5 = Some s6" "run_client_thread_step s6 = Some s7"
    using b by (simp_all add: run_client_thread_step_def ds nb_mutex_lock_def nb_up_ring_def)
  have "reach (nb_step sb_params0) nb_boot0 s7"
    by (rule nb_reach_thread [OF _ w(4)], rule nb_reach_thread [OF _ w(3)], rule nb_reach_thread [OF _ w(2)],
        rule nb_reach_thread [OF _ w(1)], rule nb_reach_main [OF _ m(6)], rule nb_reach_main [OF _ m6],
        rule nb_reach_main [OF _ m(5)], rule nb_reach_main [OF _ m(4)], rule nb_reach_main [OF _ m(3)],
        rule nb_reach_main [OF _ m(2)], rule nb_reach_main [OF _ m(1)])
      (use nb_instance_up in \<open>simp add: s0_def\<close>)
  moreover have "nb_sent s7 = [take (unat n) buf]" "nm_pc s7 = M_wait" "nt_pc s7 = T_flag" "ns_pc s7 = B_malloc"
    by (simp_all add: s7_def s6_def s5_def s4_def s3_def s2_def s1_def s0_def)
  moreover then have "nb_live s7" by (simp add: nb_live_def nb_in_loop_def sb_live_def sb_in_free_def)
  ultimately show ?thesis by blast
qed

theorem notification_echo_witness:
  "\<exists>s m. reach (nb_step sb_params0) nb_boot0 s \<and> nb_sent s = [m] \<and> reach echo_step echo_init (sb_abs (nb_abs s))"
proof -
  obtain s m where s: "reach (nb_step sb_params0) nb_boot0 s" "nb_sent s = [m]" "nb_live s"
    using nb_instance_request by blast
  then show ?thesis using notification_echo [OF s(1) nb_instance sb_instance(2) s(3)] by blast
qed

theorem notification_ownership_witness:
  "\<exists>s m. reach (nb_step sb_params0) nb_boot0 s \<and> nb_sent s = [m] \<and> nt_pc s = T_flag \<and>
     pending (nb_write_intr s) + pending (nb_read_intr s) = 0 \<and> \<not> main_uses_block (nm_pc s)"
proof -
  obtain s m where s: "reach (nb_step sb_params0) nb_boot0 s" "nb_sent s = [m]" "nb_live s" "nm_pc s = M_wait" "nt_pc s = T_flag"
    using nb_instance_request by blast
  then show ?thesis
    using notification_ownership [OF s(1) nb_instance sb_instance(2) s(3)]
    by (intro exI [of _ s] exI [of _ m]) (auto simp: main_uses_block_def)
qed

theorem notification_no_deadlock_witness:
  "\<exists>s. reach (nb_step sb_params0) nb_boot0 s \<and> nt_pc s = T_flag \<and>
     (nb_server_move sb_params0 True s \<noteq> None \<or> run_client_thread_step s \<noteq> None \<or> nb_main_step sb_params0 True 0 s \<noteq> None)"
proof -
  obtain s where s: "reach (nb_step sb_params0) nb_boot0 s" "nt_pc s = T_flag" "nb_live s"
    using nb_instance_request by blast
  then show ?thesis using notification_no_deadlock [OF s(1) nb_instance sb_instance(2) s(3)] by blast
qed

theorem notification_lost_worker_witness:
  "\<exists>s u. nm_pc s = M_wait \<and> reach (nb_step sb_params0) s u \<and> nt_pc u = T_done \<and> nb_main_step sb_params0 True 0 u = None"
proof -
  define s where "s = nb_boot0\<lparr>nm_pc := M_wait, nt_pc := T_write, nb_msg := replicate 4 0 @ le_bytes 4 (100 :: u32)\<rparr>"
  have l: "load32 (nb_msg s) off_size = Some 100" by (simp add: s_def load32_def mem_read_def)
  have z: "nb_size (nb_ring s) = 0" by (simp add: s_def nb_boot0_def nb_zero_def)
  have "(ucast (100 :: u32) :: u64) = 100" by simp
  then have "nb_ring_buffer_write (nb_ring s) (nb_msg s) (ucast (100 :: u32)) = Some (False, nb_ring s)"
    by (simp only: nb_ring_buffer_write_def z ring64_write_def) (simp add: Let_def)
  moreover have p: "nm_pc s = M_wait" "nt_pc s = T_write" "ch_quiet (nb_read_intr s)"
    by (simp_all add: s_def nb_boot0_def)
  ultimately obtain u where u: "reach (nb_step sb_params0) s u" "nt_pc u = T_done"
    "\<forall>t. reach (nb_step sb_params0) u t \<longrightarrow> nm_pc t = M_wait \<and> (\<forall>alloc rnd. nb_main_step sb_params0 alloc rnd t = None)"
    using notification_lost_worker [of s 100 "nb_ring s" sb_params0] l by auto
  have "nb_main_step sb_params0 True 0 u = None" using u(3) reach.init [of "nb_step sb_params0" u] by simp
  then show ?thesis using u(1,2) p(1) by (intro exI [of _ s] exI [of _ u]) simp
qed

theorem notification_extra_message_witness:
  "\<exists>s t m. nm_pc s = M_join \<and> reach (nb_step sb_params0) s t \<and> nb_sent t = nb_sent s @ [m] \<and> nm_ops t = nm_ops s"
proof -
  obtain buf n rb where b: "load32 buf off_size = Some n"
    "nb_ring_buffer_write (nb_up_ring\<lparr>nb_mutex := Some Client\<rparr>) buf (ucast n) = Some (True, rb)"
    by (rule nb_instance_write)
  define s where "s = nb_boot0\<lparr>nb_ring := nb_up_ring, nm_pc := M_join, nt_pc := T_wait, nb_should_exit := True,
    nb_write_intr := Eventfd 1, nb_msg := buf\<rparr>"
  have "nm_pc s = M_join" "nb_should_exit s" "nt_pc s = T_wait" "ch_raised (nb_write_intr s)"
    "nb_mutex (nb_ring s) = None" "load32 (nb_msg s) off_size = Some n"
    "nb_ring_buffer_write ((nb_ring s)\<lparr>nb_mutex := Some Client\<rparr>) (nb_msg s) (ucast n) = Some (True, rb)"
    using b by (simp_all add: s_def nb_up_ring_def nb_zero_def)
  then show ?thesis using notification_extra_message [of s n rb sb_params0] by blast
qed

end
