(* ===== verification/Stream_Socket.thy ===== *)
theory Stream_Socket
  imports Messages
begin

section \<open>Calls on a stream socket, exact reads and writes (uds\_blocking.c, uds\_nonblocking.c)\<close>

text \<open>
  The kernel's side of a socket is the list of the answers its calls give: a \<open>recv\<close> delivers some bytes,
  reports the end of the stream, or fails; a \<open>send\<close> accepts some of the bytes offered or fails; after
  \<open>EAGAIN\<close> the loop polls, which succeeds or fails. One answer is consumed per iteration, so the loops
  recurse on the list; a loop that runs out of answers has not returned (\<open>Waiting\<close>). As documented, a
  call that asks for \<open>k\<close> bytes never gets more: an answer that offers more is cut to \<open>k\<close>.
\<close>

datatype sock_errno = EINTR | EAGAIN bool | EPIPE | ECONNRESET | EOTHER
  \<comment> \<open>\<open>EAGAIN\<close> (or \<open>EWOULDBLOCK\<close>) comes with the outcome of the \<open>poll\<close> that follows it\<close>

datatype recv_answer = Received bytes | Recv_fails sock_errno
  \<comment> \<open>\<open>Received []\<close>: end of the stream\<close>

datatype send_answer = Accepted nat | Send_fails sock_errno

text \<open>What a helper returns: \<open>Total n\<close> is the non-negative result, \<open>Minus_one\<close> the error.\<close>

datatype io_result = Total nat | Minus_one

datatype 'a io = Returns io_result 'a | Waiting 'a

text \<open>How far a benchmark loop has come when the kernel's answers are used up: it has been left, or its
  next iteration waits in a system call.\<close>

datatype 'a progress = Left_loop 'a | In_loop 'a

subsection \<open>One call on a blocking socket\<close>

text \<open>\<open>recv (fd, buf + off, k)\<close> and \<open>send (fd, buf, k)\<close>, with the length the code asks for. A call is undefined
  (\<open>None\<close>) as soon as the range it hands to the kernel leaves the block, whatever the kernel then
  does; it delivers or takes at most \<open>k\<close> bytes. The results: the return value and the block, or the bytes
  taken.\<close>

fun sock_recv :: "bytes \<Rightarrow> nat \<Rightarrow> nat \<Rightarrow> recv_answer \<Rightarrow> (int \<times> bytes) option" where
  "sock_recv buf off k (Received bs) =
     (if length buf < off + k then None
      else mem_write buf off (take k bs) \<bind> (\<lambda>buf'. Some (int (length (take k bs)), buf')))"
| "sock_recv buf off k (Recv_fails e) = (if length buf < off + k then None else Some (-1, buf))"

fun sock_send :: "bytes \<Rightarrow> nat \<Rightarrow> send_answer \<Rightarrow> (int \<times> bytes) option" where
  "sock_send buf k (Accepted j) = mem_read buf 0 k \<bind> (\<lambda>bs. Some (int (min j k), take j bs))"
| "sock_send buf k (Send_fails e) = mem_read buf 0 k \<bind> (\<lambda>bs. Some (-1, []))"

lemma sock_recv_in_range [consumes 1]:
  assumes "off + k \<le> length buf"
  obtains r buf' where "sock_recv buf off k a = Some (r, buf')" "length buf' = length buf"
proof (cases a)
  case (Received bs)
  obtain buf' where "mem_write buf off (take k bs) = Some buf'"
    using assms mem_write_in [of off "take k bs" buf] by auto
  moreover from this have "length buf' = length buf" by (rule mem_write_length)
  ultimately show thesis using that assms Received by simp
next
  case (Recv_fails e)
  then show thesis using that assms by simp
qed

lemma sock_send_in_range [consumes 1]:
  assumes "k \<le> length buf"
  obtains r out where "sock_send buf k a = Some (r, out)"
  using assms by (cases a) (simp_all add: mem_read_def)

text \<open>A call that asks for the bytes that come gets exactly them.\<close>

lemma sock_recv_received:
  assumes "length bs \<le> k" "off + k \<le> length buf"
  shows "sock_recv buf off k (Received bs)
    = Some (int (length bs), take off buf @ bs @ drop (off + length bs) buf)"
  using assms by (simp add: mem_simps)

lemma sock_send_accepted:
  assumes "k \<le> length buf"
  shows "sock_send buf k (Accepted k) = Some (int k, take k buf)"
  using assms by (simp add: mem_read_def)

declare sock_recv.simps [simp del] sock_send.simps [simp del]

subsection \<open>\<open>read\_nonblocking\<close>\<close>

text \<open>\<open>off\<close> is the offset of \<open>buf\<close> in its block, \<open>tot\<close> the bytes read so far; \<open>None\<close> is a write outside the
  block.\<close>

fun read_nonblocking ::
  "recv_answer list \<Rightarrow> bytes \<Rightarrow> nat \<Rightarrow> nat \<Rightarrow> nat \<Rightarrow> bytes io option" where
  "read_nonblocking [] buf off n tot = Some (if tot < n then Waiting buf else Returns (Total tot) buf)"
| "read_nonblocking (a # as) buf off n tot =
     (if \<not> tot < n then Some (Returns (Total tot) buf)
      else case a of
        Recv_fails EINTR \<Rightarrow> read_nonblocking as buf off n tot
      | Recv_fails (EAGAIN polled) \<Rightarrow>
          if polled then read_nonblocking as buf off n tot else Some (Returns Minus_one buf)
      | Recv_fails e \<Rightarrow> Some (Returns Minus_one buf)
      | Received bs \<Rightarrow>
          let r = take (n - tot) bs
          in if r = [] then Some (Returns (Total tot) buf)
             else mem_write buf (off + tot) r \<bind>
               (\<lambda>buf'. read_nonblocking as buf' off n (tot + length r)))"

text \<open>Answers that are bytes and interruptions only, and the bytes they deliver, in order.\<close>

fun flowing :: "recv_answer list \<Rightarrow> bool" where
  "flowing [] = True"
| "flowing (Received bs # as) = (bs \<noteq> [] \<and> flowing as)"
| "flowing (Recv_fails e # as) = ((e = EINTR \<or> e = EAGAIN True) \<and> flowing as)"

fun delivered :: "recv_answer list \<Rightarrow> bytes" where
  "delivered [] = []"
| "delivered (Received bs # as) = bs @ delivered as"
| "delivered (Recv_fails e # as) = delivered as"

lemma read_nonblocking_received:
  assumes "tot < n" "off + n \<le> length buf" "bs \<noteq> []" "r = take (n - tot) bs"
  shows "read_nonblocking (Received bs # as) buf off n tot = read_nonblocking as
      (take (off + tot) buf @ r @ drop (off + tot + length r) buf) off n (tot + length r)"
proof -
  have t: "take (n - tot) bs = r" by (simp add: assms(4))
  have ne: "r \<noteq> []" and "length r \<le> n - tot" using assms(1,3) by (auto simp: assms(4))
  then have "mem_write buf (off + tot) r = Some (take (off + tot) buf @ r @ drop (off + tot + length r) buf)"
    using assms(1,2) by (simp add: mem_simps)
  then show ?thesis using assms(1) ne by (simp add: t)
qed

lemma splice_read:
  assumes "off + n \<le> length buf" "length r \<le> n - tot" "tot \<le> n"
  shows "length (take (off + tot) buf @ r @ drop (off + tot + length r) buf) = length buf \<and>
    take off (take (off + tot) buf @ r @ drop (off + tot + length r) buf) = take off buf \<and>
    take (off + (tot + length r)) (take (off + tot) buf @ r @ drop (off + tot + length r) buf) = take (off + tot) buf @ r \<and>
    drop (off + n) (take (off + tot) buf @ r @ drop (off + tot + length r) buf) = drop (off + n) buf"
  using assms by (auto simp: min_def add.commute)

text \<open>Whatever the fragmentation: once \<open>n\<close> bytes have flowed, they are in place and nothing else changed.\<close>

lemma read_nonblocking_flow:
  assumes "flowing as" "n - tot \<le> length (delivered as)" "tot \<le> n" "off + n \<le> length buf"
  shows "read_nonblocking as buf off n tot
     = Some (Returns (Total n) (take (off + tot) buf @ take (n - tot) (delivered as) @ drop (off + n) buf))"
  using assms
proof (induction as arbitrary: buf tot)
  case Nil
  then show ?case by simp
next
  case (Cons a as)
  show ?case
  proof (cases "tot < n")
    case False
    then show ?thesis using Cons.prems by simp
  next
    case lt: True
    show ?thesis
    proof (cases a)
      case (Recv_fails e)
      then show ?thesis using Cons lt by auto
    next
      case (Received bs)
      define r where "r = take (n - tot) bs"
      let ?buf = "take (off + tot) buf @ r @ drop (off + tot + length r) buf"
      have bs: "bs \<noteq> []" and fl: "flowing as" using Cons.prems(1) Received by auto
      have r: "length r \<le> n - tot" by (simp add: r_def)
      note sp = splice_read [OF Cons.prems(4) r Cons.prems(3)]
      have "read_nonblocking as ?buf off n (tot + length r)
          = Some (Returns (Total n) (take (off + (tot + length r)) ?buf
              @ take (n - (tot + length r)) (delivered as) @ drop (off + n) ?buf))"
        using Cons.prems(2,4) r lt Received sp
        by (intro Cons.IH fl) (auto simp: r_def)
      moreover have "take (n - tot) (bs @ delivered as) = r @ take (n - (tot + length r)) (delivered as)"
        by (cases "length bs \<le> n - tot") (simp_all add: r_def)
      ultimately show ?thesis
        using read_nonblocking_received [OF lt Cons.prems(4) bs r_def, of as] sp Received by simp
    qed
  qed
qed

text \<open>Whatever the kernel answers, the loop stays inside its part of the block, and a result is a count of at
  most \<open>n\<close> bytes.\<close>

lemma read_nonblocking_safe:
  assumes "tot \<le> n" "off + n \<le> length buf"
  shows "\<exists>buf'. length buf' = length buf \<and> take off buf' = take off buf \<and> drop (off + n) buf' = drop (off + n) buf \<and>
     (read_nonblocking as buf off n tot = Some (Waiting buf') \<or>
      read_nonblocking as buf off n tot = Some (Returns Minus_one buf') \<or>
      (\<exists>k \<le> n. read_nonblocking as buf off n tot = Some (Returns (Total k) buf')))"
  using assms
proof (induction as arbitrary: buf tot)
  case Nil
  then show ?case by auto
next
  case (Cons a as)
  show ?case
  proof (cases "tot < n \<and> a \<noteq> Received []")
    case False
    then show ?thesis using Cons.prems by auto
  next
    case lt: True
    show ?thesis
    proof (cases a)
      case (Recv_fails e)
      then show ?thesis using Cons lt by (cases e) auto
    next
      case (Received bs)
      define r where "r = take (n - tot) bs"
      define B where "B = take (off + tot) buf @ r @ drop (off + tot + length r) buf"
      have bs: "bs \<noteq> []" and l: "tot < n" using lt Received by auto
      have r: "length r \<le> n - tot" by (simp add: r_def)
      note sp = splice_read [OF Cons.prems(2) r Cons.prems(1), folded B_def]
      have p: "tot + length r \<le> n" "off + n \<le> length B" using sp r l Cons.prems(2) by auto
      show ?thesis
        using Cons.IH [OF p] sp
        by (simp del: read_nonblocking.simps
            add: Received read_nonblocking_received [OF l Cons.prems(2) bs r_def, of as, folded B_def])
    qed
  qed
qed

text \<open>The loop is still waiting exactly when every answer was bytes or a retry and too few bytes came.\<close>

lemma read_nonblocking_waits:
  assumes "tot \<le> n" "off + n \<le> length buf"
  shows "(\<exists>buf'. read_nonblocking as buf off n tot = Some (Waiting buf'))
    \<longleftrightarrow> flowing as \<and> tot + length (delivered as) < n"
  using assms
proof (induction as arbitrary: buf tot)
  case Nil
  then show ?case by auto
next
  case (Cons a as)
  show ?case
  proof (cases "tot < n \<and> a \<noteq> Received []")
    case False
    then show ?thesis using Cons.prems by auto
  next
    case lt: True
    show ?thesis
    proof (cases a)
      case (Recv_fails e)
      then show ?thesis using Cons lt by (cases e) auto
    next
      case (Received bs)
      define r where "r = take (n - tot) bs"
      define B where "B = take (off + tot) buf @ r @ drop (off + tot + length r) buf"
      have bs: "bs \<noteq> []" and l: "tot < n" using lt Received by auto
      have r: "length r \<le> n - tot" by (simp add: r_def)
      note sp = splice_read [OF Cons.prems(2) r Cons.prems(1), folded B_def]
      have p: "tot + length r \<le> n" "off + n \<le> length B" using sp r l Cons.prems(2) by auto
      have "flowing as \<and> tot + length r + length (delivered as) < n \<longleftrightarrow>
          flowing as \<and> tot + length bs + length (delivered as) < n"
        using l by (auto simp: r_def)
      then show ?thesis
        using Cons.IH [OF p] bs
        by (simp del: read_nonblocking.simps add: add.assoc Received
            read_nonblocking_received [OF l Cons.prems(2) bs r_def, of as, folded B_def])
    qed
  qed
qed

subsection \<open>\<open>write\_nonblocking\<close>\<close>

text \<open>The last argument and the result are the bytes the kernel has taken, in order.\<close>

fun write_nonblocking ::
  "send_answer list \<Rightarrow> bytes \<Rightarrow> nat \<Rightarrow> nat \<Rightarrow> bytes \<Rightarrow> bytes io option" where
  "write_nonblocking [] buf n tot out =
     Some (if tot < n then Waiting out else Returns (Total tot) out)"
| "write_nonblocking (a # as) buf n tot out =
     (if \<not> tot < n then Some (Returns (Total tot) out)
      else case a of
        Send_fails EINTR \<Rightarrow> write_nonblocking as buf n tot out
      | Send_fails (EAGAIN polled) \<Rightarrow>
          if polled then write_nonblocking as buf n tot out else Some (Returns Minus_one out)
      | Send_fails e \<Rightarrow> Some (Returns Minus_one out)
      | Accepted k \<Rightarrow>
          let w = min k (n - tot)
          in mem_read buf tot w \<bind> (\<lambda>bs. write_nonblocking as buf n (tot + w) (out @ bs)))"

fun draining :: "send_answer list \<Rightarrow> bool" where
  "draining [] = True"
| "draining (Accepted j # as) = draining as"
| "draining (Send_fails e # as) = ((e = EINTR \<or> e = EAGAIN True) \<and> draining as)"

fun accepted :: "send_answer list \<Rightarrow> nat" where
  "accepted [] = 0"
| "accepted (Accepted j # as) = j + accepted as"
| "accepted (Send_fails e # as) = accepted as"

lemma write_nonblocking_accepted:
  assumes "tot < n" "n \<le> length buf" "w = min k (n - tot)"
  shows "write_nonblocking (Accepted k # as) buf n tot (take tot buf)
    = write_nonblocking as buf n (tot + w) (take (tot + w) buf)"
proof -
  have "mem_read buf tot w = Some (take w (drop tot buf))" using assms by (simp add: mem_simps)
  then show ?thesis using assms(1) by (simp add: take_add flip: assms(3))
qed

text \<open>Whatever the kernel answers: what has been sent is a prefix of the message, all of it when the result
  is positive; and the loop waits only while every answer was an acceptance or a retry.\<close>

lemma write_nonblocking_safe:
  assumes "tot \<le> n" "n \<le> length buf"
  shows "\<exists>k \<le> n.
     (write_nonblocking as buf n tot (take tot buf) = Some (Waiting (take k buf)) \<and>
        draining as \<and> k = tot + accepted as \<and> k < n) \<or>
     (write_nonblocking as buf n tot (take tot buf) = Some (Returns Minus_one (take k buf)) \<and> \<not> draining as) \<or>
     (write_nonblocking as buf n tot (take tot buf) = Some (Returns (Total n) (take n buf)) \<and>
        n \<le> tot + accepted as)"
  using assms
proof (induction as arbitrary: tot)
  case Nil
  then show ?case by auto
next
  case (Cons a as)
  show ?case
  proof (cases "tot < n")
    case False
    then show ?thesis using Cons.prems by auto
  next
    case lt: True
    show ?thesis
    proof (cases a)
      case (Send_fails e)
      show ?thesis
      proof (cases "e = EINTR \<or> e = EAGAIN True")
        case True
        then show ?thesis using Cons.IH [OF Cons.prems] lt Send_fails by auto
      next
        case False
        then have "write_nonblocking (a # as) buf n tot (take tot buf) = Some (Returns Minus_one (take tot buf))"
          "\<not> draining (a # as)"
          using lt Send_fails by (cases e; auto)+
        then show ?thesis using lt by (intro exI [of _ tot]) simp
      qed
    next
      case (Accepted k)
      define w where "w = min k (n - tot)"
      have w: "tot + w \<le> n" using lt by (auto simp: w_def)
      have e: "write_nonblocking (a # as) buf n tot (take tot buf)
          = write_nonblocking as buf n (tot + w) (take (tot + w) buf)"
        using write_nonblocking_accepted [OF lt Cons.prems(2) w_def, of as] Accepted by (simp only:)
      show ?thesis
      proof (cases "tot + w = n")
        case True
        then have "write_nonblocking as buf n (tot + w) (take (tot + w) buf) = Some (Returns (Total n) (take n buf))"
          by (cases as) simp_all
        moreover have "n \<le> tot + accepted (a # as)" using True by (simp add: Accepted w_def)
        ultimately show ?thesis unfolding e by blast
      next
        case False
        then have "w = k" using lt by (auto simp: w_def)
        then show ?thesis
          unfolding e using Cons.IH [OF w Cons.prems(2)] by (simp add: Accepted add.assoc)
      qed
    qed
  qed
qed

lemma write_nonblocking_drain:
  assumes "draining as" "n \<le> accepted as" "n \<le> length buf"
  shows "write_nonblocking as buf n 0 [] = Some (Returns (Total n) (take n buf))"
  using write_nonblocking_safe [of 0 n buf as] assms by auto

end
