(* ===== verification/Uds_Blocking.thy ===== *)
theory Uds_Blocking
  imports Stream_Socket Os_Resources Statistics
begin

section \<open>Unix domain socket, blocking (uds\_blocking.h, uds\_blocking.c)\<close>

text \<open>
  Setup and tear-down with their resources, and the two benchmark loops. An iteration consumes the
  answers the kernel gives in it (a record), so that a loop recurses on the list of its iterations.
\<close>

subsection \<open>Setup and tear-down\<close>

record UDSBlockingState =
  ub_fd :: int
  ub_is_server :: bool

definition SOCKET_PATH :: string where "SOCKET_PATH = ''/tmp/ipc_benchmark_socket''"

text \<open>\<open>heap\<close>: \<open>malloc\<close> succeeds; \<open>fd\<close>: what \<open>socket\<close> returns; the others: what the calls return.\<close>

definition setup_uds_blocking_server ::
  "string \<Rightarrow> bool \<Rightarrow> int \<Rightarrow> int \<Rightarrow> int \<Rightarrow> UDSBlockingState option \<times> os_event list" where
  "setup_uds_blocking_server socket_path heap fd bind_ret listen_ret =
     (if \<not> heap then (None, [])
      else if fd = -1 then (None, [Acquire Heap, Release Heap])
      else if bind_ret = -1 then
        (None, [Acquire Heap, Acquire (Fd fd), Release (Path socket_path), Release (Fd fd), Release Heap])
      else if listen_ret = -1 then
        (None, [Acquire Heap, Acquire (Fd fd), Release (Path socket_path), Acquire (Path socket_path),
                Release (Fd fd), Release Heap])
      else (Some \<lparr>ub_fd = fd, ub_is_server = True\<rparr>,
            [Acquire Heap, Acquire (Fd fd), Release (Path socket_path), Acquire (Path socket_path)]))"

definition setup_uds_blocking_client ::
  "string \<Rightarrow> bool \<Rightarrow> int \<Rightarrow> int \<Rightarrow> UDSBlockingState option \<times> os_event list" where
  "setup_uds_blocking_client socket_path heap fd connect_ret =
     (if \<not> heap then (None, [])
      else if fd = -1 then (None, [Acquire Heap, Release Heap])
      else if connect_ret = -1 then
        (None, [Acquire Heap, Acquire (Fd fd), Release (Fd fd), Release Heap])
      else (Some \<lparr>ub_fd = fd, ub_is_server = False\<rparr>, [Acquire Heap, Acquire (Fd fd)]))"

fun free_uds_blocking :: "UDSBlockingState option \<Rightarrow> os_event list" where
  "free_uds_blocking None = []"
| "free_uds_blocking (Some st) =
     [Release (Fd (ub_fd st))] @ (if ub_is_server st then [Release (Path SOCKET_PATH)] else []) @ [Release Heap]"

subsection \<open>The server\<close>

text \<open>One iteration after the test of the clock: the header, the rest of the message, validation (only
  reported), the echo. The result says whether the loop goes on and which bytes were sent.\<close>

record uds_server_answers =
  us_now :: u64
  us_header :: recv_answer
  us_body :: recv_answer
  us_sent :: send_answer

definition uds_server_round :: "bytes \<Rightarrow> uds_server_answers \<Rightarrow> (bool \<times> bytes \<times> bytes) option" where
  "uds_server_round buf a = do {
     (header_bytes, buf1) \<leftarrow> sock_recv buf 0 (unat sizeof_Message) (us_header a);
     if header_bytes \<le> 0 then Some (False, buf1, []) else do {
       sz \<leftarrow> load32 buf1 off_size;
       let msg_size = (ucast sz :: u64);
       if msg_size < sizeof_Message + 4 \<or> msg_size > MAX_MSG_SIZE then Some (False, buf1, [])
       else do {
         (body_bytes, buf2) \<leftarrow> sock_recv buf1 (unat sizeof_Message) (unat (msg_size - sizeof_Message)) (us_body a);
         if body_bytes < 0 then Some (False, buf2, []) else do {
           valid \<leftarrow> validate_message buf2 msg_size;
           (sent, out) \<leftarrow> sock_send buf2 (unat msg_size) (us_sent a);
           Some (sent = int (unat msg_size), buf2, out)
         }
       }
     }
   }"

fun uds_server_loop :: "u64 \<Rightarrow> bytes \<Rightarrow> uds_server_answers list \<Rightarrow> bytes progress option" where
  "uds_server_loop end_time buf [] = Some (In_loop [])"
| "uds_server_loop end_time buf (a # as) =
     (if \<not> us_now a < end_time then Some (Left_loop [])
      else do {
        (go_on, buf', out) \<leftarrow> uds_server_round buf a;
        rest \<leftarrow> (if go_on then uds_server_loop end_time buf' as else Some (Left_loop []));
        Some (map_progress (\<lambda>more. out @ more) rest)
      })"

definition run_uds_blocking_server ::
  "bytes option \<Rightarrow> int \<Rightarrow> u64 \<Rightarrow> int \<Rightarrow> uds_server_answers list \<Rightarrow> (bytes progress \<times> os_event list) option" where
  "run_uds_blocking_server heap client_fd start_time duration_secs as =
     (case heap of
        None \<Rightarrow> Some (Left_loop [], [])
      | Some buf \<Rightarrow>
          if client_fd = -1 then Some (Left_loop [], [Acquire Heap, Release Heap])
          else map_option (\<lambda>r. (r, [Acquire Heap, Acquire (Fd client_fd)] @
              (case r of Left_loop out \<Rightarrow> [Release (Fd client_fd), Release Heap] | In_loop out \<Rightarrow> [])))
            (uds_server_loop (start_time + word_of_int duration_secs * 1000000) buf as))"

subsection \<open>The client\<close>

record uds_client_answers =
  uc_now :: u64
  uc_rnd :: int
  uc_stamp :: u64
  uc_sent :: send_answer
  uc_header :: recv_answer
  uc_body :: recv_answer
  uc_done :: u64

record client_stats =
  cs_ops :: u64
  cs_bytes :: u64
  cs_lat :: "u64 list"

definition count_answer :: "client_stats \<Rightarrow> u64 \<Rightarrow> u64 \<Rightarrow> client_stats" where
  "count_answer st latency msg_size =
     \<lparr>cs_ops = cs_ops st + 1, cs_bytes = cs_bytes st + msg_size,
      cs_lat = if length (cs_lat st) < MAX_LATENCIES then cs_lat st @ [latency] else cs_lat st\<rparr>"

text \<open>The result: whether the loop goes on, the block, the statistics and the bytes sent.\<close>

definition uds_client_round ::
  "bytes \<Rightarrow> client_stats \<Rightarrow> uds_client_answers \<Rightarrow> (bool \<times> bytes \<times> client_stats \<times> bytes) option" where
  "uds_client_round buf st a = do {
     buf1 \<leftarrow> next_request (uc_rnd a) (uc_stamp a) buf;
     n \<leftarrow> load32 buf1 off_size;
     (sent, out) \<leftarrow> sock_send buf1 (unat n) (uc_sent a);
     if sent \<noteq> int (unat n) then Some (False, buf1, st, out) else do {
       (header_bytes, buf2) \<leftarrow> sock_recv buf1 0 (unat sizeof_Message) (uc_header a);
       if header_bytes \<le> 0 then Some (False, buf2, st, out) else do {
         sz \<leftarrow> load32 buf2 off_size;
         let msg_size = (ucast sz :: u64);
         if msg_size < sizeof_Message + 4 \<or> msg_size > MAX_MSG_SIZE then Some (False, buf2, st, out)
         else do {
           (body_bytes, buf3) \<leftarrow> sock_recv buf2 (unat sizeof_Message) (unat (msg_size - sizeof_Message)) (uc_body a);
           if body_bytes < 0 then Some (False, buf3, st, out) else do {
             valid \<leftarrow> validate_message buf3 msg_size;
             sent_at \<leftarrow> load64 buf3 off_timestamp;
             Some (True, buf3, count_answer st (uc_done a - sent_at) msg_size, out)
           }
         }
       }
     }
   }"

fun uds_client_loop ::
  "u64 \<Rightarrow> bytes \<Rightarrow> client_stats \<Rightarrow> uds_client_answers list \<Rightarrow> client_stats progress option" where
  "uds_client_loop end_time buf st [] = Some (In_loop st)"
| "uds_client_loop end_time buf st (a # as) =
     (if \<not> uc_now a < end_time then Some (Left_loop st)
      else do {
        (go_on, buf', st', out) \<leftarrow> uds_client_round buf st a;
        if go_on then uds_client_loop end_time buf' st' as else Some (Left_loop st')
      })"

text \<open>\<open>heap\<close> and \<open>lats\<close> are the two blocks \<open>malloc\<close> returns, \<open>cpu\<close> the two readings of the CPU time. The
  client stores no first sequence number: the block's contents are whatever they were.\<close>

definition with_counts :: "BenchmarkStats \<Rightarrow> client_stats \<Rightarrow> BenchmarkStats" where
  "with_counts stats st = stats\<lparr>st_ops := cs_ops st, st_bytes := cs_bytes st\<rparr>"

definition run_uds_blocking_client ::
  "bytes option \<Rightarrow> bool \<Rightarrow> u64 \<Rightarrow> int \<Rightarrow> rat \<times> rat \<Rightarrow> BenchmarkStats \<Rightarrow> uds_client_answers list
     \<Rightarrow> (BenchmarkStats progress \<times> os_event list) option" where
  "run_uds_blocking_client heap lats start_time duration_secs cpu stats as =
     (case heap of
        None \<Rightarrow> Some (Left_loop stats, [])
      | Some buf \<Rightarrow>
          if \<not> lats then Some (Left_loop stats, [Acquire Heap, Release Heap])
          else do {
            r \<leftarrow> uds_client_loop (start_time + word_of_int duration_secs * 1000000) buf
                  \<lparr>cs_ops = 0, cs_bytes = 0, cs_lat = []\<rparr> as;
            (case r of
               In_loop st \<Rightarrow> Some (In_loop (with_counts stats st), [Acquire Heap, Acquire Heap])
             | Left_loop st \<Rightarrow> do {
                 stats' \<leftarrow> finish_stats (fst cpu) (snd cpu) duration_secs (cs_lat st) (with_counts stats st);
                 Some (Left_loop stats', [Acquire Heap, Acquire Heap, Release Heap, Release Heap])
               })
          })"

subsection \<open>Safety against any peer\<close>

lemma validate_message_total:
  assumes "36 \<le> unat n" "unat n \<le> length msg"
  shows "\<exists>ok. validate_message msg n = Some ok"
  using validate_message_eq [of n msg] assms by simp

lemma body_in_range:
  assumes "\<not> n < sizeof_Message + 4" "\<not> n > MAX_MSG_SIZE"
  shows "36 \<le> unat n" "unat n \<le> 131072" "unat (n - sizeof_Message) = unat n - 32"
    "unat sizeof_Message + unat (n - sizeof_Message) \<le> 131072"
proof -
  show r: "36 \<le> unat n" "unat n \<le> 131072"
    using assms by (simp_all add: word_order_unat MAX_MSG_SIZE_def)
  then show d: "unat (n - sizeof_Message) = unat n - 32" by (simp add: unat_sub_u64)
  show "unat sizeof_Message + unat (n - sizeof_Message) \<le> 131072" using r d by simp
qed

lemma uds_server_round_safe:
  assumes "length buf = unat MAX_MSG_SIZE"
  shows "\<exists>go_on buf' out. uds_server_round buf a = Some (go_on, buf', out) \<and> length buf' = unat MAX_MSG_SIZE"
proof -
  have M: "unat MAX_MSG_SIZE = 131072" by (simp add: MAX_MSG_SIZE_def)
  have "0 + unat sizeof_Message \<le> length buf" using assms M by simp
  then obtain h buf1 where b1: "sock_recv buf 0 (unat sizeof_Message) (us_header a) = Some (h, buf1)" "length buf1 = 131072"
    using assms M by (metis sock_recv_in_range)
  obtain sz where sz: "load32 buf1 off_size = Some sz" using load32_Some [of off_size buf1] b1(2) by auto
  let ?n = "ucast sz :: u64"
  show ?thesis
  proof (cases "h \<le> 0 \<or> ?n < sizeof_Message + 4 \<or> ?n > MAX_MSG_SIZE")
    case True
    then show ?thesis using b1 sz M by (auto simp: uds_server_round_def Let_def)
  next
    case False
    then have n: "36 \<le> unat ?n" "unat ?n \<le> 131072" "unat sizeof_Message + unat (?n - sizeof_Message) \<le> length buf1"
      using body_in_range [of ?n] b1(2) by simp_all
    obtain l buf2 where b2: "sock_recv buf1 (unat sizeof_Message) (unat (?n - sizeof_Message)) (us_body a) = Some (l, buf2)"
        "length buf2 = 131072"
      using n(3) b1(2) by (metis sock_recv_in_range)
    obtain ok where ok: "validate_message buf2 ?n = Some ok"
      using validate_message_total [OF n(1), of buf2] n(2) b2(2) by auto
    obtain k out where "sock_send buf2 (unat ?n) (us_sent a) = Some (k, out)"
      using n(2) b2(2) by (metis sock_send_in_range)
    then show ?thesis using False M b1 b2 sz ok by (auto simp: uds_server_round_def Let_def)
  qed
qed


definition lat_bounded :: "client_stats \<Rightarrow> bool" where
  "lat_bounded st \<longleftrightarrow> length (cs_lat st) \<le> MAX_LATENCIES"

lemma no_latencies: "lat_bounded \<lparr>cs_ops = 0, cs_bytes = 0, cs_lat = []\<rparr>"
  by (simp add: lat_bounded_def)

lemma count_answer_bounded [simp]: "lat_bounded st \<Longrightarrow> lat_bounded (count_answer st l n)"
  by (simp add: lat_bounded_def count_answer_def)

lemma uds_client_round_safe:
  assumes len: "length buf = unat MAX_MSG_SIZE"
  shows "\<exists>go_on buf' st' out. uds_client_round buf st a = Some (go_on, buf', st', out) \<and>
    length buf' = unat MAX_MSG_SIZE \<and> (lat_bounded st \<longrightarrow> lat_bounded st')"
proof -
  have M: "unat MAX_MSG_SIZE = 131072" by (simp add: MAX_MSG_SIZE_def)
  obtain buf1 n where b1: "next_request (uc_rnd a) (uc_stamp a) buf = Some buf1" "length buf1 = 131072"
    "load32 buf1 off_size = Some n" "unat n < 4132"
    using next_request_effect [OF len, of "uc_rnd a" "uc_stamp a"] len M by auto
  have "unat n \<le> length buf1" using b1(2,4) by simp
  then obtain k out where out: "sock_send buf1 (unat n) (uc_sent a) = Some (k, out)"
    by (metis sock_send_in_range)
  have "0 + unat sizeof_Message \<le> length buf1" using b1(2) by simp
  then obtain h buf2 where b2: "sock_recv buf1 0 (unat sizeof_Message) (uc_header a) = Some (h, buf2)" "length buf2 = 131072"
    using b1(2) by (metis sock_recv_in_range)
  obtain sz where sz: "load32 buf2 off_size = Some sz" using load32_Some [of off_size buf2] b2(2) by auto
  let ?n = "ucast sz :: u64"
  show ?thesis
  proof (cases "k \<noteq> int (unat n) \<or> h \<le> 0 \<or> ?n < sizeof_Message + 4 \<or> ?n > MAX_MSG_SIZE")
    case True
    then show ?thesis using b1 out b2 sz M by (auto simp: uds_client_round_def Let_def)
  next
    case False
    then have r: "36 \<le> unat ?n" "unat ?n \<le> 131072" "unat sizeof_Message + unat (?n - sizeof_Message) \<le> length buf2"
      using body_in_range [of ?n] b2(2) by simp_all
    obtain l buf3 where b3: "sock_recv buf2 (unat sizeof_Message) (unat (?n - sizeof_Message)) (uc_body a) = Some (l, buf3)"
        "length buf3 = 131072"
      using r(3) b2(2) by (metis sock_recv_in_range)
    obtain v where v: "validate_message buf3 ?n = Some v"
      using validate_message_total [OF r(1), of buf3] r(2) b3(2) by auto
    obtain ts where "load64 buf3 off_timestamp = Some ts"
      using b3(2) by (auto simp: load64_def mem_read_def)
    then show ?thesis using False b1 out b2 sz b3 v M by (auto simp: uds_client_round_def Let_def)
  qed
qed

lemma uds_server_loop_safe:
  assumes "length buf = unat MAX_MSG_SIZE"
  shows "uds_server_loop end_time buf as \<noteq> None"
  using assms
proof (induction as arbitrary: buf)
  case Nil
  then show ?case by simp
next
  case (Cons a as)
  obtain go_on buf' out where r: "uds_server_round buf a = Some (go_on, buf', out)" "length buf' = unat MAX_MSG_SIZE"
    using uds_server_round_safe [of buf a] Cons.prems by auto
  then show ?case using Cons.IH [of buf'] by auto
qed

lemma uds_client_loop_safe:
  assumes "length buf = unat MAX_MSG_SIZE" "lat_bounded st"
  shows "\<exists>st'. lat_bounded st' \<and>
    (uds_client_loop end_time buf st as = Some (Left_loop st') \<or> uds_client_loop end_time buf st as = Some (In_loop st'))"
  using assms
proof (induction as arbitrary: buf st)
  case Nil
  then show ?case by auto
next
  case (Cons a as)
  obtain go_on buf' st' out where r: "uds_client_round buf st a = Some (go_on, buf', st', out)"
      "length buf' = unat MAX_MSG_SIZE" "lat_bounded st'"
    using uds_client_round_safe [of buf st a] Cons.prems by auto
  then show ?case using Cons.IH [of buf' st'] Cons.prems by auto
qed

subsection \<open>The echo\<close>

text \<open>A server iteration that receives a whole request sends it back.\<close>

lemma uds_server_echoes:
  assumes len: "length buf = unat MAX_MSG_SIZE" and m: "request m"
    and sz: "load32 m off_size = Some (word_of_nat (length m))"
    and a: "us_header a = Received (take 32 m)" "us_body a = Received (drop 32 m)" "us_sent a = Accepted (length m)"
  shows "uds_server_round buf a = Some (True, m @ drop (length m) buf, m)"
proof -
  have lm: "2084 \<le> length m" "length m < 4132" using request_lengths [OF m] by auto
  have lb: "length buf = 131072" using len by (simp add: MAX_MSG_SIZE_def)
  let ?n = "word_of_nat (length m) :: u64"
  let ?b1 = "take 32 m @ drop 32 buf" and ?b2 = "m @ drop (length m) buf"
  have w1: "sock_recv buf 0 32 (Received (take 32 m)) = Some (32, ?b1)"
    using sock_recv_received [of "take 32 m" 32 0 buf] lm lb by (simp add: min_def)
  have "load32 ?b1 off_size = load32 m off_size"
    using mem_read_prefix [of 32 ?b1 m off_size 4] lm lb by (simp add: load32_def)
  then have s1: "load32 ?b1 off_size = Some (word_of_nat (length m))" using sz by simp
  have n: "(ucast (word_of_nat (length m) :: u32) :: u64) = ?n"
    using request_lengths [OF m] by (simp add: word_eq_unat)
  have range: "\<not> ?n < sizeof_Message + 4" "\<not> ?n > MAX_MSG_SIZE"
    using request_lengths [OF m] by (simp_all add: word_order_unat MAX_MSG_SIZE_def)
  have u: "unat ?n = length m" using request_lengths [OF m] by simp
  have d: "unat (?n - 32) = length m - 32" using body_in_range(3) [OF range] u by simp
  have w2: "sock_recv ?b1 32 (length m - 32) (Received (drop 32 m)) = Some (int (length m - 32), ?b2)"
    using sock_recv_received [of "drop 32 m" "length m - 32" 32 ?b1] lm lb by (simp add: min_def add.commute)
  have v: "validate_message ?b2 ?n = Some True"
    using request_validates [OF m, of ?b2] by simp
  have rd: "sock_send ?b2 (length m) (Accepted (length m)) = Some (int (length m), m)"
    using sock_send_accepted [of "length m" ?b2] by simp
  show ?thesis
    using range by (simp add: uds_server_round_def a w1 s1 n d w2 v u rd Let_def)
qed


lemma take_drop_splice: "take k xs @ take j (drop k xs) @ drop (k + j) xs = xs"
  by (metis add.commute append_take_drop_id drop_drop)

text \<open>A client iteration whose request comes back whole counts one operation of its length.\<close>

lemma uds_client_counts:
  assumes len: "length buf = unat MAX_MSG_SIZE"
    and b1: "next_request (uc_rnd a) (uc_stamp a) buf = Some buf1" and n: "load32 buf1 off_size = Some n"
    and m: "m = take (unat n) buf1"
    and a: "uc_sent a = Accepted (unat n)" "uc_header a = Received (take 32 m)" "uc_body a = Received (drop 32 m)"
  shows "request m \<and> load32 m off_size = Some (word_of_nat (length m)) \<and>
     uds_client_round buf st a
       = Some (True, buf1, count_answer st (uc_done a - uc_stamp a) (word_of_nat (length m)), m)"
proof -
  obtain n' where e: "length buf1 = length buf" "load32 buf1 off_size = Some n'" "request (take (unat n') buf1)"
    "unat n' < 4132" "load64 buf1 off_timestamp = Some (uc_stamp a)"
    using next_request_effect [OF len, of "uc_rnd a" "uc_stamp a"] b1 by auto
  then have r: "request m" and n4: "unat n < 4132" using n m by auto
  have lb: "length buf1 = 131072" using e(1) len by (simp add: MAX_MSG_SIZE_def)
  have lm: "length m = unat n" using m n4 lb by simp
  note rl = request_lengths [OF r]
  have sz: "load32 m off_size = Some (word_of_nat (length m))"
    using mem_read_prefix [of "unat n" m buf1 off_size 4] lm rl lb n m by (simp add: load32_def)
  have out: "sock_send buf1 (unat n) (Accepted (unat n)) = Some (int (unat n), m)"
    using sock_send_accepted [of "unat n" buf1] m n4 lb by simp
  have w1: "sock_recv buf1 0 32 (Received (take 32 m)) = Some (32, buf1)"
    using sock_recv_received [of "take 32 m" 32 0 buf1] m rl lm lb by (simp add: min_def)
  have w2: "sock_recv buf1 32 (length m - 32) (Received (drop 32 m)) = Some (int (length m - 32), buf1)"
  proof -
    have "drop 32 m = take (unat n - 32) (drop 32 buf1)" by (simp add: m drop_take)
    then have "take 32 buf1 @ drop 32 m @ drop (32 + (unat n - 32)) buf1 = buf1"
      by (simp only: take_drop_splice)
    then show ?thesis using sock_recv_received [of "drop 32 m" "length m - 32" 32 buf1] rl lm lb by simp
  qed
  have c: "(ucast n :: u64) = word_of_nat (length m)" using lm rl by (simp add: word_eq_unat)
  have range: "\<not> (word_of_nat (length m) :: u64) < sizeof_Message + 4" "\<not> (word_of_nat (length m) :: u64) > MAX_MSG_SIZE"
    using rl by (simp_all add: word_order_unat MAX_MSG_SIZE_def)
  have d: "unat ((word_of_nat (length m) :: u64) - 32) = length m - 32"
    using body_in_range(3) [OF range] rl by simp
  have v: "validate_message buf1 (word_of_nat (length m)) = Some True"
    using request_validates [OF r, of buf1] m lm by simp
  show ?thesis
    using r sz range by (simp add: uds_client_round_def b1 n a out w1 w2 c d v e(5) Let_def)
qed


subsection \<open>Properties\<close>

text \<open>C18: safety against any peer. Whatever bytes and errors the socket delivers, no call of server or
  client hands the kernel a range outside its block, and no read or write of their own leaves it: every
  declared size is checked before it is used as the length of a call.\<close>

theorem uds_blocking_safe:
  assumes "length buf = unat MAX_MSG_SIZE"
  shows "run_uds_blocking_server (Some buf) fd start secs sas \<noteq> None \<and>
    run_uds_blocking_client (Some buf) lats start secs cpu stats cas \<noteq> None"
proof -
  have "run_uds_blocking_client (Some buf) lats start secs cpu stats cas \<noteq> None"
  proof -
    obtain st where st: "lat_bounded st"
      "uds_client_loop (start + word_of_int secs * 1000000) buf \<lparr>cs_ops = 0, cs_bytes = 0, cs_lat = []\<rparr> cas
         = Some (Left_loop st) \<or>
       uds_client_loop (start + word_of_int secs * 1000000) buf \<lparr>cs_ops = 0, cs_bytes = 0, cs_lat = []\<rparr> cas
         = Some (In_loop st)"
      using uds_client_loop_safe [OF assms no_latencies] by blast
    then show ?thesis
      using finish_stats_total [of "cs_lat st" "fst cpu" "snd cpu" secs "with_counts stats st"]
      by (auto simp: run_uds_blocking_client_def lat_bounded_def)
  qed
  then show ?thesis using uds_server_loop_safe [OF assms] by (simp add: run_uds_blocking_server_def)
qed

theorem uds_blocking_safe_witness:
  "run_uds_blocking_server (Some (replicate (unat MAX_MSG_SIZE) 7)) 3 0 1
     [\<lparr>us_now = 5, us_header = Received (replicate 4 0 @ [0, 0, 2, 0] @ replicate 24 0),
       us_body = Received (replicate 200000 1), us_sent = Send_fails EPIPE\<rparr>] \<noteq> None"
  by (rule uds_blocking_safe [THEN conjunct1]) simp

text \<open>C19: one exchange. When the kernel delivers each request and each answer in the two pieces the code
  asks for, the server sends back exactly the request, and the client accepts it, counts one operation
  of its length and records the time since its stamp.\<close>

theorem uds_blocking_exchange:
  assumes "length cbuf = unat MAX_MSG_SIZE" "length sbuf = unat MAX_MSG_SIZE"
    and "next_request (uc_rnd ca) (uc_stamp ca) cbuf = Some buf1" "load32 buf1 off_size = Some n"
    and "m = take (unat n) buf1"
    and "us_header sa = Received (take 32 m)" "us_body sa = Received (drop 32 m)" "us_sent sa = Accepted (length m)"
    and "uc_sent ca = Accepted (unat n)" "uc_header ca = Received (take 32 m)" "uc_body ca = Received (drop 32 m)"
  shows "uds_server_round sbuf sa = Some (True, m @ drop (length m) sbuf, m) \<and>
    uds_client_round cbuf st ca
      = Some (True, buf1, count_answer st (uc_done ca - uc_stamp ca) (word_of_nat (length m)), m)"
proof -
  have c: "request m \<and> load32 m off_size = Some (word_of_nat (length m)) \<and> uds_client_round cbuf st ca
      = Some (True, buf1, count_answer st (uc_done ca - uc_stamp ca) (word_of_nat (length m)), m)"
    by (rule uds_client_counts [OF assms(1,3-5,9-11)])
  then show ?thesis using uds_server_echoes [OF assms(2) _ _ assms(6-8)] by simp
qed

theorem uds_blocking_exchange_witness:
  "\<exists>m sa ca buf1. uds_server_round (replicate (unat MAX_MSG_SIZE) 0) sa
       = Some (True, m @ drop (length m) (replicate (unat MAX_MSG_SIZE) 0), m) \<and>
     uds_client_round (replicate (unat MAX_MSG_SIZE) 0) \<lparr>cs_ops = 0, cs_bytes = 0, cs_lat = []\<rparr> ca
       = Some (True, buf1, \<lparr>cs_ops = 1, cs_bytes = word_of_nat (length m), cs_lat = [4]\<rparr>, m)"
proof -
  let ?c = "replicate (unat MAX_MSG_SIZE) (0 :: u8)"
  let ?st = "\<lparr>cs_ops = 0, cs_bytes = 0, cs_lat = []\<rparr>"
  obtain b n where b: "next_request 7 5 ?c = Some b" "load32 b off_size = Some n"
    using next_request_effect [of ?c 7 5] by auto
  define m where "m = take (unat n) b"
  let ?ca = "\<lparr>uc_now = 1, uc_rnd = 7, uc_stamp = 5, uc_sent = Accepted (unat n), uc_header = Received (take 32 m),
      uc_body = Received (drop 32 m), uc_done = 9\<rparr>"
  let ?sa = "\<lparr>us_now = 1, us_header = Received (take 32 m), us_body = Received (drop 32 m), us_sent = Accepted (length m)\<rparr>"
  have "uds_server_round ?c ?sa = Some (True, m @ drop (length m) ?c, m) \<and>
      uds_client_round ?c ?st ?ca = Some (True, b, count_answer ?st (9 - 5) (word_of_nat (length m)), m)"
    using uds_blocking_exchange [of ?c ?c ?ca b n m ?sa ?st] b m_def by simp
  then show ?thesis
    by (intro exI [of _ m] exI [of _ ?sa] exI [of _ ?ca] exI [of _ b]) (simp add: count_answer_def MAX_LATENCIES_def)
qed

text \<open>A short read is not noticed. The server takes a body of any shorter length, or none at all at
  the end of the stream, for the whole message and sends \<open>msg_size\<close> bytes: the missing ones are what
  its block held before.\<close>

theorem uds_blocking_short_body:
  assumes "length buf = unat MAX_MSG_SIZE" "length hdr = 32"
    and "load32 hdr off_size = Some n" "36 \<le> unat n" "unat n \<le> unat MAX_MSG_SIZE"
    and "length body < unat n - 32"
    and "us_header a = Received hdr" "us_body a = Received body" "us_sent a = Accepted (unat n)"
  shows "\<exists>buf'. uds_server_round buf a
    = Some (True, buf', hdr @ body @ take (unat n - (32 + length body)) (drop (32 + length body) buf))"
proof -
  have lb: "length buf = 131072" using assms(1) by (simp add: MAX_MSG_SIZE_def)
  have n: "unat n \<le> 131072" using assms(5) by (simp add: MAX_MSG_SIZE_def)
  let ?b1 = "hdr @ drop 32 buf" and ?b2 = "hdr @ body @ drop (32 + length body) buf"
  have range: "\<not> (ucast n :: u64) < sizeof_Message + 4" "\<not> (ucast n :: u64) > MAX_MSG_SIZE"
    using assms(4,5) by (simp_all add: word_order_unat)
  have d: "unat ((ucast n :: u64) - 32) = unat n - 32" using body_in_range(3) [OF range] by simp
  have w1: "sock_recv buf 0 32 (Received hdr) = Some (32, ?b1)"
    using sock_recv_received [of hdr 32 0 buf] assms(2) lb by simp
  have s: "load32 ?b1 off_size = Some n"
    using assms(2,3) mem_read_prefix [of 32 ?b1 hdr off_size 4] lb by (simp add: load32_def)
  have w2: "sock_recv ?b1 32 (unat n - 32) (Received body) = Some (int (length body), ?b2)"
    using sock_recv_received [of body "unat n - 32" 32 ?b1] assms(2,4,6) lb n by (simp add: add.commute)
  obtain v where v: "validate_message ?b2 (ucast n) = Some v"
    using validate_message_total [of "ucast n" ?b2] assms(2,4,6) lb n by auto
  have rd: "sock_send ?b2 (unat n) (Accepted (unat n))
      = Some (int (unat n), hdr @ body @ take (unat n - (32 + length body)) (drop (32 + length body) buf))"
    using sock_send_accepted [of "unat n" ?b2] assms(2,4,6) lb n by simp
  show ?thesis
    using range by (intro exI [of _ ?b2]) (simp add: uds_server_round_def assms(7-9) w1 s d w2 v rd Let_def)
qed

theorem uds_blocking_short_body_witness:
  "\<exists>buf'. uds_server_round (replicate (unat MAX_MSG_SIZE) 7)
     \<lparr>us_now = 1, us_header = Received (replicate 4 0 @ [40, 0, 0, 0] @ replicate 24 0), us_body = Received [], us_sent = Accepted 40\<rparr>
   = Some (True, buf', (replicate 4 0 @ [40, 0, 0, 0] @ replicate 24 0) @ [] @ replicate 8 7)"
proof -
  let ?hdr = "replicate 4 0 @ [40, 0, 0, 0] @ replicate 24 (0 :: u8)"
  let ?a = "\<lparr>us_now = 1, us_header = Received ?hdr, us_body = Received [], us_sent = Accepted 40\<rparr>"
  have h: "load32 ?hdr off_size = Some 40" by (simp add: load32_def mem_read_def)
  have "take (unat (40 :: u32) - (32 + length ([] :: bytes))) (drop (32 + length ([] :: bytes)) (replicate (unat MAX_MSG_SIZE) (7 :: u8)))
      = replicate 8 7"
    by (simp add: MAX_MSG_SIZE_def)
  then show ?thesis
    using uds_blocking_short_body [of "replicate (unat MAX_MSG_SIZE) 7" ?hdr 40 "[]" ?a] h
    by (simp only: uds_server_answers.select_convs length_replicate) (simp add: MAX_MSG_SIZE_def)
qed

text \<open>C20: resources of the socket backend. A set-up that fails early releases the descriptor and the block;
  when \<open>listen\<close> fails the bound path stays behind; and the tear-down of a server that ran unlinks
  \<open>SOCKET_PATH\<close>, not the path it bound, which stays behind too.\<close>

theorem uds_blocking_resources:
  assumes "setup_uds_blocking_server path heap fd bind_ret listen_ret = (st, evs)" "path \<noteq> SOCKET_PATH"
  shows "holding {#} (evs @ free_uds_blocking st) =
      (if heap \<and> fd \<noteq> -1 \<and> bind_ret \<noteq> -1 then {#Path path#} else {#})"
  using assms by (auto simp: setup_uds_blocking_server_def SOCKET_PATH_def split: if_splits)

theorem uds_blocking_resources_witness:
  "holding {#} (snd (setup_uds_blocking_server ''/tmp/uds_blocking.sock'' True 3 0 0)
     @ free_uds_blocking (fst (setup_uds_blocking_server ''/tmp/uds_blocking.sock'' True 3 0 0)))
   = {#Path ''/tmp/uds_blocking.sock''#}"
  using uds_blocking_resources [of "''/tmp/uds_blocking.sock''" True 3 0 0] by (simp add: SOCKET_PATH_def)

end
