(* ===== verification/Uds_Nonblocking.thy ===== *)
theory Uds_Nonblocking
  imports Uds_Blocking
begin

section \<open>Unix domain socket, non-blocking client (uds\_nonblocking.h, uds\_nonblocking.c)\<close>

text \<open>
  Set-up, tear-down, the server (the same blocking calls as in the blocking backend, so the same loop)
  and the client, whose exchanges go through \<open>read_nonblocking\<close> and \<open>write_nonblocking\<close>.
\<close>

subsection \<open>Setup and tear-down\<close>

record UDSNonblockingState =
  un_fd :: int
  un_is_server :: bool

text \<open>The arguments are what the calls return, in the order of the calls.\<close>

definition setup_uds_nonblocking_server ::
  "string \<Rightarrow> bool \<Rightarrow> int \<Rightarrow> int \<Rightarrow> int \<Rightarrow> UDSNonblockingState option \<times> os_event list" where
  "setup_uds_nonblocking_server socket_path heap fd bind_ret listen_ret =
     (if \<not> heap then (None, [])
      else if fd = -1 then (None, [Acquire Heap, Release Heap])
      else if bind_ret = -1 then
        (None, [Acquire Heap, Acquire (Fd fd), Release (Path socket_path), Release (Fd fd), Release Heap])
      else if listen_ret = -1 then
        (None, [Acquire Heap, Acquire (Fd fd), Release (Path socket_path), Acquire (Path socket_path),
                Release (Fd fd), Release Heap])
      else (Some \<lparr>un_fd = fd, un_is_server = True\<rparr>,
            [Acquire Heap, Acquire (Fd fd), Release (Path socket_path), Acquire (Path socket_path)]))"

text \<open>\<open>connect_ret\<close> and \<open>in_progress\<close>: the result of \<open>connect\<close> and whether \<open>errno\<close> is \<open>EINPROGRESS\<close>;
  \<open>poll_ret\<close> and \<open>pollerr\<close>: the result of the poll with its time limit, and \<open>POLLERR\<close> in \<open>revents\<close>.\<close>

definition setup_uds_nonblocking_client ::
  "bool \<Rightarrow> int \<Rightarrow> int \<Rightarrow> int \<Rightarrow> int \<Rightarrow> bool \<Rightarrow> int \<Rightarrow> bool \<Rightarrow> UDSNonblockingState option \<times> os_event list" where
  "setup_uds_nonblocking_client heap fd flags setfl_ret connect_ret in_progress poll_ret pollerr =
     (let failed = (None, [Acquire Heap, Acquire (Fd fd), Release (Fd fd), Release Heap])
      in if \<not> heap then (None, [])
         else if fd = -1 then (None, [Acquire Heap, Release Heap])
         else if flags = -1 then failed
         else if setfl_ret = -1 then failed
         else if connect_ret = -1 \<and> \<not> in_progress then failed
         else if poll_ret \<le> 0 then failed
         else if pollerr then failed
         else (Some \<lparr>un_fd = fd, un_is_server = False\<rparr>, [Acquire Heap, Acquire (Fd fd)]))"

fun free_uds_nonblocking :: "UDSNonblockingState option \<Rightarrow> os_event list" where
  "free_uds_nonblocking None = []"
| "free_uds_nonblocking (Some st) =
     [Release (Fd (un_fd st))] @ (if un_is_server st then [Release (Path SOCKET_PATH)] else []) @ [Release Heap]"

subsection \<open>The server\<close>

text \<open>Its iterations are those of the blocking backend, call by call: \<open>uds_server_loop\<close>.\<close>

definition run_uds_nonblocking_server ::
  "bytes option \<Rightarrow> int \<Rightarrow> u64 \<Rightarrow> int \<Rightarrow> uds_server_answers list \<Rightarrow> (bytes progress \<times> os_event list) option" where
  "run_uds_nonblocking_server heap client_fd start_time duration_secs as =
     (case heap of
        None \<Rightarrow> Some (Left_loop [], [])
      | Some buf \<Rightarrow>
          if client_fd = -1 then Some (Left_loop [], [Acquire Heap, Release Heap])
          else do {
            r \<leftarrow> uds_server_loop (start_time + word_of_int duration_secs * 1000000) buf as;
            (case r of
               Left_loop out \<Rightarrow>
                 Some (r, [Acquire Heap, Acquire (Fd client_fd), Release (Fd client_fd), Release Heap])
             | In_loop out \<Rightarrow> Some (r, [Acquire Heap, Acquire (Fd client_fd)]))
          })"

subsection \<open>The client\<close>

record un_client_answers =
  un_now :: u64
  un_rnd :: int
  un_stamp :: u64
  un_sent :: "send_answer list"
  un_header :: "recv_answer list"
  un_body :: "recv_answer list"
  un_done :: u64

text \<open>How an iteration ends: with another one, by a \<open>break\<close>, or waiting inside a helper.\<close>

datatype next_action = Go_on | Break | Hang

definition un_client_round ::
  "bytes \<Rightarrow> client_stats \<Rightarrow> un_client_answers \<Rightarrow> (next_action \<times> bytes \<times> client_stats \<times> bytes) option" where
  "un_client_round buf st a = do {
     buf1 \<leftarrow> next_request (un_rnd a) (un_stamp a) buf;
     n \<leftarrow> load32 buf1 off_size;
     sent \<leftarrow> write_nonblocking (un_sent a) buf1 (unat n) 0 [];
     (case sent of
        Waiting out \<Rightarrow> Some (Hang, buf1, st, out)
      | Returns Minus_one out \<Rightarrow> Some (Break, buf1, st, out)
      | Returns (Total k) out \<Rightarrow>
          if k \<noteq> unat n then Some (Break, buf1, st, out) else do {
            header_bytes \<leftarrow> read_nonblocking (un_header a) buf1 0 (unat sizeof_Message) 0;
            (case header_bytes of
               Waiting buf2 \<Rightarrow> Some (Hang, buf2, st, out)
             | Returns Minus_one buf2 \<Rightarrow> Some (Break, buf2, st, out)
             | Returns (Total k') buf2 \<Rightarrow>
                 if k' = 0 then Some (Break, buf2, st, out) else do {
                   sz \<leftarrow> load32 buf2 off_size;
                   let msg_size = (ucast sz :: u64);
                   if msg_size < sizeof_Message + 4 \<or> msg_size > MAX_MSG_SIZE then Some (Break, buf2, st, out)
                   else do {
                     body_bytes \<leftarrow> read_nonblocking (un_body a) buf2 (unat sizeof_Message)
                       (unat (msg_size - sizeof_Message)) 0;
                     (case body_bytes of
                        Waiting buf3 \<Rightarrow> Some (Hang, buf3, st, out)
                      | Returns Minus_one buf3 \<Rightarrow> Some (Break, buf3, st, out)
                      | Returns (Total k'') buf3 \<Rightarrow> do {
                          valid \<leftarrow> validate_message buf3 msg_size;
                          sent_at \<leftarrow> load64 buf3 off_timestamp;
                          Some (Go_on, buf3, count_answer st (un_done a - sent_at) msg_size, out)
                        })
                   }
                 })
          })
   }"

fun un_client_loop ::
  "u64 \<Rightarrow> bytes \<Rightarrow> client_stats \<Rightarrow> un_client_answers list \<Rightarrow> client_stats progress option" where
  "un_client_loop end_time buf st [] = Some (In_loop st)"
| "un_client_loop end_time buf st (a # as) =
     (if \<not> un_now a < end_time then Some (Left_loop st)
      else do {
        (act, buf', st', out) \<leftarrow> un_client_round buf st a;
        (case act of
           Go_on \<Rightarrow> un_client_loop end_time buf' st' as
         | Break \<Rightarrow> Some (Left_loop st')
         | Hang \<Rightarrow> Some (In_loop st'))
      })"

definition run_uds_nonblocking_client ::
  "bytes option \<Rightarrow> bool \<Rightarrow> u64 \<Rightarrow> int \<Rightarrow> rat \<times> rat \<Rightarrow> BenchmarkStats \<Rightarrow> un_client_answers list
     \<Rightarrow> (BenchmarkStats progress \<times> os_event list) option" where
  "run_uds_nonblocking_client heap lats start_time duration_secs cpu stats as =
     (case heap of
        None \<Rightarrow> Some (Left_loop stats, [])
      | Some buf \<Rightarrow>
          if \<not> lats then Some (Left_loop stats, [Acquire Heap, Release Heap])
          else do {
            r \<leftarrow> un_client_loop (start_time + word_of_int duration_secs * 1000000) buf
                  \<lparr>cs_ops = 0, cs_bytes = 0, cs_lat = []\<rparr> as;
            (case r of
               In_loop st \<Rightarrow> Some (In_loop (with_counts stats st), [Acquire Heap, Acquire Heap])
             | Left_loop st \<Rightarrow> do {
                 stats' \<leftarrow> finish_stats (fst cpu) (snd cpu) duration_secs (cs_lat st) (with_counts stats st);
                 Some (Left_loop stats', [Acquire Heap, Acquire Heap, Release Heap, Release Heap])
               })
          })"

subsection \<open>Safety against any peer\<close>

lemma write_nonblocking_cases [consumes 1]:
  assumes "n \<le> length buf"
  obtains (waits) k where "write_nonblocking as buf n 0 [] = Some (Waiting (take k buf))" "k < n"
  | (fails) k where "write_nonblocking as buf n 0 [] = Some (Returns Minus_one (take k buf))"
  | (returns) "write_nonblocking as buf n 0 [] = Some (Returns (Total n) (take n buf))"
  using write_nonblocking_safe [of 0 n buf as] assms by auto

lemma read_nonblocking_cases [consumes 1]:
  assumes "off + n \<le> length buf"
  obtains (waits) buf' where "read_nonblocking as buf off n 0 = Some (Waiting buf')" "length buf' = length buf"
  | (fails) buf' where "read_nonblocking as buf off n 0 = Some (Returns Minus_one buf')" "length buf' = length buf"
  | (returns) buf' k where "read_nonblocking as buf off n 0 = Some (Returns (Total k) buf')" "length buf' = length buf" "k \<le> n"
  using read_nonblocking_safe [of 0 n off buf as] assms by auto

lemma un_client_round_safe:
  assumes len: "length buf = unat MAX_MSG_SIZE"
  shows "\<exists>act buf' st' out. un_client_round buf st a = Some (act, buf', st', out) \<and>
    length buf' = unat MAX_MSG_SIZE \<and> (lat_bounded st \<longrightarrow> lat_bounded st')"
proof -
  have M: "unat MAX_MSG_SIZE = 131072" by (simp add: MAX_MSG_SIZE_def)
  obtain buf1 n where b1: "next_request (un_rnd a) (un_stamp a) buf = Some buf1" "length buf1 = 131072"
    "load32 buf1 off_size = Some n" "unat n < 4132"
    using next_request_effect [OF len, of "un_rnd a" "un_stamp a"] len M by auto
  have n: "unat n \<le> length buf1" using b1 by simp
  show ?thesis
    using n
  proof (cases rule: write_nonblocking_cases [where as = "un_sent a"])
    case (waits k)
    then show ?thesis using b1 M by (simp add: un_client_round_def)
  next
    case (fails k)
    then show ?thesis using b1 M by (simp add: un_client_round_def)
  next
    case sent: returns
    have h: "0 + unat sizeof_Message \<le> length buf1" using b1(2) by simp
    show ?thesis
      using h
    proof (cases rule: read_nonblocking_cases [where as = "un_header a"])
      case (waits buf2)
      then show ?thesis using b1 M sent by (simp add: un_client_round_def)
    next
      case (fails buf2)
      then show ?thesis using b1 M sent by (simp add: un_client_round_def)
    next
      case (returns buf2 k)
      then have l2: "length buf2 = 131072" using b1(2) by simp
      obtain sz where sz: "load32 buf2 off_size = Some sz" using load32_Some [of off_size buf2] l2 by auto
      let ?n = "ucast sz :: u64"
      show ?thesis
      proof (cases "k = 0 \<or> ?n < sizeof_Message + 4 \<or> ?n > MAX_MSG_SIZE")
        case True
        then show ?thesis using b1 M sent returns sz by (auto simp: un_client_round_def Let_def)
      next
        case ok: False
        have r: "36 \<le> unat ?n" "unat ?n \<le> 131072"
          using ok by (simp_all add: word_order_unat MAX_MSG_SIZE_def)
        have d: "unat (?n - sizeof_Message) = unat ?n - 32"
          using r by (simp add: unat_sub_u64)
        have bd: "unat sizeof_Message + unat (?n - sizeof_Message) \<le> length buf2" using r l2 d by simp
        show ?thesis
          using bd
        proof (cases rule: read_nonblocking_cases [where as = "un_body a"])
          case (waits buf3)
          then show ?thesis using b1 M sent returns(1) sz ok l2 by (auto simp: un_client_round_def Let_def)
        next
          case (fails buf3)
          then show ?thesis using b1 M sent returns(1) sz ok l2 by (auto simp: un_client_round_def Let_def)
        next
          case body: (returns buf3 k')
          then have l3: "length buf3 = 131072" using l2 by simp
          obtain v where v: "validate_message buf3 ?n = Some v"
            using validate_message_total [OF r(1), of buf3] r(2) l3 by auto
          obtain ts where "load64 buf3 off_timestamp = Some ts"
            using l3 by (auto simp: load64_def mem_read_def)
          then show ?thesis using b1 M sent returns(1) sz ok body v l3
            by (auto simp: un_client_round_def Let_def)
        qed
      qed
    qed
  qed
qed

lemma un_client_loop_safe:
  assumes "length buf = unat MAX_MSG_SIZE" "lat_bounded st"
  shows "\<exists>st'. lat_bounded st' \<and>
    (un_client_loop end_time buf st as = Some (Left_loop st') \<or> un_client_loop end_time buf st as = Some (In_loop st'))"
  using assms
proof (induction as arbitrary: buf st)
  case Nil
  then show ?case by auto
next
  case (Cons a as)
  obtain act buf' st' out where "un_client_round buf st a = Some (act, buf', st', out)"
      "length buf' = unat MAX_MSG_SIZE" "lat_bounded st'"
    using un_client_round_safe [of buf st a] Cons.prems by auto
  then show ?case using Cons.IH [of buf' st'] Cons.prems by (cases act) auto
qed


subsection \<open>Exchanges\<close>

text \<open>What the client's block holds after a request has been built.\<close>

lemma built_request:
  assumes len: "length buf = unat MAX_MSG_SIZE"
    and b1: "next_request rnd stamp buf = Some buf1" and n: "load32 buf1 off_size = Some n"
    and m: "m = take (unat n) buf1"
  shows "request m" "length m = unat n" "length buf1 = 131072" "36 \<le> length m" "length m < 4132"
    "load32 buf1 off_size = Some (word_of_nat (length m))" "load64 buf1 off_timestamp = Some stamp"
    "(ucast n :: u64) = word_of_nat (length m)" "validate_message buf1 (word_of_nat (length m)) = Some True"
    "\<not> (word_of_nat (length m) :: u64) < sizeof_Message + 4" "\<not> MAX_MSG_SIZE < word_of_nat (length m)"
proof -
  obtain n' where e: "length buf1 = length buf" "load32 buf1 off_size = Some n'" "request (take (unat n') buf1)"
    "unat n' < 4132" "load64 buf1 off_timestamp = Some stamp"
    using next_request_effect [OF len, of rnd stamp] b1 by auto
  then show r: "request m" and "load64 buf1 off_timestamp = Some stamp" using n m by auto
  show lb: "length buf1 = 131072" using e(1) len by (simp add: MAX_MSG_SIZE_def)
  show lm: "length m = unat n" using m n e(2,4) lb by simp
  note rl = request_lengths [OF r]
  show l36: "36 \<le> length m" and l: "length m < 4132" using rl by auto
  show c: "(ucast n :: u64) = word_of_nat (length m)" using lm rl by (simp add: word_eq_unat)
  show "load32 buf1 off_size = Some (word_of_nat (length m))" using n lm by simp
  show "validate_message buf1 (word_of_nat (length m)) = Some True"
    using request_validates [OF r, of buf1] m lm by simp
  show "\<not> (word_of_nat (length m) :: u64) < sizeof_Message + 4" "\<not> MAX_MSG_SIZE < word_of_nat (length m)"
    using rl by (simp_all add: word_order_unat MAX_MSG_SIZE_def)
qed

text \<open>Reading back the block's own bytes leaves the block as it is.\<close>

lemma read_back:
  assumes "flowing as" "off + k \<le> length buf" "k \<le> length (delivered as)"
    and "take k (delivered as) = take k (drop off buf)"
  shows "read_nonblocking as buf off k 0 = Some (Returns (Total k) buf)"
  using read_nonblocking_flow [of as k 0 off buf] assms by (simp add: take_drop_splice)

text \<open>The same when the peer closes the stream early.\<close>

lemma read_nonblocking_eof:
  assumes "flowing as" "tot + length (delivered as) < n" "off + n \<le> length buf"
    and "drop (off + tot) buf = delivered as @ z"
  shows "read_nonblocking (as @ Received [] # rest) buf off n tot
     = Some (Returns (Total (tot + length (delivered as))) buf)"
  using assms
proof (induction as arbitrary: tot)
  case Nil
  then show ?case by simp
next
  case (Cons a as)
  show ?case
  proof (cases a)
    case (Recv_fails e)
    then show ?thesis using Cons by auto
  next
    case (Received bs)
    then have bs: "bs \<noteq> []" "bs = take (n - tot) bs" and fl: "flowing as" and lt: "tot < n"
      using Cons.prems(1,2) by auto
    have d: "drop (off + (tot + length bs)) buf = delivered as @ z"
      using arg_cong [OF Cons.prems(4), of "drop (length bs)"] Received by (simp add: add.commute add.left_commute)
    have "buf = take (off + tot) buf @ drop (off + tot) buf" by simp
    then have "take (off + tot) buf @ bs @ drop (off + tot + length bs) buf = buf"
      using d Cons.prems(4) Received by (simp add: add.assoc)
    then have "read_nonblocking (Received bs # as @ Received [] # rest) buf off n tot
        = read_nonblocking (as @ Received [] # rest) buf off n (tot + length bs)"
      using read_nonblocking_received [OF lt Cons.prems(3) bs] by simp
    also have "\<dots> = Some (Returns (Total (tot + length bs + length (delivered as))) buf)"
      using Cons.prems(2,3) Received by (intro Cons.IH fl d) simp_all
    finally show ?thesis using Received by (simp add: add.assoc)
  qed
qed


text \<open>An iteration whose helpers return: the answer declares \<open>sz\<close>, and it is what the block then holds that is
  validated and counted.\<close>

lemma un_client_round_answered:
  assumes len: "length buf = unat MAX_MSG_SIZE"
    and b1: "next_request (un_rnd a) (un_stamp a) buf = Some buf1" and n: "load32 buf1 off_size = Some n"
    and m: "m = take (unat n) buf1"
    and w: "draining (un_sent a)" "unat n \<le> accepted (un_sent a)"
    and h: "read_nonblocking (un_header a) buf1 0 32 0 = Some (Returns (Total 32) buf2)"
    and sz: "load32 buf2 off_size = Some sz" "36 \<le> unat sz" "unat sz \<le> unat MAX_MSG_SIZE"
    and b: "read_nonblocking (un_body a) buf2 32 (unat sz - 32) 0 = Some (Returns (Total k) buf3)"
    and v: "length buf3 = unat MAX_MSG_SIZE" "load64 buf3 off_timestamp = Some stamp"
  shows "un_client_round buf st a = Some (Go_on, buf3, count_answer st (un_done a - stamp) (ucast sz), m)"
proof -
  note r = built_request [OF len b1 n m]
  have out: "write_nonblocking (un_sent a) buf1 (unat n) 0 [] = Some (Returns (Total (unat n)) m)"
    using write_nonblocking_drain [OF w, of buf1] r by (simp add: m)
  have range: "\<not> (ucast sz :: u64) < sizeof_Message + 4" "\<not> (ucast sz :: u64) > MAX_MSG_SIZE"
    using sz(2,3) by (simp_all add: word_order_unat)
  have d: "unat ((ucast sz :: u64) - 32) = unat sz - 32" using body_in_range(3) [OF range] by simp
  obtain ok where "validate_message buf3 (ucast sz) = Some ok"
    using validate_message_total [of "ucast sz" buf3] sz(2,3) v(1) by auto
  then show ?thesis
    using b1 n out h sz(1) b v(2) range d by (simp add: un_client_round_def Let_def)
qed

subsection \<open>Properties\<close>

text \<open>C30: exchanges are exact under any fragmentation. Let the server answer with any message that declares
  its own length, at least 36 and at most \<open>MAX_MSG_SIZE\<close> bytes. However the kernel cuts request and answer into
  pieces, and however often it interrupts the calls, the client sends exactly its request, its block then
  starts with exactly the answer, in place of the request, and it counts one operation of the length of the
  answer, with the time since the stamp the answer carries.\<close>

theorem uds_nonblocking_exchange:
  assumes "length buf = unat MAX_MSG_SIZE"
    and "next_request (un_rnd a) (un_stamp a) buf = Some buf1" "load32 buf1 off_size = Some n"
    and "m = take (unat n) buf1"
    and "draining (un_sent a)" "length m \<le> accepted (un_sent a)"
    and "36 \<le> length answer" "length answer \<le> unat MAX_MSG_SIZE"
    and "load32 answer off_size = Some (word_of_nat (length answer))"
    and "load64 answer off_timestamp = Some stamp"
    and "flowing (un_header a)" "delivered (un_header a) = take 32 answer"
    and "flowing (un_body a)" "delivered (un_body a) = drop 32 answer"
  shows "un_client_round buf st a
     = Some (Go_on, answer @ drop (length answer) buf1,
         count_answer st (un_done a - stamp) (word_of_nat (length answer)), m)"
proof -
  note r = built_request [OF assms(1-4)]
  have M: "unat MAX_MSG_SIZE = 131072" by (simp add: MAX_MSG_SIZE_def)
  let ?sz = "word_of_nat (length answer) :: u32"
  let ?buf2 = "take 32 answer @ drop 32 buf1" and ?buf3 = "answer @ drop (length answer) buf1"
  have u: "unat ?sz = length answer" using assms(8) M by (simp add: unat_of_nat)
  have h: "read_nonblocking (un_header a) buf1 0 32 0 = Some (Returns (Total 32) ?buf2)"
    using read_nonblocking_flow [OF assms(11), of 32 0 0 buf1] assms(7,12) r(3) by simp
  have "load32 ?buf2 off_size = load32 answer off_size"
    using mem_read_prefix [of 32 ?buf2 answer off_size 4] assms(7) r(3) by (simp add: load32_def)
  then have sz: "load32 ?buf2 off_size = Some ?sz" using assms(9) by simp
  have "take (length answer - 32) (drop 32 answer) = drop 32 answer" by simp
  then have b: "read_nonblocking (un_body a) ?buf2 32 (unat ?sz - 32) 0 = Some (Returns (Total (unat ?sz - 32)) ?buf3)"
    using read_nonblocking_flow [OF assms(13), of "length answer - 32" 0 32 ?buf2] assms(7,8,14) r(3) M u
    by (simp add: min_def add.commute)
  have "load64 ?buf3 off_timestamp = load64 answer off_timestamp"
    using mem_read_prefix [of "length answer" ?buf3 answer off_timestamp 8] assms(7) by (simp add: load64_def)
  then have st: "load64 ?buf3 off_timestamp = Some stamp" using assms(10) by simp
  have l3: "length ?buf3 = unat MAX_MSG_SIZE" using assms(8) r(3) M by simp
  have c: "(ucast ?sz :: u64) = word_of_nat (length answer)" using u assms(8) M by (simp add: word_eq_unat unat_of_nat)
  show ?thesis
    using un_client_round_answered [OF assms(1-5) _ h sz _ _ b l3 st] assms(6-8) r(2) u c by simp
qed

text \<open>C33: a truncated answer counts. When the server closes the connection in the middle of the body the helper
  returns a short count, which the client does not compare with the length it asked for; and because its
  block still holds the request, the validation succeeds and the operation is counted in full.\<close>

theorem uds_nonblocking_truncated:
  assumes "length buf = unat MAX_MSG_SIZE"
    and "next_request (un_rnd a) (un_stamp a) buf = Some buf1" "load32 buf1 off_size = Some n"
    and "m = take (unat n) buf1"
    and "draining (un_sent a)" "length m \<le> accepted (un_sent a)"
    and "flowing (un_header a)" "32 \<le> length (delivered (un_header a))"
    and "take 32 (delivered (un_header a)) = take 32 m"
    and "flowing some" "delivered some = take k (drop 32 m)" "32 + k < length m"
    and "un_body a = some @ [Received []]"
  shows "un_client_round buf st a
       = Some (Go_on, buf1, count_answer st (un_done a - un_stamp a) (word_of_nat (length m)), m) \<and>
    validate_message buf1 (word_of_nat (length m)) = Some True"
proof -
  note r = built_request [OF assms(1-4)]
  have h: "read_nonblocking (un_header a) buf1 0 32 0 = Some (Returns (Total 32) buf1)"
    using read_back [OF assms(7) _ assms(8), of 0 buf1] assms(4,9) r by (simp add: min_def)
  have l: "length (delivered some) = k" using assms(11,12) by simp
  have d: "drop 32 buf1 = delivered some @ drop k (drop 32 buf1)"
  proof -
    have "take k (drop 32 m) = take k (drop 32 buf1)"
      using assms(12) r(2) by (simp add: assms(4) drop_take min_def)
    then show ?thesis using assms(11) by (metis append_take_drop_id)
  qed
  have "read_nonblocking (un_body a) buf1 32 (length m - 32) 0 = Some (Returns (Total k) buf1)"
    using read_nonblocking_eof [OF assms(10), of 0 "length m - 32" 32 buf1 "drop k (drop 32 buf1)" "[]"]
      d l assms(12,13) r(3,5) by simp
  moreover have "length buf1 = unat MAX_MSG_SIZE" "unat n \<le> unat MAX_MSG_SIZE"
    using r(2,3,5) by (simp_all add: MAX_MSG_SIZE_def)
  ultimately have "un_client_round buf st a = Some (Go_on, buf1, count_answer st (un_done a - un_stamp a) (ucast n), m)"
    using un_client_round_answered [OF assms(1-5) _ h assms(3) _ _ _ _ r(7), of k] assms(6) r(2,4) by simp
  then show ?thesis using r(9) by (simp only: r(8) simp_thms)
qed

text \<open>C31: safety against any peer. Whatever the kernel answers to the client, no access leaves its block: the
  declared size is checked before it is used, and the loops never read more than they were asked for.\<close>

theorem uds_nonblocking_safe:
  assumes "length buf = unat MAX_MSG_SIZE"
  shows "run_uds_nonblocking_client (Some buf) lats start secs cpu stats as \<noteq> None"
proof -
  let ?loop = "un_client_loop (start + word_of_int secs * 1000000) buf \<lparr>cs_ops = 0, cs_bytes = 0, cs_lat = []\<rparr> as"
  obtain st where st: "lat_bounded st" "?loop = Some (Left_loop st) \<or> ?loop = Some (In_loop st)"
    using un_client_loop_safe [OF assms no_latencies] by blast
  then show ?thesis
    using finish_stats_total [of "cs_lat st" "fst cpu" "snd cpu" secs "with_counts stats st"]
    by (auto simp: run_uds_nonblocking_client_def lat_bounded_def)
qed

text \<open>C32: the helpers return. \<open>read_nonblocking\<close> is still waiting exactly when everything so far was bytes or a
  retry and fewer than \<open>n\<close> bytes came; \<open>write_nonblocking\<close> exactly when the kernel has taken fewer than
  \<open>n\<close>. A hard error, the end of the stream and the last byte all end them, and both make progress with
  every answer that is not a retry.\<close>

theorem uds_helpers_return:
  assumes "n \<le> length buf" "off + n \<le> length buf"
  shows "((\<exists>buf'. read_nonblocking rs buf off n 0 = Some (Waiting buf')) \<longleftrightarrow>
      flowing rs \<and> length (delivered rs) < n) \<and>
    ((\<exists>out. write_nonblocking ws buf n 0 [] = Some (Waiting out)) \<longleftrightarrow>
      draining ws \<and> accepted ws < n)"
proof -
  have "(\<exists>out. write_nonblocking ws buf n 0 [] = Some (Waiting out)) \<longleftrightarrow> draining ws \<and> accepted ws < n"
    using write_nonblocking_safe [of 0 n buf ws] assms(1) by auto
  then show ?thesis using read_nonblocking_waits [of 0 n off buf rs] assms(2) by simp
qed

text \<open>No leaks. Every failing path of the client's set-up releases the block and the descriptor, and set-up
  followed by tear-down leaves nothing behind.\<close>

theorem uds_nonblocking_no_leak:
  "holding {#} (snd (setup_uds_nonblocking_client heap fd flags setfl con prog pol perr)) =
     (if fst (setup_uds_nonblocking_client heap fd flags setfl con prog pol perr) = None
      then {#} else {#Heap, Fd fd#}) \<and>
   holding {#} (snd (setup_uds_nonblocking_client heap fd flags setfl con prog pol perr)
     @ free_uds_nonblocking (fst (setup_uds_nonblocking_client heap fd flags setfl con prog pol perr))) = {#}"
  by (simp add: setup_uds_nonblocking_client_def Let_def)


text \<open>Concrete exchanges for the witnesses: the answer cut after ten bytes of the header, with retries.\<close>

definition un_example :: "bytes \<Rightarrow> recv_answer list \<Rightarrow> un_client_answers" where
  "un_example m body = \<lparr>un_now = 1, un_rnd = 7, un_stamp = 5,
     un_sent = [Send_fails EINTR, Accepted 100, Send_fails (EAGAIN True), Accepted (length m)],
     un_header = [Received (take 10 m), Recv_fails (EAGAIN True), Received (drop 10 (take 32 m))],
     un_body = body, un_done = 9\<rparr>"

text \<open>An answer that is not the request: it declares 40 bytes and carries the time stamp 3.\<close>

definition other_answer :: bytes where
  "other_answer = [9, 9, 9, 9, 40, 0, 0, 0, 9, 9, 9, 9, 9, 9, 9, 9, 3, 0, 0, 0, 0, 0, 0, 0,
     9, 9, 9, 9, 9, 9, 9, 9, 1, 2, 3, 4, 5, 6, 7, 8]"

lemma other_answer_fields:
  "length other_answer = 40" "load32 other_answer off_size = Some 40" "load64 other_answer off_timestamp = Some 3"
  "drop 32 other_answer = [1, 2, 3, 4, 5, 6, 7, 8]" "other_answer \<noteq> []"
  "take 10 other_answer @ drop 10 (take 32 other_answer) = take 32 other_answer"
  by (simp_all add: other_answer_def load32_def load64_def mem_read_def)

definition zero_stats :: client_stats where "zero_stats = \<lparr>cs_ops = 0, cs_bytes = 0, cs_lat = []\<rparr>"

definition zero_block :: bytes where "zero_block = replicate (unat MAX_MSG_SIZE) 0"

lemma un_example_request:
  obtains buf1 n m where "length zero_block = unat MAX_MSG_SIZE" "next_request 7 5 zero_block = Some buf1"
    "load32 buf1 off_size = Some n" "m = take (unat n) buf1" "36 \<le> length m" "m \<noteq> []"
proof -
  have z: "length zero_block = unat MAX_MSG_SIZE" by (simp add: zero_block_def)
  obtain b n where b: "next_request 7 5 zero_block = Some b" "load32 b off_size = Some n"
    using next_request_effect [OF z, of 7 5] by auto
  have l: "36 \<le> length (take (unat n) b)" using built_request(4) [OF z b HOL.refl] .
  moreover have "take (unat n) b \<noteq> []" using l by (metis list.size(3) not_numeral_le_zero)
  ultimately show thesis by (rule that [OF z b HOL.refl])
qed

theorem uds_nonblocking_exchange_witness:
  "\<exists>m b. un_client_round zero_block zero_stats
       (un_example (other_answer @ replicate (length m) 0) [Recv_fails EINTR, Received [1, 2, 3], Received [4, 5, 6, 7, 8]])
     = Some (Go_on, other_answer @ b, \<lparr>cs_ops = 1, cs_bytes = 40, cs_lat = [6]\<rparr>, m)"
proof -
  obtain buf1 n m where b: "length zero_block = unat MAX_MSG_SIZE" "next_request 7 5 zero_block = Some buf1"
    "load32 buf1 off_size = Some n" "m = take (unat n) buf1" "36 \<le> length m" "m \<noteq> []"
    by (rule un_example_request)
  let ?a = "un_example (other_answer @ replicate (length m) 0)
    [Recv_fails EINTR, Received [1, 2, 3], Received [4, 5, 6, 7, 8]]"
  have "un_client_round zero_block zero_stats ?a
      = Some (Go_on, other_answer @ drop (length other_answer) buf1,
          count_answer zero_stats (un_done ?a - 3) (word_of_nat (length other_answer)), m)"
    using b(2,5) by (intro uds_nonblocking_exchange [OF b(1) _ b(3,4)])
      (simp_all add: un_example_def other_answer_fields MAX_MSG_SIZE_def)
  then show ?thesis
    by (intro exI [of _ m] exI [of _ "drop (length other_answer) buf1"])
      (simp add: un_example_def zero_stats_def count_answer_def MAX_LATENCIES_def other_answer_def)
qed

theorem uds_nonblocking_truncated_witness:
  "\<exists>m b. un_client_round zero_block zero_stats (un_example m [Recv_fails EINTR, Received []])
     = Some (Go_on, b, \<lparr>cs_ops = 1, cs_bytes = word_of_nat (length m), cs_lat = [4]\<rparr>, m)"
proof -
  obtain buf1 n m where b: "length zero_block = unat MAX_MSG_SIZE" "next_request 7 5 zero_block = Some buf1"
    "load32 buf1 off_size = Some n" "m = take (unat n) buf1" "36 \<le> length m" "m \<noteq> []"
    by (rule un_example_request)
  let ?a = "un_example m [Recv_fails EINTR, Received []]"
  have "un_client_round zero_block zero_stats ?a
      = Some (Go_on, buf1, count_answer zero_stats (un_done ?a - un_stamp ?a) (word_of_nat (length m)), m)"
    using b(2,5,6) take_add [of 10 22 m]
    by (intro uds_nonblocking_truncated [OF b(1) _ b(3,4), of _ "[Recv_fails EINTR]" 0, THEN conjunct1])
      (auto simp: un_example_def take_drop min_def)
  then show ?thesis by (auto simp: un_example_def zero_stats_def count_answer_def MAX_LATENCIES_def)
qed

theorem uds_nonblocking_safe_witness:
  "run_uds_nonblocking_client (Some zero_block) True 0 10 (0, 0) no_stats
     [un_example [] [Received (replicate 500 255)], un_example (replicate 40 255) [Recv_fails (EAGAIN False)]] \<noteq> None"
  by (rule uds_nonblocking_safe) (simp add: zero_block_def)

theorem uds_helpers_return_witness:
  "\<exists>buf'. read_nonblocking [Received [1], Recv_fails EINTR, Received [2, 3]] (replicate 8 0) 2 4 0 = Some (Waiting buf')"
  using uds_helpers_return [of 4 "replicate 8 0" 2 "[Received [1], Recv_fails EINTR, Received [2, 3]]" "[]"] by simp

end
