(* ===== verification/Shared_Segment.thy ===== *)
theory Shared_Segment
  imports Os_Resources Messages
begin

section \<open>The shared segments: setup\_* and free\_* of the four shared-memory backends\<close>

text \<open>
  What the set-up and tear-down functions do with the operating system: the named object, the
  descriptor, the mapping and its size. The stores that initialise the struct, and the client's polling
  of \<open>ready\<close>, run concurrently with the other process and belong to the step functions of the backends.
  A mapping is counted in the pages it occupies: \<open>mmap\<close> and \<open>munmap\<close> round lengths up to pages.
\<close>

definition pages :: "nat \<Rightarrow> nat \<Rightarrow> nat" where
  "pages page_size len = (len + page_size - 1) div page_size"

text \<open>What the calls return: the descriptor of \<open>shm_open\<close>, the result of \<open>ftruncate\<close>, whether \<open>mmap\<close>
  succeeds.\<close>

record segment_answers =
  sg_fd :: int
  sg_truncated :: int
  sg_mapped :: bool

subsection \<open>The size of the lock-free rings\<close>

text \<open>\<open>__builtin_clzll\<close>; undefined for zero.\<close>

fun leading_zeros :: "nat \<Rightarrow> u64 \<Rightarrow> nat" where
  "leading_zeros 0 w = 0"
| "leading_zeros (Suc i) w = (if bit w i then 0 else Suc (leading_zeros i w))"

definition clzll :: "u64 \<Rightarrow> nat option" where
  "clzll w = (if w = 0 then None else Some (leading_zeros 64 w))"

text \<open>\<open>1ULL << (64 - __builtin_clzll(size - 1))\<close>; a shift by the width of the type is undefined too.\<close>

definition ring_capacity :: "u64 \<Rightarrow> u64 option" where
  "ring_capacity sz =
     clzll (sz - 1) \<bind> (\<lambda>z. if 64 - z < 64 then Some (push_bit (64 - z) 1) else None)"

text \<open>\<open>(tot + page_size - 1) & ~(page_size - 1)\<close>.\<close>

definition round_to_page :: "u64 \<Rightarrow> u64 \<Rightarrow> u64" where
  "round_to_page page_size tot = (tot + page_size - 1) AND (NOT (page_size - 1))"

subsection \<open>Opening and mapping\<close>

text \<open>The server's branch: unlink the old object, create, truncate, map; after the initialisation the
  descriptor is closed.\<close>

definition server_segment :: "string \<Rightarrow> nat \<Rightarrow> u64 \<Rightarrow> segment_answers \<Rightarrow> bool \<times> os_event list" where
  "server_segment name page_size tot a =
     (let opened = [Release (Path name), Acquire (Path name), Acquire (Fd (sg_fd a))];
          failed = opened @ [Release (Fd (sg_fd a)), Release (Path name)]
      in if sg_fd a = -1 then (False, [Release (Path name)])
         else if sg_truncated a = -1 then (False, failed)
         else if \<not> sg_mapped a then (False, failed)
         else (True, opened @ [Acquire (Mapping (pages page_size (unat tot))), Release (Fd (sg_fd a))]))"

text \<open>The client's branch: open the existing object and map it; after the polling the descriptor is closed.\<close>

definition client_segment :: "string \<Rightarrow> nat \<Rightarrow> u64 \<Rightarrow> segment_answers \<Rightarrow> bool \<times> os_event list" where
  "client_segment name page_size tot a =
     (if sg_fd a = -1 then (False, [])
      else if \<not> sg_mapped a then (False, [Acquire (Fd (sg_fd a)), Release (Fd (sg_fd a))])
      else (True, [Acquire (Fd (sg_fd a)), Acquire (Mapping (pages page_size (unat tot))),
                   Release (Fd (sg_fd a))]))"

subsection \<open>The four backends\<close>

text \<open>The structs' sizes on x86-64: mutex 40 and condition 48 bytes; the lock-free ones are aligned to cache
  lines. The result is the size of the ring and what was acquired; \<open>None\<close>: undefined behaviour.\<close>

definition setup_shm_blocking ::
  "u64 \<Rightarrow> bool \<Rightarrow> nat \<Rightarrow> segment_answers \<Rightarrow> u64 option \<times> os_event list" where
  "setup_shm_blocking sz is_server page_size a =
     (let total_size = 168 + sz;
          (ok, evs) = (if is_server then server_segment ''/shm_blocking'' page_size total_size a
                       else client_segment ''/shm_blocking'' page_size total_size a)
      in (if ok then Some sz else None, evs))"

definition setup_shm_nonblocking ::
  "u64 \<Rightarrow> bool \<Rightarrow> nat \<Rightarrow> segment_answers \<Rightarrow> u64 option \<times> os_event list" where
  "setup_shm_nonblocking sz is_server page_size a =
     (let total_size = 168 + sz;
          (ok, evs) = (if is_server then server_segment ''/shm_nonblocking'' page_size total_size a
                       else client_segment ''/shm_nonblocking'' page_size total_size a)
      in (if ok then Some sz else None, evs))"

definition setup_lfshm_blocking ::
  "u64 \<Rightarrow> bool \<Rightarrow> nat \<Rightarrow> segment_answers \<Rightarrow> (u64 option \<times> os_event list) option" where
  "setup_lfshm_blocking sz is_server page_size a = do {
     capacity \<leftarrow> ring_capacity sz;
     let total_size = round_to_page (word_of_nat page_size) (192 + capacity);
     let (ok, evs) = (if is_server then server_segment ''/lfshm_blocking_ring_buffer'' page_size total_size a
                      else client_segment ''/lfshm_blocking_ring_buffer'' page_size total_size a);
     Some (if ok then Some capacity else None, evs)
   }"

definition setup_lfshm_nonblocking ::
  "u64 \<Rightarrow> bool \<Rightarrow> nat \<Rightarrow> segment_answers \<Rightarrow> (u64 option \<times> os_event list) option" where
  "setup_lfshm_nonblocking sz is_server page_size a = do {
     capacity \<leftarrow> ring_capacity sz;
     let total_size = round_to_page (word_of_nat page_size) (192 + capacity);
     let (ok, evs) = (if is_server then server_segment ''/lfshm_nonblocking_ring_buffer'' page_size total_size a
                      else client_segment ''/lfshm_nonblocking_ring_buffer'' page_size total_size a);
     Some (if ok then Some capacity else None, evs)
   }"

text \<open>The last two calls of the servers' tear-down, and the clients' tear-down. The argument is the sz
  stored in the ring, if the set-up returned one.\<close>

fun unmap_segment :: "string \<Rightarrow> u64 \<Rightarrow> bool \<Rightarrow> nat \<Rightarrow> u64 option \<Rightarrow> os_event list" where
  "unmap_segment name header is_server page_size None = []"
| "unmap_segment name header is_server page_size (Some sz) =
     Release (Mapping (pages page_size (unat (header + sz)))) # (if is_server then [Release (Path name)] else [])"

definition unmap_shm_blocking_server :: "nat \<Rightarrow> u64 option \<Rightarrow> os_event list" where
  "unmap_shm_blocking_server = unmap_segment ''/shm_blocking'' 168 True"

definition free_shm_blocking_client :: "nat \<Rightarrow> u64 option \<Rightarrow> os_event list" where
  "free_shm_blocking_client = unmap_segment ''/shm_blocking'' 168 False"

definition unmap_shm_nonblocking_server :: "nat \<Rightarrow> u64 option \<Rightarrow> os_event list" where
  "unmap_shm_nonblocking_server = unmap_segment ''/shm_nonblocking'' 168 True"

definition free_shm_nonblocking_client :: "nat \<Rightarrow> u64 option \<Rightarrow> os_event list" where
  "free_shm_nonblocking_client = unmap_segment ''/shm_nonblocking'' 168 False"

definition unmap_lfshm_blocking_server :: "nat \<Rightarrow> u64 option \<Rightarrow> os_event list" where
  "unmap_lfshm_blocking_server = unmap_segment ''/lfshm_blocking_ring_buffer'' 192 True"

definition free_lfshm_blocking_client :: "nat \<Rightarrow> u64 option \<Rightarrow> os_event list" where
  "free_lfshm_blocking_client = unmap_segment ''/lfshm_blocking_ring_buffer'' 192 False"

definition unmap_lfshm_nonblocking_server :: "nat \<Rightarrow> u64 option \<Rightarrow> os_event list" where
  "unmap_lfshm_nonblocking_server = unmap_segment ''/lfshm_nonblocking_ring_buffer'' 192 True"

definition free_lfshm_nonblocking_client :: "nat \<Rightarrow> u64 option \<Rightarrow> os_event list" where
  "free_lfshm_nonblocking_client = unmap_segment ''/lfshm_nonblocking_ring_buffer'' 192 False"

subsection \<open>Sizes\<close>

lemma leading_zeros_bounds:
  assumes "0 < unat w" "unat w < 2 ^ i"
  shows "leading_zeros i w < i \<and> 2 ^ (i - leading_zeros i w - 1) \<le> unat w \<and> unat w < 2 ^ (i - leading_zeros i w)"
  using assms
proof (induction i)
  case 0
  then show ?case by simp
next
  case (Suc i)
  have b: "bit w i \<longleftrightarrow> 2 ^ i \<le> unat w"
  proof -
    have "unat w div 2 ^ i < 2" using Suc.prems(2) by (simp add: less_mult_imp_div_less)
    then have "odd (unat w div 2 ^ i) \<longleftrightarrow> unat w div 2 ^ i \<noteq> 0" by (cases "unat w div 2 ^ i" rule: nat.exhaust) auto
    moreover have "bit w i \<longleftrightarrow> odd (unat w div 2 ^ i)"
    proof -
      have "bit (unat w) i = bit w i" by (simp add: bit_unsigned_iff)
      then show ?thesis by (simp add: bit_iff_odd)
    qed
    ultimately show ?thesis by (simp add: div_eq_0_iff not_less)
  qed
  show ?case
  proof (cases "bit w i")
    case True
    then show ?thesis using b Suc.prems by simp
  next
    case False
    then have "unat w < 2 ^ i" using b by simp
    then show ?thesis using Suc.IH Suc.prems(1) False by (auto simp: Suc_diff_le)
  qed
qed

lemma unat_pow2: "k < 64 \<Longrightarrow> unat (2 ^ k :: u64) = 2 ^ k"
  using unat_of_nat_u64 [of "2 ^ k"] power_strict_increasing [of k 64 "2 :: nat"] by simp

lemma ring_capacity_least:
  assumes "2 \<le> unat sz" "unat sz \<le> 2 ^ 63"
  shows "\<exists>capacity k. ring_capacity sz = Some capacity \<and> unat capacity = 2 ^ k \<and>
    unat sz \<le> unat capacity \<and> unat capacity < 2 * unat sz \<and> k < 64"
proof -
  let ?w = "sz - 1"
  have w: "unat ?w = unat sz - 1" using assms(1) by (simp add: unat_sub_u64)
  let ?z = "leading_zeros 64 ?w"
  have b: "?z < 64 \<and> 2 ^ (64 - ?z - 1) \<le> unat ?w \<and> unat ?w < 2 ^ (64 - ?z)"
    using leading_zeros_bounds [of ?w 64] w assms(1) unat_lt_64 [of ?w] by simp
  have z: "0 < ?z"
  proof (rule ccontr)
    assume "\<not> 0 < ?z"
    then have "2 ^ 63 \<le> unat ?w" using b by simp
    then show False using w assms by simp
  qed
  have "?w \<noteq> 0" using w assms(1) by auto
  then have c: "ring_capacity sz = Some (push_bit (64 - ?z) 1)"
    using z by (simp add: ring_capacity_def clzll_def)
  have "unat (push_bit (64 - ?z) 1 :: u64) = 2 ^ (64 - ?z)"
    using z by (simp add: push_bit_eq_mult unat_pow2)
  moreover have "unat sz \<le> 2 ^ (64 - ?z)" using b w assms(1) by linarith
  moreover have "2 ^ (64 - ?z) < 2 * unat sz"
  proof -
    have "(2 :: nat) ^ (64 - ?z) = 2 * 2 ^ (64 - ?z - 1)" using b by (metis Suc_pred' power_Suc zero_less_diff diff_Suc_1 One_nat_def)
    then show ?thesis using b w assms(1) by linarith
  qed
  ultimately show ?thesis using c z by (intro exI [of _ "push_bit (64 - ?z) 1"] exI [of _ "64 - ?z"]) simp
qed

lemma round_to_page_eq:
  assumes "k < 64" "unat tot + 2 ^ k \<le> 2 ^ 64"
  shows "unat (round_to_page (2 ^ k) tot) = (unat tot + 2 ^ k - 1) div 2 ^ k * 2 ^ k"
proof -
  let ?x = "tot + 2 ^ k - 1 :: u64"
  have "?x AND NOT (mask k) = push_bit k (drop_bit k ?x)"
    by (rule bit_eqI) (auto simp: bit_simps)
  then have "round_to_page (2 ^ k) tot = push_bit k (drop_bit k ?x)"
    by (simp add: round_to_page_def mask_eq_exp_minus_1)
  moreover have "unat ?x = unat tot + 2 ^ k - 1"
  proof (cases "unat tot + 2 ^ k = 2 ^ 64")
    case True
    then have "tot + 2 ^ k = 0"
      using assms(1) by (simp add: word_eq_unat unat_word_ariths(1) unat_pow2)
    moreover have "unat (- 1 :: u64) = 2 ^ 64 - 1" by (simp add: unsigned_minus_1_eq_mask mask_eq_exp_minus_1)
    ultimately show ?thesis using True by simp
  next
    case False
    then have "unat (tot + 2 ^ k) = unat tot + 2 ^ k"
      using assms by (simp add: unat_add_u64 unat_pow2)
    moreover have "1 \<le> unat tot + 2 ^ k" by (simp add: Suc_leI)
    ultimately show ?thesis by (simp add: unat_sub_u64)
  qed
  moreover have "unat (push_bit k (drop_bit k y)) = unat y div 2 ^ k * 2 ^ k" for y :: u64
  proof -
    have "unat y div 2 ^ k * 2 ^ k \<le> unat y" by simp
    then have "unat y div 2 ^ k * 2 ^ k < 2 ^ 64" using unat_lt_64 [of y] by linarith
    moreover have m: "unat y mod 18446744073709551616 = unat y" using unat_lt_64 [of y] by simp
    have "unat (push_bit k (drop_bit k y)) = unat y div 2 ^ k * 2 ^ k mod 2 ^ 64"
      by (simp add: unsigned_push_bit_eq unsigned_drop_bit_eq take_bit_eq_mod)
        (simp add: push_bit_eq_mult drop_bit_eq_div m)
    ultimately show ?thesis by simp
  qed
  ultimately show ?thesis by simp
qed


text \<open>Rounding up to pages and the page count of the unrounded length agree: \<open>munmap\<close> releases what was
  mapped.\<close>

lemma pages_round:
  assumes "k < 64" "unat tot + 2 ^ k \<le> 2 ^ 64"
  shows "pages (2 ^ k) (unat (round_to_page (2 ^ k) tot)) = pages (2 ^ k) (unat tot)"
proof -
  let ?q = "(unat tot + 2 ^ k - 1) div 2 ^ k"
  have "(q * p + p - 1) div p = q" if "0 < p" for q p :: nat
    using that div_mult_self1 [of p "p - 1" q] by (simp add: add.commute)
  then have "(?q * 2 ^ k + 2 ^ k - 1) div 2 ^ k = ?q" by (rule allI [THEN spec]) simp
  then show ?thesis by (simp add: pages_def round_to_page_eq [OF assms])
qed

subsection \<open>Resources\<close>

lemma server_segment_holding:
  "holding {#} (snd (server_segment name page_size tot a)) =
     (if fst (server_segment name page_size tot a) then {#Path name, Mapping (pages page_size (unat tot))#} else {#})"
  by (simp add: server_segment_def Let_def)

lemma client_segment_holding:
  "holding {#} (snd (client_segment name page_size tot a)) =
     (if fst (client_segment name page_size tot a) then {#Mapping (pages page_size (unat tot))#} else {#})"
  by (simp add: client_segment_def)


lemma segment_balance:
  assumes "pages P (unat tot) = pages P (unat (hdr + c))"
  shows "holding {#} (snd (if srv then server_segment name P tot a else client_segment name P tot a) @
    unmap_segment name hdr srv P
      (if fst (if srv then server_segment name P tot a else client_segment name P tot a) then Some c else None)) = {#}"
  using assms by (simp add: server_segment_holding client_segment_holding)

lemma lock_free_pages:
  assumes "2 \<le> unat sz" "unat sz \<le> 2 ^ 62" "k < 60"
  obtains c where "ring_capacity sz = Some c"
    "pages (2 ^ k) (unat (round_to_page (word_of_nat (2 ^ k)) (192 + c))) = pages (2 ^ k) (unat (192 + c))"
proof -
  obtain c where c: "ring_capacity sz = Some c" "unat c < 2 * unat sz"
    using ring_capacity_least [OF assms(1)] assms(2) by auto
  then have "unat c < 2 ^ 63" using assms(2) by simp
  moreover then have "unat (192 + c) = 192 + unat c" by (simp add: unat_add_u64)
  moreover have "(2 :: nat) ^ k \<le> 2 ^ 60" using assms(3) by (intro power_increasing) simp_all
  ultimately show thesis
    using assms(3) by (intro that [OF c(1)]) (simp add: pages_round)
qed

subsection \<open>Properties\<close>

lemma buffer_size_capacity: "ring_capacity BUFFER_SIZE = Some BUFFER_SIZE"
proof -
  have "leading_zeros 64 (4194303 :: u64) = 42"
    by (simp add: eval_nat_numeral(2-3) bit_numeral_simps) 
  then show ?thesis by (simp add: ring_capacity_def clzll_def BUFFER_SIZE_def push_bit_eq_mult)
qed

text \<open>C37: the ring of the lock-free backends has the least power of two that is not smaller than the
  requested size, for every size from 2 to \<open>2 ^ 63\<close>. Up to a requested size of \<open>2 ^ 31\<close> the capacity is at
  most \<open>2 ^ 31\<close>, so that every position below it, and its double, fit into 32 bits; the benchmark's own size
  is a power of two already. For a size of one byte (or none) the expression of the code is undefined.\<close>

theorem ring_capacity_power:
  assumes "2 \<le> unat sz" "unat sz \<le> 2 ^ 63"
  shows "(\<exists>capacity k. ring_capacity sz = Some capacity \<and> unat capacity = 2 ^ k \<and> unat sz \<le> unat capacity \<and>
      (\<forall>j. unat sz \<le> 2 ^ j \<longrightarrow> k \<le> j) \<and>
      (unat sz \<le> 2 ^ 31 \<longrightarrow> unat capacity \<le> 2 ^ 31 \<and>
         (\<forall>pos < unat capacity. unat (word_of_nat pos :: u32) = pos \<and> pos + pos < 2 ^ 32))) \<and>
    ring_capacity BUFFER_SIZE = Some BUFFER_SIZE \<and> ring_capacity 1 = None \<and> ring_capacity 0 = None"
proof -
  obtain capacity k where c: "ring_capacity sz = Some capacity" "unat capacity = 2 ^ k"
    "unat sz \<le> unat capacity" "unat capacity < 2 * unat sz"
    using ring_capacity_least [OF assms] by auto
  have "k \<le> j" if "unat sz \<le> 2 ^ j" for j
  proof -
    have "(2 :: nat) ^ k < 2 ^ Suc j" using c(2,4) that by simp
    then show ?thesis using power_less_imp_less_exp [of "2 :: nat" k "Suc j"] by simp
  qed
  note least = this
  have "unat capacity \<le> 2 ^ 31" "\<forall>pos < unat capacity. unat (word_of_nat pos :: u32) = pos \<and> pos + pos < 2 ^ 32"
    if "unat sz \<le> 2 ^ 31"
  proof -
    have "k \<le> 31" using least that by blast
    then have "(2 :: nat) ^ k \<le> 2 ^ 31" by (rule power_increasing) simp
    then show u: "unat capacity \<le> 2 ^ 31" using c(2) by (simp only:)
    show "\<forall>pos < unat capacity. unat (word_of_nat pos :: u32) = pos \<and> pos + pos < 2 ^ 32"
      using u by (auto simp: unat_of_nat)
  qed
  moreover have "ring_capacity 1 = None" by (simp add: ring_capacity_def clzll_def)
  moreover have "leading_zeros 64 (- 1) = 0" by (simp add: numeral_eq_Suc)
  then have "ring_capacity 0 = None" by (simp add: ring_capacity_def clzll_def)
  ultimately show ?thesis using c least buffer_size_capacity by blast
qed

text \<open>C38: no leaks. In each shared-memory backend a set-up that fails leaves nothing behind, on every error
  path, and after a set-up that succeeds and the tear-down of the same side neither the object nor the
  mapping is left, rounded sizes included.\<close>

theorem segments_no_leak:
  assumes "2 \<le> unat sz" "unat sz \<le> 2 ^ 62" "k < 60"
  shows "holding {#} (snd (setup_shm_blocking sz srv (2 ^ k) a) @
      (if srv then unmap_shm_blocking_server else free_shm_blocking_client) (2 ^ k)
        (fst (setup_shm_blocking sz srv (2 ^ k) a))) = {#} \<and>
    holding {#} (snd (setup_shm_nonblocking sz srv (2 ^ k) a) @
      (if srv then unmap_shm_nonblocking_server else free_shm_nonblocking_client) (2 ^ k)
        (fst (setup_shm_nonblocking sz srv (2 ^ k) a))) = {#} \<and>
    (\<exists>r evs. setup_lfshm_blocking sz srv (2 ^ k) a = Some (r, evs) \<and> holding {#} (evs @
      (if srv then unmap_lfshm_blocking_server else free_lfshm_blocking_client) (2 ^ k) r) = {#}) \<and>
    (\<exists>r evs. setup_lfshm_nonblocking sz srv (2 ^ k) a = Some (r, evs) \<and> holding {#} (evs @
      (if srv then unmap_lfshm_nonblocking_server else free_lfshm_nonblocking_client) (2 ^ k) r) = {#})"
proof -
  obtain c where c: "ring_capacity sz = Some c"
    "pages (2 ^ k) (unat (round_to_page (word_of_nat (2 ^ k)) (192 + c))) = pages (2 ^ k) (unat (192 + c))"
    by (rule lock_free_pages [OF assms])
  note b = segment_balance [OF HOL.refl] segment_balance [OF c(2)]
  have "holding {#} (snd (setup_shm_blocking sz srv (2 ^ k) a) @
      (if srv then unmap_shm_blocking_server else free_shm_blocking_client) (2 ^ k)
        (fst (setup_shm_blocking sz srv (2 ^ k) a))) = {#}"
    using b(1) [of srv _ "2 ^ k" 168 sz a]
    by (cases srv) (simp_all add: setup_shm_blocking_def unmap_shm_blocking_server_def
        free_shm_blocking_client_def split_def Let_def)
  moreover have "holding {#} (snd (setup_shm_nonblocking sz srv (2 ^ k) a) @
      (if srv then unmap_shm_nonblocking_server else free_shm_nonblocking_client) (2 ^ k)
        (fst (setup_shm_nonblocking sz srv (2 ^ k) a))) = {#}"
    using b(1) [of srv _ "2 ^ k" 168 sz a]
    by (cases srv) (simp_all add: setup_shm_nonblocking_def unmap_shm_nonblocking_server_def
        free_shm_nonblocking_client_def split_def Let_def)
  moreover have "\<exists>r evs. setup_lfshm_blocking sz srv (2 ^ k) a = Some (r, evs) \<and> holding {#} (evs @
      (if srv then unmap_lfshm_blocking_server else free_lfshm_blocking_client) (2 ^ k) r) = {#}"
    using b(2) [of srv _ a] c(1)
    by (cases srv) (simp_all add: setup_lfshm_blocking_def unmap_lfshm_blocking_server_def
        free_lfshm_blocking_client_def split_def Let_def)
  moreover have "\<exists>r evs. setup_lfshm_nonblocking sz srv (2 ^ k) a = Some (r, evs) \<and> holding {#} (evs @
      (if srv then unmap_lfshm_nonblocking_server else free_lfshm_nonblocking_client) (2 ^ k) r) = {#}"
    using b(2) [of srv _ a] c(1)
    by (cases srv) (simp_all add: setup_lfshm_nonblocking_def unmap_lfshm_nonblocking_server_def
        free_lfshm_nonblocking_client_def split_def Let_def)
  ultimately show ?thesis by blast
qed

theorem ring_capacity_power_witness:
  "\<exists>c k. ring_capacity 5000 = Some c \<and> unat c = 2 ^ k \<and> 5000 \<le> unat c \<and> k \<le> 13 \<and> unat c \<le> 2 ^ 31"
  using ring_capacity_power [of 5000] by (auto simp del: unat_numeral)

theorem segments_no_leak_witness:
  "holding {#} (snd (setup_shm_blocking 4194304 True 4096 \<lparr>sg_fd = 3, sg_truncated = -1, sg_mapped = True\<rparr>) @
     unmap_shm_blocking_server 4096
       (fst (setup_shm_blocking 4194304 True 4096 \<lparr>sg_fd = 3, sg_truncated = -1, sg_mapped = True\<rparr>))) = {#}"
  using segments_no_leak [of 4194304 12 True "\<lparr>sg_fd = 3, sg_truncated = -1, sg_mapped = True\<rparr>"] by simp

end
