(* ===== verification/Command_Line.thy ===== *)
theory Command_Line
  imports Complex_Main Messages "HOL-Library.Sublist"
begin

section \<open>The command line (ipc\_benchmark.c)\<close>

text \<open>
  \<open>main\<close>: the environment variable, the option loop, the checks, the choice of the backend and the calls
  it makes, in their order. The C library's \<open>getopt_long\<close> and \<open>atoi\<close> are written out; \<open>atof\<close> is an
  argument. What is printed on the error stream is left out.
\<close>

subsection \<open>getopt\_long\<close>

datatype has_arg = No_argument | Required_argument

datatype opt = Opt char "string option" | Bad_option

text \<open>The tables of \<open>main\<close>.\<close>

definition long_options :: "(string \<times> has_arg \<times> char) list" where
  "long_options =
     [(''server'', No_argument, CHR ''s''),
      (''client'', No_argument, CHR ''c''),
      (''mode'', Required_argument, CHR ''m''),
      (''duration'', Required_argument, CHR ''d''),
      (''work'', Required_argument, CHR ''w''),
      (''help'', No_argument, CHR ''h'')]"

definition short_options :: "(char \<times> has_arg) list" where
  "short_options =
     [(CHR ''s'', No_argument), (CHR ''c'', No_argument), (CHR ''m'', Required_argument),
      (CHR ''d'', Required_argument), (CHR ''w'', Required_argument), (CHR ''h'', No_argument)]"

text \<open>A long option is named exactly or by an abbreviation that fits only one.\<close>

definition find_long :: "string \<Rightarrow> (has_arg \<times> char) option" where
  "find_long name =
     (case map_of long_options name of
        Some r \<Rightarrow> Some r
      | None \<Rightarrow> (case filter (\<lambda>(n, r). prefix name n) long_options of
                   [(n, r)] \<Rightarrow> Some r
                 | _ \<Rightarrow> None))"

text \<open>The part before the first \<open>=\<close>, and the part after it if there is one.\<close>

fun split_value :: "string \<Rightarrow> string \<times> string option" where
  "split_value [] = ([], None)"
| "split_value (c # cs) =
     (if c = CHR ''='' then ([], Some cs) else case split_value cs of (n, v) \<Rightarrow> (c # n, v))"

text \<open>The results of the calls of \<open>getopt_long\<close>, in order. The first argument is the rest of a cluster of
  short options; arguments that are no options are skipped.\<close>

function getopt :: "string \<Rightarrow> string list \<Rightarrow> opt list" where
  "getopt (c # cs) args =
     (case map_of short_options c of
        None \<Rightarrow> Bad_option # getopt cs args
      | Some No_argument \<Rightarrow> Opt c None # getopt cs args
      | Some Required_argument \<Rightarrow>
          if cs \<noteq> [] then Opt c (Some cs) # getopt [] args
          else (case args of
                  [] \<Rightarrow> [Bad_option]
                | v # args' \<Rightarrow> Opt c (Some v) # getopt [] args'))"
| "getopt [] [] = []"
| "getopt [] (a # args) =
     (if a = ''--'' then []
      else if take 2 a = ''--'' then
        (case split_value (drop 2 a) of (name, value) \<Rightarrow>
           case find_long name of
             None \<Rightarrow> Bad_option # getopt [] args
           | Some (No_argument, c) \<Rightarrow>
               (if value = None then Opt c None else Bad_option) # getopt [] args
           | Some (Required_argument, c) \<Rightarrow>
               (case value of
                  Some v \<Rightarrow> Opt c (Some v) # getopt [] args
                | None \<Rightarrow>
                    (case args of
                       [] \<Rightarrow> [Bad_option]
                     | v # args' \<Rightarrow> Opt c (Some v) # getopt [] args')))
      else if take 1 a = ''-'' \<and> length a > 1 then getopt (drop 1 a) args
      else getopt [] args)"
  by pat_completeness auto

termination
  by (relation "measure (\<lambda>(cs, args). length cs + sum_list (map (\<lambda>a. Suc (length a)) args))") auto

subsection \<open>atoi\<close>

definition is_digit :: "char \<Rightarrow> bool" where
  "is_digit c \<longleftrightarrow> c \<in> set ''0123456789''"

definition digit_value :: "char \<Rightarrow> int" where
  "digit_value c = int (of_char c) - 48"

fun digits_value :: "string \<Rightarrow> int \<Rightarrow> int" where
  "digits_value [] acc = acc"
| "digits_value (c # cs) acc = (if is_digit c then digits_value cs (acc * 10 + digit_value c) else acc)"

definition is_space :: "char \<Rightarrow> bool" where
  "is_space c \<longleftrightarrow> c \<in> set [CHR '' '', CHR 0x09, CHR 0x0A, CHR 0x0B, CHR 0x0C, CHR 0x0D]"

text \<open>\<open>None\<close>: the value does not fit into an \<open>int\<close>, and the behaviour is undefined.\<close>

definition atoi :: "string \<Rightarrow> int option" where
  "atoi str =
     (let s = dropWhile is_space str;
          v = (case s of
                 [] \<Rightarrow> 0
               | c # cs \<Rightarrow> if c = CHR ''-'' then - digits_value cs 0
                            else if c = CHR ''+'' then digits_value cs 0
                            else digits_value s 0)
      in if - (2 ^ 31) \<le> v \<and> v < 2 ^ 31 then Some v else None)"

subsection \<open>The option loop\<close>

record config =
  cf_is_server :: bool
  cf_is_client :: bool
  cf_mode :: "string option"
  cf_duration :: int
  cf_work :: rat

text \<open>\<open>Exit code\<close> ends the program; \<open>Undefined\<close> is undefined behaviour.\<close>

datatype stop = Exit int | Undefined

fun process_options :: "(string \<Rightarrow> rat) \<Rightarrow> opt list \<Rightarrow> config \<Rightarrow> stop + config" where
  "process_options atof [] cf = Inr cf"
| "process_options atof (Bad_option # opts) cf = Inl (Exit 1)"
| "process_options atof (Opt c arg # opts) cf =
     (if c = CHR ''s'' then process_options atof opts (cf\<lparr>cf_is_server := True\<rparr>)
      else if c = CHR ''c'' then process_options atof opts (cf\<lparr>cf_is_client := True\<rparr>)
      else if c = CHR ''m'' then process_options atof opts (cf\<lparr>cf_mode := arg\<rparr>)
      else if c = CHR ''d'' then
        (case arg \<bind> atoi of
           None \<Rightarrow> Inl Undefined
         | Some secs \<Rightarrow> if secs \<le> 0 then Inl (Exit 1)
                         else process_options atof opts (cf\<lparr>cf_duration := secs\<rparr>))
      else if c = CHR ''w'' then
        (case arg of
           None \<Rightarrow> Inl Undefined
         | Some v \<Rightarrow> if atof v < 0 then Inl (Exit 1)
                      else process_options atof opts (cf\<lparr>cf_work := atof v\<rparr>))
      else if c = CHR ''h'' then Inl (Exit 0)
      else Inl (Exit 1))"

subsection \<open>Backends and calls\<close>

datatype role = As_server | As_client

datatype backend = Uds_Blocking | Uds_Nonblocking | Shm_Blocking | Shm_Nonblocking
  | Lfshm_Blocking | Lfshm_Nonblocking

text \<open>The comparisons of \<open>mode\<close>, in their order. Two names choose the backend with notification.\<close>

definition backend_of :: "string \<Rightarrow> backend option" where
  "backend_of mode =
     (if mode = ''uds-blocking'' then Some Uds_Blocking
      else if mode = ''uds-nonblocking'' then Some Uds_Nonblocking
      else if mode = ''shm-notification'' then Some Shm_Nonblocking
      else if mode = ''shm-blocking'' then Some Shm_Blocking
      else if mode = ''lfshm-blocking'' then Some Lfshm_Blocking
      else if mode = ''lfshm-nonblocking'' then Some Lfshm_Nonblocking
      else if mode = ''shm-nonblocking'' then Some Shm_Nonblocking
      else None)"

text \<open>The resource the set-up is called with.\<close>

datatype endpoint = Socket_path string | Ring_size u64

fun endpoint_of :: "backend \<Rightarrow> endpoint" where
  "endpoint_of Uds_Blocking = Socket_path ''/tmp/uds_blocking.sock''"
| "endpoint_of Uds_Nonblocking = Socket_path ''/tmp/uds_nonblocking.sock''"
| "endpoint_of _ = Ring_size BUFFER_SIZE"

definition title_of :: "string \<Rightarrow> string" where
  "title_of mode =
     (if mode = ''uds-blocking'' then ''Blocking Unix Domain Socket''
      else if mode = ''uds-nonblocking'' then ''Non-Blocking Unix Domain Socket''
      else if mode = ''shm-notification'' then ''Notification-based Shared Memory''
      else if mode = ''shm-blocking'' then ''Blocking Shared Memory''
      else if mode = ''lfshm-blocking'' then ''Lock-free Blocking Shared Memory''
      else if mode = ''lfshm-nonblocking'' then ''Lock-free Non-Blocking Shared Memory''
      else ''Non-Blocking Shared Memory'')"

datatype call =
    Setup backend role endpoint
  | Run_server backend int rat
  | Run_client backend int
  | Print_stats string
  | Free backend role

fun linux_only :: "backend \<Rightarrow> bool" where
  "linux_only Lfshm_Blocking = True"
| "linux_only Lfshm_Nonblocking = True"
| "linux_only _ = False"

text \<open>The branch of \<open>main\<close> for a mode: the calls and the exit code. \<open>up\<close>: the set-up succeeds.\<close>

definition run_mode :: "bool \<Rightarrow> bool \<Rightarrow> string \<Rightarrow> config \<Rightarrow> call list \<times> int" where
  "run_mode linux up mode cf =
     (case backend_of mode of
        None \<Rightarrow> ([], 1)
      | Some b \<Rightarrow>
          if linux_only b \<and> \<not> linux then ([], 1)
          else if cf_is_server cf then
            (if \<not> up then ([Setup b As_server (endpoint_of b)], 1)
             else ([Setup b As_server (endpoint_of b), Run_server b (cf_duration cf) (cf_work cf),
                    Free b As_server], 0))
          else
            (if \<not> up then ([Setup b As_client (endpoint_of b)], 1)
             else ([Setup b As_client (endpoint_of b), Run_client b (cf_duration cf),
                    Print_stats (title_of mode), Free b As_client], 0)))"

definition default_config :: "rat \<Rightarrow> config" where
  "default_config work =
     \<lparr>cf_is_server = False, cf_is_client = False, cf_mode = None, cf_duration = RUN_DURATION, cf_work = work\<rparr>"

text \<open>\<open>work_env\<close>: the value of \<open>IPC_BENCHMARK_WORK_SECS\<close>, if it is set. \<open>None\<close>: undefined behaviour.\<close>

definition main ::
  "bool \<Rightarrow> bool \<Rightarrow> (string \<Rightarrow> rat) \<Rightarrow> string option \<Rightarrow> string list \<Rightarrow> (call list \<times> int) option" where
  "main linux up atof work_env args =
     (let work = (case work_env of None \<Rightarrow> 0 | Some v \<Rightarrow> atof v)
      in if work < 0 then Some ([], 1)
         else case process_options atof (getopt [] args) (default_config work) of
           Inl Undefined \<Rightarrow> None
         | Inl (Exit code) \<Rightarrow> Some ([], code)
         | Inr cf \<Rightarrow>
             if \<not> cf_is_server cf \<and> \<not> cf_is_client cf then Some ([], 1)
             else if cf_is_server cf \<and> cf_is_client cf then Some ([], 1)
             else (case cf_mode cf of
                     None \<Rightarrow> Some ([], 1)
                   | Some mode \<Rightarrow> Some (run_mode linux up mode cf)))"

subsection \<open>Numbers\<close>

definition digit_char :: "nat \<Rightarrow> char" where "digit_char d = char_of (48 + d)"

fun show_nat :: "nat \<Rightarrow> string" where
  "show_nat n = (if n < 10 then [digit_char n] else show_nat (n div 10) @ [digit_char (n mod 10)])"

declare show_nat.simps [simp del]

lemma digit_cases: "d < 10 \<Longrightarrow> d \<in> {0, 1, 2, 3, 4, 5, 6, 7, 8, 9 :: nat}"
  by auto

lemma digit_char_digit:
  "d < 10 \<Longrightarrow> is_digit (digit_char d) \<and> digit_value (digit_char d) = int d \<and> \<not> is_space (digit_char d) \<and>
     digit_char d \<noteq> CHR ''-'' \<and> digit_char d \<noteq> CHR ''+''"
  by (drule digit_cases, elim insertE emptyE)
    (simp_all add: digit_char_def is_digit_def digit_value_def is_space_def char_of_def bit_0)

lemma digits_value_snoc:
  "list_all is_digit xs \<Longrightarrow> is_digit d \<Longrightarrow>
     digits_value (xs @ [d]) acc = digits_value xs acc * 10 + digit_value d"
  by (induction xs arbitrary: acc) auto

lemma show_nat_digits: "list_all is_digit (show_nat n) \<and> digits_value (show_nat n) 0 = int n"
proof (induction n rule: less_induct)
  case (less n)
  show ?case
  proof (cases "n < 10")
    case True
    then show ?thesis using digit_char_digit [of n] by (subst show_nat.simps, subst show_nat.simps) simp
  next
    case False
    then have "list_all is_digit (show_nat (n div 10)) \<and> digits_value (show_nat (n div 10)) 0 = int (n div 10)"
      by (intro less.IH) simp
    moreover have "show_nat n = show_nat (n div 10) @ [digit_char (n mod 10)]"
      using False by (subst show_nat.simps) simp
    ultimately show ?thesis
      using digit_char_digit [of "n mod 10"] digits_value_snoc [of "show_nat (n div 10)" "digit_char (n mod 10)" 0]
      by simp presburger
  qed
qed

lemma show_nat_head: "\<exists>d ds. show_nat n = digit_char d # ds \<and> d < 10"
proof (induction n rule: less_induct)
  case (less n)
  show ?case
  proof (cases "n < 10")
    case True
    then show ?thesis by (subst show_nat.simps) auto
  next
    case False
    then obtain d ds where "show_nat (n div 10) = digit_char d # ds" "d < 10"
      using less.IH [of "n div 10"] by auto
    then show ?thesis using False by (subst show_nat.simps) auto
  qed
qed

lemma atoi_show: "n < 2 ^ 31 \<Longrightarrow> atoi (show_nat n) = Some (int n)"
proof -
  assume n: "n < 2 ^ 31"
  obtain d ds where d: "show_nat n = digit_char d # ds" "d < 10" using show_nat_head by blast
  then have "dropWhile is_space (show_nat n) = show_nat n" using digit_char_digit by simp
  then show ?thesis
    using n d digit_char_digit [OF d(2)] show_nat_digits [of n] by (simp add: atoi_def)
qed

subsection \<open>Properties\<close>

text \<open>The command lines of a configuration: long options with separate and with attached values, and short
  options.\<close>

definition long_line :: "role \<Rightarrow> string \<Rightarrow> nat \<Rightarrow> string \<Rightarrow> string list" where
  "long_line r mode secs work =
     [case r of As_server \<Rightarrow> ''--server'' | As_client \<Rightarrow> ''--client'',
      ''--mode'', mode, ''--duration'', show_nat secs, ''--work'', work]"

definition attached_line :: "role \<Rightarrow> string \<Rightarrow> nat \<Rightarrow> string \<Rightarrow> string list" where
  "attached_line r mode secs work =
     [case r of As_server \<Rightarrow> ''--server'' | As_client \<Rightarrow> ''--client'',
      ''--mode='' @ mode, ''--duration='' @ show_nat secs, ''--work='' @ work]"

definition short_line :: "role \<Rightarrow> string \<Rightarrow> nat \<Rightarrow> string \<Rightarrow> string list" where
  "short_line r mode secs work =
     [case r of As_server \<Rightarrow> ''-s'' | As_client \<Rightarrow> ''-c'',
      ''-m'', mode, ''-d'', show_nat secs, ''-w'', work]"

definition config_of :: "(string \<Rightarrow> rat) \<Rightarrow> role \<Rightarrow> string \<Rightarrow> nat \<Rightarrow> string \<Rightarrow> config" where
  "config_of atof r mode secs work =
     \<lparr>cf_is_server = (r = As_server), cf_is_client = (r = As_client), cf_mode = Some mode,
      cf_duration = int secs, cf_work = atof work\<rparr>"

definition opts_of :: "role \<Rightarrow> string \<Rightarrow> nat \<Rightarrow> string \<Rightarrow> opt list" where
  "opts_of r mode secs work =
     [Opt (case r of As_server \<Rightarrow> CHR ''s'' | As_client \<Rightarrow> CHR ''c'') None, Opt CHR ''m'' (Some mode),
      Opt CHR ''d'' (Some (show_nat secs)), Opt CHR ''w'' (Some work)]"

lemma find_long_names:
  "find_long ''server'' = Some (No_argument, CHR ''s'')" "find_long ''client'' = Some (No_argument, CHR ''c'')"
  "find_long ''mode'' = Some (Required_argument, CHR ''m'')"
  "find_long ''duration'' = Some (Required_argument, CHR ''d'')"
  "find_long ''work'' = Some (Required_argument, CHR ''w'')"
  by (simp_all add: find_long_def long_options_def)

lemma getopt_lines:
  "getopt [] (long_line r mode secs work) = opts_of r mode secs work"
  "getopt [] (attached_line r mode secs work) = opts_of r mode secs work"
  "getopt [] (short_line r mode secs work) = opts_of r mode secs work"
  by (cases r; simp add: long_line_def attached_line_def short_line_def opts_of_def find_long_names short_options_def)+

lemma process_opts_of:
  assumes "0 < secs" "secs < 2 ^ 31" "0 \<le> atof work"
  shows "process_options atof (opts_of r mode secs work) (default_config w0) = Inr (config_of atof r mode secs work)"
  using assms by (cases r) (simp_all add: opts_of_def atoi_show default_config_def config_of_def)

text \<open>C39: round trip. Every configuration, written as a command line in any of the three styles, is read back
  by the option loop as the same configuration, whatever strings its mode and work time are.\<close>

theorem cli_roundtrip:
  assumes "0 < secs" "secs < 2 ^ 31" "0 \<le> atof work"
    and "line \<in> {long_line r mode secs work, attached_line r mode secs work, short_line r mode secs work}"
  shows "process_options atof (getopt [] line) (default_config w0) = Inr (config_of atof r mode secs work)"
  using assms(4) process_opts_of [of secs atof work r mode w0, OF assms(1-3)] getopt_lines by auto


text \<open>What the option loop keeps: the duration is positive and the work time is not negative.\<close>

lemma process_options_bounds:
  assumes "process_options atof opts cf = Inr cf'" "0 < cf_duration cf" "0 \<le> cf_work cf"
  shows "0 < cf_duration cf' \<and> 0 \<le> cf_work cf'"
  using assms
  by (induction atof opts cf rule: process_options.induct) (auto split: if_splits option.splits)

lemma process_options_exit:
  assumes "process_options atof opts cf = Inl (Exit code)"
  shows "code = 1 \<or> code = 0 \<and> (\<exists>arg. Opt CHR ''h'' arg \<in> set opts)"
  using assms
  by (induction atof opts cf rule: process_options.induct) (auto split: if_splits option.splits)

text \<open>The calls of a legitimate run, and its exit code.\<close>

definition good_run :: "bool \<Rightarrow> bool \<Rightarrow> config \<Rightarrow> string \<Rightarrow> backend \<Rightarrow> call list \<Rightarrow> int \<Rightarrow> bool" where
  "good_run linux up cf mode b calls code \<longleftrightarrow>
     cf_is_server cf \<noteq> cf_is_client cf \<and> cf_mode cf = Some mode \<and> backend_of mode = Some b \<and>
     (linux_only b \<longrightarrow> linux) \<and> 0 < cf_duration cf \<and> 0 \<le> cf_work cf \<and>
     (let r = (if cf_is_server cf then As_server else As_client);
          run = (if cf_is_server cf then [Run_server b (cf_duration cf) (cf_work cf)]
                 else [Run_client b (cf_duration cf), Print_stats (title_of mode)])
      in if up then code = 0 \<and> calls = [Setup b r (endpoint_of b)] @ run @ [Free b r]
         else code = 1 \<and> calls = [Setup b r (endpoint_of b)])"

lemma run_mode_good:
  assumes "run_mode linux up mode cf = (calls, code)" "cf_is_server cf \<noteq> cf_is_client cf" "cf_mode cf = Some mode"
    and "0 < cf_duration cf" "0 \<le> cf_work cf"
  shows "calls = [] \<and> code = 1 \<or>
    calls \<noteq> [] \<and> code \<in> {0, 1} \<and> (\<exists>b. good_run linux up cf mode b calls code)"
proof (cases "\<exists>b. backend_of mode = Some b \<and> (linux_only b \<longrightarrow> linux)")
  case False
  then show ?thesis using assms(1) by (auto simp: run_mode_def split: option.splits if_splits)
next
  case True
  then obtain b where b: "backend_of mode = Some b" "linux_only b \<longrightarrow> linux" by blast
  have "good_run linux up cf mode b calls code" "code \<in> {0, 1}" "calls \<noteq> []"
    using assms b by (auto simp: run_mode_def good_run_def split: if_splits)
  then show ?thesis by blast
qed

text \<open>The role flags are those of the options given.\<close>

lemma process_options_roles:
  assumes "process_options atof opts cf = Inr cf'"
  shows "cf_is_server cf' \<longleftrightarrow> cf_is_server cf \<or> (\<exists>arg. Opt CHR ''s'' arg \<in> set opts)"
    and "cf_is_client cf' \<longleftrightarrow> cf_is_client cf \<or> (\<exists>arg. Opt CHR ''c'' arg \<in> set opts)"
  using assms
  by (induction atof opts cf rule: process_options.induct) (auto split: if_splits option.splits)

text \<open>The work time of the environment.\<close>

definition env_work :: "(string \<Rightarrow> rat) \<Rightarrow> string option \<Rightarrow> rat" where
  "env_work atof work_env = (case work_env of None \<Rightarrow> 0 | Some v \<Rightarrow> atof v)"

text \<open>The three ways through \<open>main\<close>: an early exit of the option loop, a failed check, and a run.\<close>

lemma main_cases:
  assumes "main linux up atof work_env args = Some (calls, code)"
  obtains (refused) "calls = []" "code = 1"
  | (exits) work where "calls = []" "process_options atof (getopt [] args) (default_config work) = Inl (Exit code)"
  | (runs) cf mode where "0 \<le> env_work atof work_env"
      "process_options atof (getopt [] args) (default_config (env_work atof work_env)) = Inr cf"
      "cf_is_server cf \<noteq> cf_is_client cf" "cf_mode cf = Some mode" "run_mode linux up mode cf = (calls, code)"
proof -
  define work where "work = env_work atof work_env"
  define res where "res = process_options atof (getopt [] args) (default_config work)"
  have m: "main linux up atof work_env args = (if work < 0 then Some ([], 1)
         else case res of
           Inl Undefined \<Rightarrow> None
         | Inl (Exit code) \<Rightarrow> Some ([], code)
         | Inr cf \<Rightarrow>
             if \<not> cf_is_server cf \<and> \<not> cf_is_client cf then Some ([], 1)
             else if cf_is_server cf \<and> cf_is_client cf then Some ([], 1)
             else (case cf_mode cf of
                     None \<Rightarrow> Some ([], 1)
                   | Some mode \<Rightarrow> Some (run_mode linux up mode cf)))"
    by (simp add: main_def env_work_def work_def res_def Let_def)
  show thesis
  proof (cases "work < 0 \<or> (\<exists>cf. res = Inr cf \<and> (cf_is_server cf = cf_is_client cf \<or> cf_mode cf = None))")
    case True
    then show thesis using m assms by (intro refused) (auto split: if_splits)
  next
    case False
    show thesis
    proof (cases res)
      case (Inl st)
      then show thesis using False m assms by (cases st) (auto simp: res_def intro: exits)
    next
      case (Inr cf)
      then obtain mode where "cf_is_server cf \<noteq> cf_is_client cf" "cf_mode cf = Some mode" "0 \<le> work"
        using False by auto
      moreover then have "run_mode linux up mode cf = (calls, code)" using Inr m assms by auto
      ultimately show thesis using Inr by (intro runs) (simp_all add: res_def work_def)
    qed
  qed
qed

text \<open>C40: nothing runs on a bad command line. \<open>main\<close> returns 0 or 1. It makes calls only when the option loop
  ends with a configuration that has exactly one role, that is when exactly one of the options for server
  and client was given, with a known mode (of this platform), a positive duration and a work time that is
  not negative; then, with the values of that configuration, it sets up first, returns 1 without another
  call when that fails, and otherwise runs the chosen side of that backend and frees it last. It
  returns 0 without any call only for \<open>--help\<close>.\<close>

theorem cli_runs_only_valid:
  assumes "main linux up atof work_env args = Some (calls, code)"
  shows "code \<in> {0, 1} \<and>
    (calls = [] \<longrightarrow> code = 1 \<or> (\<exists>arg. Opt CHR ''h'' arg \<in> set (getopt [] args))) \<and>
    (calls \<noteq> [] \<longrightarrow> 0 \<le> env_work atof work_env \<and>
       (\<exists>arg. Opt CHR ''s'' arg \<in> set (getopt [] args)) \<noteq> (\<exists>arg. Opt CHR ''c'' arg \<in> set (getopt [] args)) \<and>
       (\<exists>cf mode b. process_options atof (getopt [] args) (default_config (env_work atof work_env)) = Inr cf \<and>
          (cf_is_server cf \<longleftrightarrow> (\<exists>arg. Opt CHR ''s'' arg \<in> set (getopt [] args))) \<and>
          good_run linux up cf mode b calls code))"
  using assms
proof (cases rule: main_cases)
  case (exits work)
  then show ?thesis using process_options_exit [of atof "getopt [] args" "default_config work" code] by auto
next
  case (runs cf mode)
  then have "0 < cf_duration cf" "0 \<le> cf_work cf"
    using process_options_bounds [OF runs(2)] by (simp_all add: default_config_def RUN_DURATION_def)
  moreover have "cf_is_server cf \<longleftrightarrow> (\<exists>arg. Opt CHR ''s'' arg \<in> set (getopt [] args))"
    "cf_is_client cf \<longleftrightarrow> (\<exists>arg. Opt CHR ''c'' arg \<in> set (getopt [] args))"
    using process_options_roles [OF runs(2)] by (simp_all add: default_config_def)
  ultimately show ?thesis using run_mode_good [OF runs(5,3,4)] runs(1,2,3) by blast
qed simp

text \<open>The modes the usage message lists.\<close>

definition usage_modes :: "string list" where
  "usage_modes = [''uds-blocking'', ''uds-nonblocking'', ''shm-notification'', ''shm-blocking'',
     ''lfshm-blocking'', ''lfshm-nonblocking'']"

text \<open>The usage message. Every mode it lists is accepted, and each backend has one; the program also accepts
  a seventh name, \<open>shm-nonblocking\<close>, which the message does not mention and which runs the same backend as
  \<open>shm-notification\<close> under another title.\<close>

theorem cli_usage_modes:
  "(\<forall>b. \<exists>m \<in> set usage_modes. backend_of m = Some b) \<and>
   {m. backend_of m \<noteq> None} = set usage_modes \<union> {''shm-nonblocking''} \<and> ''shm-nonblocking'' \<notin> set usage_modes \<and>
   backend_of ''shm-nonblocking'' = backend_of ''shm-notification'' \<and>
   title_of ''shm-nonblocking'' \<noteq> title_of ''shm-notification''"
proof -
  have "\<exists>m \<in> set usage_modes. backend_of m = Some b" for b
    by (cases b) (simp_all add: usage_modes_def backend_of_def)
  moreover have "{m. backend_of m \<noteq> None} = set usage_modes \<union> {''shm-nonblocking''}"
    by (auto simp: usage_modes_def backend_of_def split: if_splits)
  ultimately show ?thesis by (simp add: usage_modes_def backend_of_def title_of_def)
qed

theorem cli_roundtrip_witness:
  "process_options (\<lambda>s. 0) (getopt [] [''--client'', ''--mode=x'', ''--duration='' @ show_nat 25, ''--work=''])
     (default_config 0) = Inr (config_of (\<lambda>s. 0) As_client ''x'' 25 [])"
  by (rule cli_roundtrip) (simp_all add: attached_line_def)

theorem cli_runs_only_valid_witness:
  "\<exists>cf mode b. process_options (\<lambda>s. 0) (getopt [] [''-sm'', ''shm-blocking'']) (default_config 0) = Inr cf \<and>
     cf_is_server cf \<and> good_run True False cf mode b [Setup b As_server (endpoint_of b)] 1 \<and>
     main True False (\<lambda>s. 0) None [''-sm'', ''shm-blocking''] = Some ([Setup b As_server (endpoint_of b)], 1)"
proof -
  have m: "main True False (\<lambda>s. 0) None [''-sm'', ''shm-blocking'']
      = Some ([Setup Shm_Blocking As_server (Ring_size BUFFER_SIZE)], 1)"
    by (simp add: main_def short_options_def default_config_def run_mode_def backend_of_def)
  have o: "Opt CHR ''s'' None \<in> set (getopt [] [''-sm'', ''shm-blocking''])" by (simp add: short_options_def)
  have e: "env_work (\<lambda>s. 0) None = 0" by (simp add: env_work_def)
  obtain cf mode b where g: "process_options (\<lambda>s. 0) (getopt [] [''-sm'', ''shm-blocking'']) (default_config 0) = Inr cf"
      "cf_is_server cf" "good_run True False cf mode b [Setup Shm_Blocking As_server (Ring_size BUFFER_SIZE)] 1"
    using cli_runs_only_valid [OF m, unfolded e] o by blast
  then have "b = Shm_Blocking" by (simp add: good_run_def Let_def split: if_splits)
  then show ?thesis using g m by (intro exI [of _ cf] exI [of _ mode] exI [of _ b]) simp
qed

end
