(* ===== verification/Spec2Isabelle.thy ===== *)
theory Spec2Isabelle
  imports Lfshm_Nonblocking_Proofs Shm_Blocking_Proofs Shm_Nonblocking_Proofs Uds_Nonblocking
    Shared_Segment Command_Line
begin

text \<open>
  A verification library for the IPC benchmark (C sources under \<open>src/\<close>).

  \<^bold>\<open>The program.\<close> \<open>ipc_benchmark.c\<close> starts one server or one client of six backends. The client sends
  random messages and waits for each to come back; the server echoes. The client counts answers and bytes,
  records latencies, and \<open>main\<close> prints the statistics. Four backends exchange messages through a ring in a
  shared segment and differ in how a side waits for the other; two use a stream socket. \<open>benchmark.c\<close> has the
  messages, their checksum and the statistics, \<open>interrupt.c\<close> the wake-up object the notification backend
  uses between its two client threads.

  \<^bold>\<open>The theories\<close>, in the order of the code they model.

  \<^item> \<open>IPC_Prelude\<close>: blocks of bytes, loads and stores that are undefined (\<open>None\<close>) outside of a block, cyclic
    copies, arithmetic on 32- and 64-bit words; the lemmas all components share.
  \<^item> \<open>Messages\<close> (\<open>benchmark.h\<close>, \<open>benchmark.c\<close>): layout of \<open>Message\<close>, \<open>calculate_checksum\<close>, \<open>validate_message\<close>,
    \<open>random_message\<close>. A generated message validates; a changed payload byte is detected.
  \<^item> \<open>Statistics\<close> (\<open>benchmark.c\<close>): clock, CPU time, \<open>calculate_stats\<close>, \<open>print_stats\<close>. The percentile
    \<open>q\<close> of \<open>n\<close> samples is the one with the index \<open>n * q / 100\<close> in their order; the average is exact while the 64-bit sum does not wrap around.
  \<^item> \<open>Message_Queue\<close>: the interface of the rings as a locale. \<open>Ring_Buffer\<close>: \<open>ring_buffer_write\<close> and
    \<open>ring_buffer_read\<close> with 64-bit positions (\<open>shm_blocking.c\<close>, \<open>shm_nonblocking.c\<close>) and with 32-bit
    positions (\<open>lfshm_blocking.c\<close>, \<open>lfshm_nonblocking.c\<close>): first-in first-out, refusal exactly when the
    guard holds, memory safety on arbitrary contents, equality of the two up to 2^31 bytes.
  \<^item> \<open>Echo_Protocol\<close>: what every shared-memory backend promises, as an abstract state machine, and the locale
    \<open>echo_implementation\<close> that transfers it to a step relation.
  \<^item> \<open>Futex\<close>: waiting on and signalling an atomic flag, one step per atomic access or system call, and the
    invariant by which no wake-up is lost.
  \<^item> \<open>Lfshm_Blocking\<close>, \<open>Lfshm_Blocking_Proofs\<close> (\<open>lfshm_blocking.h\<close>, \<open>lfshm_blocking.c\<close>): set-up stores, server,
    client and shutdown as interleaved steps (\<open>lb_step\<close>).
  \<^item> \<open>Lfshm_Nonblocking\<close>, \<open>Lfshm_Nonblocking_Proofs\<close> (\<open>lfshm_nonblocking.h\<close>, \<open>lfshm_nonblocking.c\<close>): the same
    with the client's waits through io\_uring (\<open>lu_step\<close>), simulated in both directions by \<open>lb_step\<close>.
  \<^item> \<open>Shm_Blocking\<close>, \<open>Shm_Blocking_Proofs\<close> (\<open>shm_blocking.h\<close>, \<open>shm_blocking.c\<close>): the process-shared mutex and
    its two conditions (\<open>sb_step\<close>).
  \<^item> \<open>Interrupts\<close> (\<open>interrupt.c\<close>): the operations with their reads and writes on an eventfd or a pipe, return
    codes and capacities included, and the locale \<open>wakeup\<close>; \<open>Shm_Nonblocking\<close>, \<open>Shm_Nonblocking_Proofs\<close>
    (\<open>shm_nonblocking.h\<close>, \<open>shm_nonblocking.c\<close>): server, worker thread and main thread (\<open>nb_step\<close>); in an
    exchange worker and main thread together take the steps of the client of \<open>sb_step\<close>.
  \<^item> \<open>Os_Resources\<close>, \<open>Shared_Segment\<close>: what the set-up and tear-down functions of the four shared-memory
    backends acquire and release, on every error path, and the size of the rings.
  \<^item> \<open>Stream_Socket\<close>, \<open>Uds_Blocking\<close>, \<open>Uds_Nonblocking\<close> (\<open>uds_blocking.c\<close>, \<open>uds_nonblocking.c\<close>): single calls
    with the offset and the length the code passes, the exact read and write, set-up, tear-down, and the
    loops of both sides as functions of what the kernel answers. An answer is cut to the length asked for; a
    \<open>recv\<close> or \<open>send\<close> of the blocking code whose range leaves the block is undefined whatever comes.
  \<^item> \<open>Command_Line\<close> (\<open>ipc_benchmark.c\<close>): options, checks, choice of the backend, the calls of \<open>main\<close>.
  \<^item> This theory: a property across components.

  \<^bold>\<open>How the state corresponds.\<close> A ring struct is a record with the fields of the C struct, plus its buffer as a
  list of bytes. A process or thread is a program counter, one constructor for each place between two
  accesses to shared state, and its locals. \<open>None\<close> as the result of a step function means that the process
  waits; a \<open>_crash\<close> place is an access outside of a block. Fields called histories are read by no step.
  System calls and library calls whose result the code looks at are inputs: allocation, the random number,
  the clock (which never runs backwards), every answer of a socket call and of liburing. So a property holds
  for all of them unless it says otherwise. \<open>live\<close> predicates say that the server has not begun to shut down.

  \<^bold>\<open>What is shown.\<close> For the four shared-memory backends, while the server runs, and for the lock-free ones
  when the set-up is finished before the client looks: answers are the requests, in order, byte for byte; no
  access leaves its block; nothing deadlocks, or a waiting client is answered within a bound; the statistics
  count the answers. In the mutex backend a process without the mutex does not depend on the ring and
  leaves it alone. For the sockets: safety against any peer, and for the non-blocking client exact
  exchanges under any fragmentation. For the command line: the calls are those of the configuration the
  options give. The faults found are theorems too: the start-up race and the self-echo of the lock-free
  backends, the worker that is never missed, the extra message at the end, truncated answers that count.

  \<^bold>\<open>Bounds.\<close> Rings of at least \<open>MAX_MSG_SIZE\<close> and at most 2^31 bytes for the lock-free backends, of at
  least 8264 (twice the longest request with its frame) and less than 2^62 bytes for the two with a mutex (the
  program's have 2^22); up to
  \<open>MAX_LATENCIES\<close> samples. No definition uses fuel: loops over shared state are steps of a relation, loops over
  the answers of the kernel recurse on the list of answers and say so when the list ends before the loop
  does, and the remaining loops terminate by a measure.

  \<^bold>\<open>Not modelled.\<close> The texts the program prints (\<open>print_usage\<close>, \<open>perror\<close>, error messages), the makefile and the
  readme; \<open>alloc_aligned_buffer\<close>, \<open>signal_handler\<close> and \<open>should_exit\<close>, which nothing calls; \<open>usleep\<close>, which only
  takes time; the reordering the weaker C11 memory orders would allow (steps are sequentially consistent);
  errors of the reads behind \<open>interrupt_wait\<close> in the steps of the notification backend (\<open>Interrupts\<close> has them);
  rounding of floating-point numbers (they are rationals); the scheduler's fairness.
\<close>

section \<open>A whole run\<close>

text \<open>C34: a whole run of the lock-free backend. The server sets up the ring \<open>main\<close> asks for: its capacity is the
  one the protocol's theorems need. A client that finds the set-up finished, and whose run ends while the
  server still runs, then reports exactly the answers it received: their number, their bytes, and, when there
  are any, the 50th, 95th and 99th percentile, in the sense of \<open>percentile_of\<close>, of the latencies it recorded,
  one for each answer up to \<open>MAX_LATENCIES\<close>.\<close>

theorem benchmark_report:
  assumes "setup_lfshm_blocking BUFFER_SIZE True page_size a = Some (Some capacity, evs)" "p_size p = capacity"
    and "lb_up p s0" "reach (lb_step p) s0 s" "lb_live s" "c_pc s = C_stats"
  shows "\<exists>t rep. lb_client_move p True 0 s = Some t \<and> c_pc t = C_done \<and> c_report t = Some rep \<and>
    st_ops rep = word_of_nat (length (g_rcvd s)) \<and>
    st_bytes rep = word_of_nat (sum_list (map length (g_rcvd s))) \<and>
    length (c_lat s) = min MAX_LATENCIES (length (g_rcvd s)) \<and>
    (g_rcvd s \<noteq> [] \<longrightarrow> (\<exists>p50 p95 p99. percentile_of 50 (c_lat s) p50 \<and> percentile_of 95 (c_lat s) p95 \<and>
       percentile_of 99 (c_lat s) p99 \<and>
       st_p50 rep = double p50 \<and> st_p95 rep = double p95 \<and> st_p99 rep = double p99))"
proof -
  have "capacity = BUFFER_SIZE"
    using assms(1) by (auto simp: setup_lfshm_blocking_def buffer_size_capacity split_def Let_def split: if_splits)
  then have "unat MAX_MSG_SIZE \<le> unat (p_size p) \<and> unat (p_size p) \<le> 2 ^ 31"
    by (simp add: assms(2) BUFFER_SIZE_def MAX_MSG_SIZE_def)
  then have "lb_inv s" using lb.reach_inv [of p s0 s] assms(3-5) by blast
  then have st: "c_ops s = word_of_nat (length (g_rcvd s))" "c_bytes s = word_of_nat (sum_list (map length (g_rcvd s)))"
    "length (c_lat s) = min MAX_LATENCIES (length (g_rcvd s))"
    using assms(6) by (simp_all add: lb_inv_def lb_stats_inv_def)
  then have l: "length (c_lat s) \<le> MAX_LATENCIES" by simp
  obtain rep where r: "run_report (p_cpu p) (p_client_secs p) (c_lat s) (c_ops s) (c_bytes s) = Some rep"
    "st_ops rep = c_ops s" "st_bytes rep = c_bytes s"
    by (rule run_report_total [OF l])
  have "lb_client_move p True 0 s = Some (s\<lparr>c_report := Some rep, c_pc := C_done\<rparr>)"
    using assms(6) r(1) by (simp add: lb_client_move_def lb_client_step_def)
  moreover have "c_lat s \<noteq> []" if "g_rcvd s \<noteq> []"
  proof -
    have "0 < length (c_lat s)" using st(3) that by (simp add: MAX_LATENCIES_def)
    then show ?thesis by simp
  qed
  ultimately show ?thesis using r st run_report_percentiles [OF r(1) _ l] by auto
qed

theorem benchmark_report_witness:
  "\<exists>s m t rep p50. reach (lb_step lb_params0) lb_up0 s \<and> g_rcvd s = [m] \<and>
     lb_client_move lb_params0 True 0 s = Some t \<and> c_report t = Some rep \<and>
     st_ops rep = 1 \<and> st_bytes rep = word_of_nat (length m) \<and> percentile_of 50 (c_lat s) p50 \<and> st_p50 rep = double p50"
proof -
  let ?a = "\<lparr>sg_fd = 3, sg_truncated = 0, sg_mapped = True\<rparr>"
  obtain evs where up: "setup_lfshm_blocking BUFFER_SIZE True 4096 ?a = Some (Some BUFFER_SIZE, evs)"
    by (auto simp: setup_lfshm_blocking_def buffer_size_capacity server_segment_def split_def Let_def)
  obtain s m where s: "reach (lb_step lb_params0) lb_up0 s" "lb_live s" "c_pc s = C_loop" "g_rcvd s = [m]" "clock s = 1"
    using lb_answered_run by blast
  define s1 where "s1 = s\<lparr>clock := - 1\<rparr>"
  define s2 where "s2 = s1\<lparr>c_pc := C_stats\<rparr>"
  have "lb_step lb_params0 s s1"
    unfolding s1_def by (rule lb_step.tick) (simp add: s(5))
  then have r1: "reach (lb_step lb_params0) lb_up0 s1" by (rule reach.step [OF s(1)])
  have "\<not> - 1 < c_end s" by (simp add: not_less)
  then have "lb_client_move lb_params0 True 0 s1 = Some s2"
    using s(3) by (simp add: lb_client_move_def lb_client_step_def s1_def s2_def)
  then have "lb_step lb_params0 s1 s2" by (rule lb_step.client [OF order_refl])
  then have r: "reach (lb_step lb_params0) lb_up0 s2" by (rule reach.step [OF r1])
  have e: "lb_live s2" "c_pc s2 = C_stats" "g_rcvd s2 = [m]" "p_size lb_params0 = BUFFER_SIZE"
    using s(2,4) by (simp_all add: s2_def s1_def lb_live_def lb_params0_def)
  obtain t rep p50 where "lb_client_move lb_params0 True 0 s2 = Some t" "c_report t = Some rep" "st_ops rep = 1"
    "st_bytes rep = word_of_nat (length m)" "percentile_of 50 (c_lat s2) p50" "st_p50 rep = double p50"
    using benchmark_report [OF up e(4) lb_instances(1) r e(1,2)] e(3) by auto
  then show ?thesis
    using r e(3) by (intro exI [of _ s2] exI [of _ m] exI [of _ t] exI [of _ rep] exI [of _ p50]) simp
qed

end
